(* ===== verification/Prelude.thy ===== *)
theory Prelude
  imports
    Main
    "HOL-Library.Word"
    "HOL-Library.Multiset"
    "HOL-Library.List_Lexorder"
    "HOL-Library.Product_Lexorder"
    "HOL-Library.Option_ord"
    "HOL-Library.Signed_Division"
    "HOL-Library.AList"
begin

text \<open>
  What every theory of the development shares: the machine integer types, the integer
  conversions and saturating operations the Rust code uses, an ordered map that stands for
  \<open>std::collections::BTreeMap\<close>, the canonical form of a list sorted by a key, and the lemma
  collections that the component proofs use.

  Integers. A value the program stores is a word of its width (\<open>i32\<close>, \<open>u16\<close>, \<open>u64\<close>, ...). An
  \<open>i64\<close> or \<open>i128\<close> intermediate of a computation is an \<open>int\<close>, and each operation of the code on it
  that can leave the 64-bit range says what happens there: \<open>wrap64\<close> for the plain operators (the
  release profile of \<open>Cargo.toml\<close> has no overflow checks), \<open>sat64\<close> for \<open>saturating_add\<close>.
\<close>

section \<open>Machine integers\<close>

type_synonym u8 = "8 word"
type_synonym u16 = "16 word"
type_synonym u32 = "32 word"
type_synonym u64 = "64 word"
type_synonym i32 = "32 word"

text \<open>Byte strings and 32-byte digests. Rust compares \<open>[u8; 32]\<close> lexicographically, as the
  order on lists does.\<close>

type_synonym bytes = "u8 list"
type_synonym hash32 = bytes

named_theorems lo_simps "reading machine integers back after a cast"
named_theorems order_free "results that do not depend on the order of a list"

definition i32_max :: int where "i32_max = 2147483647"
definition i32_min :: int where "i32_min = - 2147483648"
definition i64_max :: int where "i64_max = 9223372036854775807"
definition i64_min :: int where "i64_min = - 9223372036854775808"

abbreviation in_i32 :: "int \<Rightarrow> bool" where
  "in_i32 k \<equiv> i32_min \<le> k \<and> k \<le> i32_max"

abbreviation in_i64 :: "int \<Rightarrow> bool" where
  "in_i64 k \<equiv> i64_min \<le> k \<and> k \<le> i64_max"

text \<open>\<open>k as i64\<close> and \<open>k as i32\<close>: two's complement truncation.\<close>

definition wrap64 :: "int \<Rightarrow> int" where
  "wrap64 k = signed_take_bit 63 k"

definition wrap32 :: "int \<Rightarrow> int" where
  "wrap32 k = signed_take_bit 31 k"

text \<open>Rust's \<open>clamp\<close>, and the saturation of \<open>saturating_add\<close> and \<open>saturating_sub\<close>.\<close>

definition clampi :: "int \<Rightarrow> int \<Rightarrow> int \<Rightarrow> int" where
  "clampi lo hi k = (if k < lo then lo else if k > hi then hi else k)"

definition sat64 :: "int \<Rightarrow> int" where
  "sat64 k = clampi i64_min i64_max k"

definition sat32 :: "int \<Rightarrow> int" where
  "sat32 k = clampi i32_min i32_max k"

text \<open>\<open>saturating_sub\<close> of an unsigned type.\<close>

definition usub_sat :: "'a::len word \<Rightarrow> 'a word \<Rightarrow> 'a word" where
  "usub_sat a b = (if a < b then 0 else a - b)"

lemma i32_bounds: "i32_min = - (2 ^ 31)" "i32_max = 2 ^ 31 - 1"
  by (simp_all add: i32_min_def i32_max_def)

lemma i64_bounds: "i64_min = - (2 ^ 63)" "i64_max = 2 ^ 63 - 1"
  by (simp_all add: i64_min_def i64_max_def)

lemma wrap64_id [simp]: "in_i64 k \<Longrightarrow> wrap64 k = k"
  unfolding wrap64_def by (rule signed_take_bit_int_eq_self) (simp_all add: i64_bounds)

lemma wrap32_id [simp]: "in_i32 k \<Longrightarrow> wrap32 k = k"
  unfolding wrap32_def by (rule signed_take_bit_int_eq_self) (simp_all add: i32_bounds)

lemma clampi_id [simp]: "lo \<le> k \<Longrightarrow> k \<le> hi \<Longrightarrow> clampi lo hi k = k"
  by (simp add: clampi_def)

lemma wrap64_0 [simp]: "wrap64 0 = 0"
  by (simp add: wrap64_def)

lemma clampi_ge: "lo \<le> hi \<Longrightarrow> lo \<le> clampi lo hi k"
  by (simp add: clampi_def)

lemma clampi_le: "lo \<le> hi \<Longrightarrow> clampi lo hi k \<le> hi"
  by (simp add: clampi_def)

lemma clampi_mono: "lo \<le> hi \<Longrightarrow> k \<le> l \<Longrightarrow> clampi lo hi k \<le> clampi lo hi l"
  by (simp add: clampi_def)

lemma sat64_id [simp]: "in_i64 k \<Longrightarrow> sat64 k = k"
  by (simp add: sat64_def)

lemma sat64_0 [simp]: "sat64 0 = 0"
  by (simp add: sat64_def clampi_def i64_min_def i64_max_def)

lemma sat64_in: "in_i64 (sat64 k)"
  by (simp add: sat64_def clampi_def i64_min_def i64_max_def)

lemma abs_sat64_le: "\<bar>sat64 k\<bar> \<le> \<bar>k\<bar>"
  by (simp add: sat64_def clampi_def i64_min_def i64_max_def)

lemma sat64_mono: "k \<le> l \<Longrightarrow> sat64 k \<le> sat64 l"
  by (simp add: sat64_def clampi_mono i64_min_def i64_max_def)

lemma sint_in_i32 [simp]: "i32_min \<le> sint (w :: i32)" "sint (w :: i32) \<le> i32_max"
  using sint_range_size [of w] by (simp_all add: word_size i32_min_def i32_max_def)

lemma sint_word_of_int_i32: "in_i32 k \<Longrightarrow> sint (word_of_int k :: i32) = k"
  by (simp add: sint_sbintrunc' wrap32_id [unfolded wrap32_def])

lemma unat_inject: "unat a = unat b \<longleftrightarrow> a = b"
  by (simp add: word_eq_iff_unsigned [where 'a = nat])

subsection \<open>Truncating division\<close>

text \<open>Rust's \<open>/\<close> on signed integers is \<open>sdiv\<close> of the library.\<close>

lemma sdiv_nonneg: "0 \<le> a \<Longrightarrow> 0 < b \<Longrightarrow> (a::int) sdiv b = a div b"
  by (cases "a = 0") (simp_all add: signed_divide_int_def sgn_if)

lemma abs_sdiv: "0 < b \<Longrightarrow> \<bar>(a::int) sdiv b\<bar> = \<bar>a\<bar> div b"
  by (cases "a = 0")
    (simp_all add: signed_divide_int_def abs_mult sgn_if pos_imp_zdiv_nonneg_iff)

lemma sdiv_0 [simp]: "(0::int) sdiv b = 0"
  by (simp add: signed_divide_int_def)

lemma sdiv_sign:
  "0 \<le> a \<Longrightarrow> 0 < b \<Longrightarrow> 0 \<le> (a::int) sdiv b"
  "a \<le> 0 \<Longrightarrow> 0 < b \<Longrightarrow> (a::int) sdiv b \<le> 0"
  by (cases "a = 0"; simp add: signed_divide_int_def sgn_if pos_imp_zdiv_nonneg_iff)+

lemma clampi_sign:
  "lo \<le> 0 \<Longrightarrow> 0 \<le> hi \<Longrightarrow> 0 \<le> k \<Longrightarrow> 0 \<le> clampi lo hi k"
  "lo \<le> 0 \<Longrightarrow> 0 \<le> hi \<Longrightarrow> k \<le> 0 \<Longrightarrow> clampi lo hi k \<le> 0"
  by (simp_all add: clampi_def)

section \<open>Saturating sums\<close>

text \<open>The loop \<open>for x in xs { total = total.saturating_add(x) }\<close>.\<close>

definition sat_sum :: "int \<Rightarrow> int list \<Rightarrow> int" where
  "sat_sum t xs = foldl (\<lambda>t x. sat64 (t + x)) t xs"

lemma sat_sum_simps [simp]:
  "sat_sum t [] = t"
  "sat_sum t (x # xs) = sat_sum (sat64 (t + x)) xs"
  by (simp_all add: sat_sum_def)

lemma sat_sum_append: "sat_sum t (xs @ ys) = sat_sum (sat_sum t xs) ys"
  by (simp add: sat_sum_def)

lemma sum_list_abs_nonneg [simp]: "0 \<le> (\<Sum>x\<leftarrow>xs. \<bar>f x :: int\<bar>)"
  by (induction xs) simp_all

text \<open>Where the absolute values stay inside the range, saturation never strikes and the sum is the
  exact one, whatever the order.\<close>

lemma sat_sum_exact:
  "\<bar>t\<bar> + (\<Sum>x\<leftarrow>xs. \<bar>x\<bar>) \<le> i64_max \<Longrightarrow> sat_sum t xs = t + sum_list xs"
proof (induction xs arbitrary: t)
  case Nil
  then show ?case by simp
next
  case (Cons x xs)
  have le: "\<bar>t + x\<bar> + (\<Sum>x\<leftarrow>xs. \<bar>x\<bar>) \<le> i64_max"
    using Cons.prems by simp
  then have "\<bar>t + x\<bar> \<le> i64_max"
    using sum_list_abs_nonneg [of "\<lambda>x. x" xs] by linarith
  then have "sat64 (t + x) = t + x"
    by (intro sat64_id) (simp add: i64_min_def i64_max_def abs_le_iff)
  with le show ?case using Cons.IH [of "t + x"] by simp
qed

lemma abs_sat_sum_le: "\<bar>sat_sum t xs\<bar> \<le> \<bar>t\<bar> + (\<Sum>x\<leftarrow>xs. \<bar>x\<bar>)"
proof (induction xs arbitrary: t)
  case Nil
  then show ?case by simp
next
  case (Cons x xs)
  have "\<bar>sat_sum (sat64 (t + x)) xs\<bar> \<le> \<bar>sat64 (t + x)\<bar> + (\<Sum>x\<leftarrow>xs. \<bar>x\<bar>)"
    by (rule Cons.IH)
  also have "\<bar>sat64 (t + x)\<bar> \<le> \<bar>t\<bar> + \<bar>x\<bar>"
    using abs_sat64_le [of "t + x"] by linarith
  finally show ?case by simp
qed

section \<open>Ordered maps (BTreeMap)\<close>

text \<open>
  A \<open>BTreeMap\<close> is the list of its entries in the order of the keys, which is also the order its
  iterators use. \<open>bt_entry k d f m\<close> is \<open>m.entry(k)\<close> with \<open>or_insert(d)\<close> and the update \<open>f\<close> of the
  entry's value.
\<close>

fun bt_entry :: "'k::linorder \<Rightarrow> 'v \<Rightarrow> ('v \<Rightarrow> 'v) \<Rightarrow> ('k \<times> 'v) list \<Rightarrow> ('k \<times> 'v) list" where
  "bt_entry k d f [] = [(k, f d)]"
| "bt_entry k d f ((k', v) # m) =
     (if k < k' then (k, f d) # (k', v) # m
      else if k = k' then (k', f v) # m
      else (k', v) # bt_entry k d f m)"

abbreviation bt_sorted :: "('k::linorder \<times> 'v) list \<Rightarrow> bool" where
  "bt_sorted m \<equiv> sorted_wrt (<) (map fst m)"

lemma bt_entry_keys: "fst ` set (bt_entry k d f m) = insert k (fst ` set m)"
  by (induction k d f m rule: bt_entry.induct) auto

lemma bt_entry_sorted: "bt_sorted m \<Longrightarrow> bt_sorted (bt_entry k d f m)"
proof (induction k d f m rule: bt_entry.induct)
  case (2 k d f k' v m)
  then show ?case
    using bt_entry_keys [of k d f m] by (force simp flip: set_map)
qed simp

lemma bt_entry_lookup:
  "bt_sorted m \<Longrightarrow> map_of (bt_entry k d f m) =
     (map_of m)(k \<mapsto> f (case map_of m k of None \<Rightarrow> d | Some v \<Rightarrow> v))"
proof (induction k d f m rule: bt_entry.induct)
  case (2 k d f k' v m)
  have none: "k < k' \<Longrightarrow> map_of m k = None"
    using "2.prems" by (force simp: map_of_eq_None_iff)
  have kk: "k' \<notin> fst ` set m"
    using "2.prems" by force
  then have "map_of m k' = None" by (simp add: map_of_eq_None_iff)
  with 2 none show ?case by (auto simp: fun_eq_iff)
qed (simp add: fun_eq_iff)

text \<open>Two ordered maps with the same lookups are the same list.\<close>

lemma bt_sorted_distinct: "bt_sorted m \<Longrightarrow> distinct (map fst m)"
  by (simp add: strict_sorted_iff)

lemma bt_eqI:
  assumes "bt_sorted m" "bt_sorted m'" "map_of m = map_of m'"
  shows "m = m'"
proof -
  have "set m = set m'"
    using assms map_of_inject_set [of m m'] by (simp add: bt_sorted_distinct)
  moreover have "inj_on fst (set m)"
    using assms(1) bt_sorted_distinct distinct_map by blast
  ultimately show ?thesis
    using assms by (intro map_sorted_distinct_set_unique [of fst])
      (simp_all add: strict_sorted_iff)
qed

text \<open>
  A loop that fills an ordered map, entry by entry. Its result in closed form: the keys in order,
  and for each key the fold over the elements that have it, in the order they came.
\<close>

definition bt_fold ::
  "('e \<Rightarrow> 'k::linorder) \<Rightarrow> ('e \<Rightarrow> 'v) \<Rightarrow> ('e \<Rightarrow> 'v \<Rightarrow> 'v) \<Rightarrow> 'e list \<Rightarrow> ('k \<times> 'v) list" where
  "bt_fold key d g xs = foldl (\<lambda>m e. bt_entry (key e) (d e) (g e) m) [] xs"

definition group_fold :: "('e \<Rightarrow> 'v) \<Rightarrow> ('e \<Rightarrow> 'v \<Rightarrow> 'v) \<Rightarrow> 'e list \<Rightarrow> 'v" where
  "group_fold d g ys = foldl (\<lambda>v e. g e v) (d (hd ys)) ys"

lemma bt_fold_Nil [simp]: "bt_fold key d g [] = []"
  by (simp add: bt_fold_def)

lemma bt_fold_snoc [simp]:
  "bt_fold key d g (xs @ [x]) = bt_entry (key x) (d x) (g x) (bt_fold key d g xs)"
  by (simp add: bt_fold_def)

lemma bt_fold_sorted: "bt_sorted (bt_fold key d g xs)"
  by (induction xs rule: rev_induct) (simp_all add: bt_entry_sorted)

lemma group_fold_snoc:
  "group_fold d g (ys @ [y]) = g y (if ys = [] then d y else group_fold d g ys)"
  by (simp add: group_fold_def)

lemma bt_fold_lookup:
  "map_of (bt_fold key d g xs) k =
     (let ys = filter (\<lambda>e. key e = k) xs
      in if ys = [] then None else Some (group_fold d g ys))"
proof (induction xs rule: rev_induct)
  case Nil
  then show ?case by simp
next
  case (snoc x xs)
  show ?case
  proof (cases "key x = k")
    case True
    with snoc show ?thesis
      by (simp add: bt_entry_lookup bt_fold_sorted group_fold_snoc Let_def split: if_splits)
  next
    case False
    with snoc show ?thesis
      by (simp add: bt_entry_lookup bt_fold_sorted)
  qed
qed

lemma bt_fold_eq:
  "bt_fold key d g xs =
     map (\<lambda>k. (k, group_fold d g (filter (\<lambda>e. key e = k) xs))) (sorted_list_of_set (key ` set xs))"
proof (rule bt_eqI)
  show "bt_sorted (bt_fold key d g xs)" by (rule bt_fold_sorted)
  show "map_of (bt_fold key d g xs) =
    map_of (map (\<lambda>k. (k, group_fold d g (filter (\<lambda>e. key e = k) xs)))
      (sorted_list_of_set (key ` set xs)))"
    by (auto simp: fun_eq_iff bt_fold_lookup Let_def map_of_map_restrict restrict_map_def
        filter_empty_conv)
qed (simp add: comp_def)

section \<open>Lists sorted by a key\<close>

lemma map_key_sort_key: "map k (sort_key k xs) = sort (map k xs)"
  by (rule properties_for_sort [symmetric]) simp_all

text \<open>
  A stable sort may leave elements with equal keys in the order they came. What is read from the
  sorted list still depends on the multiset alone, when equal keys give equal readings.
\<close>

lemma map_sort_key_perm [order_free]:
  assumes perm: "mset xs = mset ys"
    and det: "\<And>x y. x \<in> set xs \<Longrightarrow> y \<in> set xs \<Longrightarrow> k x = k y \<Longrightarrow> f x = f y"
  shows "map f (sort_key k xs) = map f (sort_key k ys)"
proof -
  have sets: "set xs = set ys" using perm mset_eq_setD by blast
  define h where "h v = f (SOME x. x \<in> set xs \<and> k x = v)" for v
  have fh: "f x = h (k x)" if "x \<in> set xs" for x
    using someI [of "\<lambda>y. y \<in> set xs \<and> k y = k x" x] that
    unfolding h_def by (intro det) auto
  have "map f (sort_key k zs) = map h (sort (map k zs))" if "set zs = set xs" for zs
    using that fh by (simp flip: map_key_sort_key add: comp_def)
  moreover have "sort (map k xs) = sort (map k ys)"
    using perm by (intro properties_for_sort) simp_all
  ultimately show ?thesis using sets by metis
qed

lemma sort_key_perm_inj:
  assumes "mset xs = mset ys" "inj_on k (set xs)"
  shows "sort_key k xs = sort_key k ys"
  using map_sort_key_perm [of xs ys k "\<lambda>x. x"] assms by (simp add: inj_on_def)

lemma mset_filter_cong [order_free]:
  "mset xs = mset ys \<Longrightarrow> mset (filter P xs) = mset (filter P ys)"
  by simp

lemma mset_map_cong [order_free]:
  "mset xs = mset ys \<Longrightarrow> mset (map f xs) = mset (map f ys)"
  by simp

lemma sum_list_perm [order_free]:
  "mset xs = mset ys \<Longrightarrow> sum_list (map f xs :: int list) = sum_list (map f ys)"
  by (metis mset_map sum_mset_sum_list)

text \<open>Splitting a sum by a key.\<close>

lemma sum_by_key:
  fixes f :: "'e \<Rightarrow> int"
  assumes "finite K" "key ` set xs \<subseteq> K"
  shows "(\<Sum>k\<in>K. \<Sum>e\<leftarrow>filter (\<lambda>e. key e = k) xs. f e) = (\<Sum>e\<leftarrow>xs. f e)"
  using assms(2)
proof (induction xs)
  case Nil
  then show ?case by simp
next
  case (Cons x xs)
  have "(\<Sum>k\<in>K. \<Sum>e\<leftarrow>filter (\<lambda>e. key e = k) (x # xs). f e) =
    (\<Sum>k\<in>K. (if key x = k then f x else 0) + (\<Sum>e\<leftarrow>filter (\<lambda>e. key e = k) xs. f e))"
    by (rule sum.cong) simp_all
  also have "\<dots> = f x + (\<Sum>e\<leftarrow>xs. f e)"
    using Cons assms(1) by (simp add: sum.distrib)
  finally show ?case by simp
qed

lemma sum_list_by_key:
  fixes f :: "'e \<Rightarrow> int"
  shows "(\<Sum>k\<leftarrow>sorted_list_of_set (key ` set xs). \<Sum>e\<leftarrow>filter (\<lambda>e. key e = k) xs. f e)
    = (\<Sum>e\<leftarrow>xs. f e)"
  by (simp add: sum_list_distinct_conv_sum_set sum_by_key)

end
