(* ===== verification/Log_Odds.thy ===== *)
theory Log_Odds
  imports Prelude
begin

text \<open>
  Log-odds arithmetic (\<open>aimp_node/src/epistemic.rs\<close>, lines 42-480 and 563-573): the confidence type
  \<open>LogOdds\<close> with its percentage tables, clamping, aggregation and update, the local
  \<open>ConfidenceInterval\<close>, the basis-point types \<open>Utility\<close> and \<open>Reputation\<close>, and the geometric
  \<open>discount_factor\<close>. The newtypes keep their machine words; \<open>lo_val\<close> reads the \<open>i32\<close> as an integer
  and \<open>lo_new\<close> is the constructor after an \<open>as i32\<close> cast.
\<close>

section \<open>LogOdds\<close>

datatype LogOdds = LogOdds i32

primrec lo_val :: "LogOdds \<Rightarrow> int" where
  "lo_val (LogOdds w) = sint w"

definition lo_new :: "int \<Rightarrow> LogOdds" where
  "lo_new k = LogOdds (word_of_int k)"

lemma lo_val_new [simp, lo_simps]: "in_i32 k \<Longrightarrow> lo_val (lo_new k) = k"
  by (simp add: lo_new_def sint_word_of_int_i32)

lemma lo_new_val [simp]: "lo_new (lo_val x) = x"
  by (cases x) (simp add: lo_new_def)

lemma lo_val_in_i32 [simp]: "i32_min \<le> lo_val x" "lo_val x \<le> i32_max"
  by (cases x; simp)+

lemma lo_val_inject: "lo_val x = lo_val y \<longleftrightarrow> x = y"
  by (metis lo_new_val)

lemma abs_lo_val_le: "\<bar>lo_val x\<bar> \<le> 2147483648"
  using lo_val_in_i32 [of x] by (simp add: i32_min_def i32_max_def abs_le_iff)

lemma lo_val_numeral [simp]:
  "lo_val (lo_new 0) = 0"
  "lo_val (lo_new 1) = 1"
  "(numeral n :: int) \<le> 2147483647 \<Longrightarrow> lo_val (lo_new (numeral n)) = numeral n"
  "(numeral n :: int) \<le> 2147483648 \<Longrightarrow> lo_val (lo_new (- numeral n)) = - numeral n"
  by (rule lo_val_new; simp add: i32_min_def i32_max_def)+

text \<open>The derived order compares the wrapped integers.\<close>

instantiation LogOdds :: linorder
begin

definition less_eq_LogOdds :: "LogOdds \<Rightarrow> LogOdds \<Rightarrow> bool" where
  "less_eq_LogOdds x y \<longleftrightarrow> lo_val x \<le> lo_val y"

definition less_LogOdds :: "LogOdds \<Rightarrow> LogOdds \<Rightarrow> bool" where
  "less_LogOdds x y \<longleftrightarrow> lo_val x < lo_val y"

instance
  by intro_classes (auto simp: less_eq_LogOdds_def less_LogOdds_def lo_val_inject)

end

definition NEUTRAL :: LogOdds where "NEUTRAL = lo_new 0"
definition VERY_HIGH :: LogOdds where "VERY_HIGH = lo_new 6907"
definition VERY_LOW :: LogOdds where "VERY_LOW = lo_new (- 6907)"
definition lo_MAX :: LogOdds where "lo_MAX = lo_new i32_max"
definition lo_MIN :: LogOdds where "lo_MIN = lo_new i32_min"
definition SAFE_MAX :: int where "SAFE_MAX = 1000000000"
definition SAFE_MIN :: int where "SAFE_MIN = - 1000000000"
definition MAX_DECLARED :: int where "MAX_DECLARED = 13816"
definition MIN_DECLARED :: int where "MIN_DECLARED = - 13816"

lemmas safe_bounds = SAFE_MAX_def SAFE_MIN_def

lemma lo_val_NEUTRAL [simp]: "lo_val NEUTRAL = 0"
  by (simp add: NEUTRAL_def)

subsection \<open>Percentages\<close>

definition from_percent :: "u8 \<Rightarrow> LogOdds" where
  "from_percent p = (let pct = unat p in lo_new
     (if pct = 0 then - 13816
      else if 1 \<le> pct \<and> pct \<le> 5 then - 2944
      else if 6 \<le> pct \<and> pct \<le> 10 then - 2197
      else if 11 \<le> pct \<and> pct \<le> 20 then - 1386
      else if 21 \<le> pct \<and> pct \<le> 30 then - 847
      else if 31 \<le> pct \<and> pct \<le> 40 then - 405
      else if 41 \<le> pct \<and> pct \<le> 49 then - 100
      else if pct = 50 then 0
      else if 51 \<le> pct \<and> pct \<le> 59 then 100
      else if 60 \<le> pct \<and> pct \<le> 69 then 405
      else if 70 \<le> pct \<and> pct \<le> 79 then 847
      else if 80 \<le> pct \<and> pct \<le> 89 then 1386
      else if 90 \<le> pct \<and> pct \<le> 94 then 2197
      else if 95 \<le> pct \<and> pct \<le> 99 then 2944
      else if pct = 100 then 13816
      else 0))"

definition to_percent :: "LogOdds \<Rightarrow> u8" where
  "to_percent x = (let v = lo_val x in
     if v \<le> - 6908 then 0
     else if - 6907 \<le> v \<and> v \<le> - 2945 then 2
     else if - 2944 \<le> v \<and> v \<le> - 2198 then 5
     else if - 2197 \<le> v \<and> v \<le> - 1387 then 10
     else if - 1386 \<le> v \<and> v \<le> - 848 then 20
     else if - 847 \<le> v \<and> v \<le> - 406 then 30
     else if - 405 \<le> v \<and> v \<le> - 101 then 40
     else if - 100 \<le> v \<and> v \<le> 99 then 50
     else if 100 \<le> v \<and> v \<le> 404 then 50
     else if 405 \<le> v \<and> v \<le> 846 then 60
     else if 847 \<le> v \<and> v \<le> 1385 then 70
     else if 1386 \<le> v \<and> v \<le> 2196 then 80
     else if 2197 \<le> v \<and> v \<le> 2943 then 90
     else if 2944 \<le> v \<and> v \<le> 3769 then 95
     else if 3770 \<le> v \<and> v \<le> 6906 then 99
     else 100)"

subsection \<open>Clamping, aggregation, update\<close>

definition clamp_declared :: "LogOdds \<Rightarrow> LogOdds" where
  "clamp_declared x = lo_new (clampi MIN_DECLARED MAX_DECLARED (lo_val x))"

definition safe_clamp :: "int \<Rightarrow> LogOdds" where
  "safe_clamp k = lo_new (clampi SAFE_MIN SAFE_MAX k)"

definition aggregate :: "LogOdds list \<Rightarrow> LogOdds" where
  "aggregate evidence = safe_clamp (sat_sum 0 (map lo_val evidence))"

definition lo_update :: "LogOdds \<Rightarrow> LogOdds \<Rightarrow> LogOdds" where
  "lo_update x evidence = safe_clamp (lo_val x + lo_val evidence)"

definition is_positive :: "LogOdds \<Rightarrow> bool" where
  "is_positive x \<longleftrightarrow> lo_val x > 0"

lemma lo_val_safe_clamp [simp]: "lo_val (safe_clamp k) = clampi SAFE_MIN SAFE_MAX k"
  by (simp add: safe_clamp_def clampi_def safe_bounds i32_min_def i32_max_def)

lemma lo_val_clamp_declared: "lo_val (clamp_declared x) = clampi MIN_DECLARED MAX_DECLARED (lo_val x)"
  by (simp add: clamp_declared_def clampi_def MIN_DECLARED_def MAX_DECLARED_def i32_min_def i32_max_def)

lemma clamp_declared_bound: "\<bar>lo_val (clamp_declared x)\<bar> \<le> MAX_DECLARED"
  by (auto simp: lo_val_clamp_declared clampi_def MIN_DECLARED_def MAX_DECLARED_def)

lemma safe_clamp_range: "SAFE_MIN \<le> lo_val (safe_clamp k)" "lo_val (safe_clamp k) \<le> SAFE_MAX"
  by (simp_all add: clampi_def safe_bounds)

lemma abs_safe_clamp_le: "\<bar>lo_val (safe_clamp k)\<bar> \<le> \<bar>k\<bar>"
  by (auto simp add: clampi_def safe_bounds)

lemma sum_abs_lo_val_le:
  "length xs \<le> 4294967295 \<Longrightarrow> (\<Sum>x\<leftarrow>map lo_val xs. \<bar>x\<bar>) \<le> i64_max"
proof -
  assume "length xs \<le> 4294967295"
  moreover have "(\<Sum>x\<leftarrow>map lo_val xs. \<bar>x\<bar>) \<le> int (length xs) * 2147483648"
    by (induction xs) (use abs_lo_val_le in \<open>auto simp: algebra_simps intro: add_mono\<close>)
  ultimately show ?thesis by (simp add: i64_max_def)
qed

text \<open>Below \<open>2 ^ 32\<close> pieces of evidence the aggregate is the clamped exact sum.\<close>

lemma aggregate_exact:
  "length xs \<le> 4294967295 \<Longrightarrow> aggregate xs = safe_clamp (\<Sum>x\<leftarrow>xs. lo_val x)"
  using sat_sum_exact [of 0 "map lo_val xs"] sum_abs_lo_val_le [of xs]
  by (simp add: aggregate_def)

lemma aggregate_perm [order_free]:
  assumes "length xs \<le> 4294967295" "mset xs = mset ys"
  shows "aggregate xs = aggregate ys"
  using assms mset_eq_length [OF assms(2)] sum_list_perm [OF assms(2), of lo_val]
  by (simp add: aggregate_exact)

section \<open>Confidence intervals\<close>

record ConfidenceInterval =
  ci_lower :: LogOdds
  ci_upper :: LogOdds

definition ci_exact :: "LogOdds \<Rightarrow> ConfidenceInterval" where
  "ci_exact v = \<lparr>ci_lower = v, ci_upper = v\<rparr>"

definition ci_new :: "LogOdds \<Rightarrow> LogOdds \<Rightarrow> ConfidenceInterval" where
  "ci_new lower upper =
     \<lparr>ci_lower = lo_new (min (lo_val lower) (lo_val upper)),
      ci_upper = lo_new (max (lo_val lower) (lo_val upper))\<rparr>"

definition ci_midpoint :: "ConfidenceInterval \<Rightarrow> LogOdds" where
  "ci_midpoint c =
     lo_new (clampi i32_min i32_max (lo_val (ci_lower c) + lo_val (ci_upper c)) sdiv 2)"

definition ci_width :: "ConfidenceInterval \<Rightarrow> int" where
  "ci_width c = sat32 (lo_val (ci_upper c) - lo_val (ci_lower c))"

definition ci_aggregate :: "ConfidenceInterval list \<Rightarrow> ConfidenceInterval" where
  "ci_aggregate intervals =
     (if intervals = [] then ci_exact NEUTRAL
      else let lower = Min (set (map (lo_val \<circ> ci_lower) intervals));
               upper = Max (set (map (lo_val \<circ> ci_upper) intervals));
               mid_sum = foldl (\<lambda>s i. wrap64 (s + lo_val (ci_midpoint i))) 0 intervals;
               mid = clampi i32_min i32_max mid_sum;
               half_width = clampi 0 i32_max ((upper - lower) sdiv 2)
           in \<lparr>ci_lower = lo_new (sat32 (mid - half_width)),
               ci_upper = lo_new (sat32 (mid + half_width))\<rparr>)"

definition ci_narrow :: "ConfidenceInterval \<Rightarrow> ConfidenceInterval \<Rightarrow> ConfidenceInterval" where
  "ci_narrow a b =
     (let lower = max (lo_val (ci_lower a)) (lo_val (ci_lower b));
          upper = min (lo_val (ci_upper a)) (lo_val (ci_upper b))
      in if lower > upper
         then \<lparr>ci_lower = lo_new (min (lo_val (ci_lower a)) (lo_val (ci_lower b))),
               ci_upper = lo_new (max (lo_val (ci_upper a)) (lo_val (ci_upper b)))\<rparr>
         else \<lparr>ci_lower = lo_new lower, ci_upper = lo_new upper\<rparr>)"

section \<open>Basis points\<close>

datatype Utility = Utility u16
datatype Reputation = Reputation u16

primrec utility_bps :: "Utility \<Rightarrow> u16" where "utility_bps (Utility b) = b"
primrec bps :: "Reputation \<Rightarrow> u16" where "bps (Reputation b) = b"

definition utility_from_bps :: "u16 \<Rightarrow> Utility" where
  "utility_from_bps b = Utility (min b 10000)"

definition from_bps :: "u16 \<Rightarrow> Reputation" where
  "from_bps b = Reputation (min b 10000)"

definition rep_ZERO :: Reputation where "rep_ZERO = Reputation 0"
definition rep_NEUTRAL :: Reputation where "rep_NEUTRAL = Reputation 5000"
definition rep_FULL :: Reputation where "rep_FULL = Reputation 10000"

definition weight_evidence :: "Reputation \<Rightarrow> LogOdds \<Rightarrow> LogOdds" where
  "weight_evidence r evidence =
     lo_new (clampi i32_min i32_max ((lo_val evidence * uint (bps r)) sdiv 10000))"

abbreviation valid_rep :: "Reputation \<Rightarrow> bool" where
  "valid_rep r \<equiv> bps r \<le> 10000"

lemma valid_from_bps [simp]: "valid_rep (from_bps b)"
  by (simp add: from_bps_def)

lemma uint_bps_le: "valid_rep r \<Longrightarrow> uint (bps r) \<le> 10000"
  by (simp add: word_le_def)

section \<open>Geometric discount\<close>

definition MAX_DISCOUNT_DEPTH :: u32 where "MAX_DISCOUNT_DEPTH = 30"
definition DEFAULT_DISCOUNT_BPS :: u16 where "DEFAULT_DISCOUNT_BPS = 3000"
definition UNASSESSED_DISCOUNT_BPS :: u16 where "UNASSESSED_DISCOUNT_BPS = 8000"

primrec discount_loop :: "nat \<Rightarrow> u16 \<Rightarrow> u64 \<Rightarrow> u64" where
  "discount_loop 0 d factor = factor"
| "discount_loop (Suc n) d factor = discount_loop n d (factor * ucast d div 10000)"

definition discount_factor :: "u32 \<Rightarrow> u16 \<Rightarrow> u64" where
  "discount_factor rank d = discount_loop (unat (min rank MAX_DISCOUNT_DEPTH)) d 10000"

text \<open>
  The factor over the integers. For a discount of at most 100% the word computation never leaves
  the range, the factor never grows with the rank and never exceeds 10000.
\<close>

primrec int_discount :: "int \<Rightarrow> nat \<Rightarrow> int \<Rightarrow> int" where
  "int_discount d 0 factor = factor"
| "int_discount d (Suc n) factor = int_discount d n (factor * d div 10000)"

lemma discount_step_le: "0 \<le> d \<Longrightarrow> d \<le> 10000 \<Longrightarrow> 0 \<le> f \<Longrightarrow> f * d div 10000 \<le> (f::int)"
  using zdiv_mono1 [of "f * d" "f * 10000" 10000] by (simp add: mult_left_mono)

lemma int_discount_nonneg: "0 \<le> d \<Longrightarrow> 0 \<le> f \<Longrightarrow> 0 \<le> int_discount d n f"
  by (induction n arbitrary: f) (simp_all add: pos_imp_zdiv_nonneg_iff)

lemma int_discount_le: "0 \<le> d \<Longrightarrow> d \<le> 10000 \<Longrightarrow> 0 \<le> f \<Longrightarrow> int_discount d n f \<le> f"
proof (induction n arbitrary: f)
  case 0
  then show ?case by simp
next
  case (Suc n)
  have "int_discount d n (f * d div 10000) \<le> f * d div 10000"
    using Suc by (simp add: pos_imp_zdiv_nonneg_iff)
  also have "\<dots> \<le> f" using Suc.prems by (intro discount_step_le)
  finally show ?case by simp
qed

lemma int_discount_mono: "0 \<le> d \<Longrightarrow> f \<le> g \<Longrightarrow> int_discount d n f \<le> int_discount d n g"
  by (induction n arbitrary: f g) (simp_all add: zdiv_mono1 mult_right_mono)

lemma int_discount_antimono:
  assumes "0 \<le> d" "d \<le> 10000" "0 \<le> f" "m \<le> n"
  shows "int_discount d n f \<le> int_discount d m f"
  using \<open>m \<le> n\<close>
proof (induction rule: dec_induct)
  case base
  then show ?case by simp
next
  case (step n)
  have "int_discount d (Suc n) f \<le> int_discount d n f"
    using assms discount_step_le by (simp add: int_discount_mono)
  with step show ?case by linarith
qed

lemma uint_discount_loop:
  assumes "d \<le> 10000" "uint f \<le> 10000"
  shows "uint (discount_loop n d f) = int_discount (uint d) n (uint f)"
  using assms(2)
proof (induction n arbitrary: f)
  case 0
  then show ?case by simp
next
  case (Suc n)
  have d: "uint d \<le> 10000" using assms(1) by (simp add: word_le_def)
  have prod: "uint f * uint d \<le> 10000 * 10000"
    using Suc.prems d by (intro mult_mono) simp_all
  have "take_bit 64 (uint d) = uint d"
    using d by (intro take_bit_int_eq_self) simp_all
  then have "uint (f * ucast d) = uint f * uint d"
    using prod by (simp add: uint_word_ariths unsigned_ucast_eq)
  then have step: "uint (f * ucast d div 10000) = uint f * uint d div 10000"
    by (simp add: uint_div)
  moreover have "uint f * uint d div 10000 \<le> 10000"
    using d Suc.prems discount_step_le [of "uint d" "uint f"] by simp
  ultimately show ?case using Suc.IH by simp
qed

lemma uint_discount_factor:
  "d \<le> 10000 \<Longrightarrow> uint (discount_factor rank d) = int_discount (uint d) (unat (min rank 30)) 10000"
  by (simp add: discount_factor_def MAX_DISCOUNT_DEPTH_def uint_discount_loop)

lemma discount_factor_range:
  assumes "d \<le> 10000"
  shows "uint (discount_factor rank d) \<le> 10000"
  using assms int_discount_le [of "uint d" 10000 "unat (min rank 30)"]
  by (simp add: uint_discount_factor word_le_def)

lemma discount_factor_0 [simp]: "discount_factor 0 d = 10000"
  by (simp add: discount_factor_def MAX_DISCOUNT_DEPTH_def)

section \<open>Properties\<close>

text \<open>
  Converting each canonical percentage to log-odds and back gives the percentage again, and 99
  is the one that does not come back: it is read as 95.
\<close>

theorem percent_roundtrip:
  "map (to_percent \<circ> from_percent) [0, 5, 10, 20, 30, 40, 50, 60, 70, 80, 90, 95, 100]
     = [0, 5, 10, 20, 30, 40, 50, 60, 70, 80, 90, 95, 100]
   \<and> to_percent (from_percent 99) = 95"
  by (simp add: from_percent_def to_percent_def)

text \<open>Reading a confidence as a percentage is monotone over the whole range of \<open>i32\<close>, and the
  result is a percentage.\<close>

theorem to_percent_mono: "x \<le> y \<Longrightarrow> to_percent x \<le> to_percent y \<and> to_percent y \<le> 100"
  unfolding less_eq_LogOdds_def to_percent_def Let_def by auto

theorem to_percent_mono_witness:
  "lo_new 404 \<le> lo_new 2197 \<and> to_percent (lo_new 404) = 50 \<and> to_percent (lo_new 404) \<le> to_percent (lo_new 2197)"
proof -
  have le: "lo_new 404 \<le> lo_new 2197"
    by (simp add: less_eq_LogOdds_def i32_min_def i32_max_def)
  with to_percent_mono [OF le] show ?thesis
    by (simp add: to_percent_def i32_min_def i32_max_def)
qed

text \<open>
  Aggregating a first batch and folding its aggregate into the rest gives the aggregate of all
  the evidence, as long as the sum of the first batch stays in the safe range: there the clamp of
  the intermediate result loses nothing.
\<close>

theorem aggregate_associative:
  assumes "length (xs @ ys) < 4294967295"
    and "SAFE_MIN \<le> (\<Sum>x\<leftarrow>xs. lo_val x)" "(\<Sum>x\<leftarrow>xs. lo_val x) \<le> SAFE_MAX"
  shows "aggregate (aggregate xs # ys) = aggregate (xs @ ys)"
  using assms by (simp add: aggregate_exact)

theorem aggregate_associative_witness:
  "aggregate (aggregate [lo_new 2197, lo_new 405] # [lo_new (- 847)])
     = aggregate ([lo_new 2197, lo_new 405] @ [lo_new (- 847)])"
  by (rule aggregate_associative) (simp_all add: safe_bounds i32_min_def i32_max_def)

text \<open>
  Outside the safe range aggregation is not associative: two maximal pieces of evidence and one
  minimal piece aggregate to the maximum at once, and to total uncertainty when the first two are
  aggregated first.
\<close>

theorem aggregate_not_associative:
  "lo_val (aggregate [lo_new SAFE_MAX, lo_new SAFE_MAX, lo_new SAFE_MIN]) = SAFE_MAX
   \<and> lo_val (aggregate [aggregate [lo_new SAFE_MAX, lo_new SAFE_MAX], lo_new SAFE_MIN]) = 0"
  by (simp add: aggregate_def clampi_def sat64_def safe_bounds i32_min_def i32_max_def
      i64_min_def i64_max_def)

lemma weight_evidence_val:
  "lo_val (weight_evidence r e) = clampi i32_min i32_max ((lo_val e * uint (bps r)) sdiv 10000)"
  by (simp add: weight_evidence_def clampi_def i32_min_def i32_max_def)

lemma weight_evidence_zero [simp]: "bps r = 0 \<Longrightarrow> weight_evidence r e = NEUTRAL"
  by (simp add: weight_evidence_def NEUTRAL_def clampi_def i32_min_def i32_max_def)

lemma abs_weight_evidence_le:
  assumes "valid_rep r"
  shows "\<bar>lo_val (weight_evidence r e)\<bar> \<le> \<bar>lo_val e\<bar>"
proof -
  have "\<bar>lo_val e * uint (bps r)\<bar> \<le> \<bar>lo_val e\<bar> * 10000"
    using uint_bps_le [OF assms] by (simp add: abs_mult mult_left_mono)
  then have "\<bar>(lo_val e * uint (bps r)) sdiv 10000\<bar> \<le> \<bar>lo_val e\<bar>"
    unfolding abs_sdiv [OF zero_less_numeral]
    using zdiv_mono1 [of "\<bar>lo_val e * uint (bps r)\<bar>" "\<bar>lo_val e\<bar> * 10000" 10000] by simp
  then show ?thesis
    by (auto simp: weight_evidence_val clampi_def i32_min_def i32_max_def)
qed

lemma weight_evidence_sign:
  "0 \<le> lo_val e \<Longrightarrow> 0 \<le> lo_val (weight_evidence r e)"
  "lo_val e \<le> 0 \<Longrightarrow> lo_val (weight_evidence r e) \<le> 0"
  unfolding weight_evidence_val
  by (simp_all add: clampi_sign sdiv_sign mult_nonpos_nonneg i32_min_def i32_max_def)

text \<open>
  Reputation gates confidence. Weighting never makes evidence stronger, never flips its sign,
  and a reputation of zero makes it neutral.
\<close>

theorem reputation_gates_evidence:
  assumes "valid_rep r"
  shows "\<bar>lo_val (weight_evidence r e)\<bar> \<le> \<bar>lo_val e\<bar>
    \<and> 0 \<le> lo_val (weight_evidence r e) * lo_val e
    \<and> (weight_evidence rep_ZERO e = NEUTRAL)"
proof (intro conjI)
  show "\<bar>lo_val (weight_evidence r e)\<bar> \<le> \<bar>lo_val e\<bar>"
    using assms by (rule abs_weight_evidence_le)
  show "0 \<le> lo_val (weight_evidence r e) * lo_val e"
    using weight_evidence_sign [of e r] by (cases "0 \<le> lo_val e") (simp_all add: zero_le_mult_iff)
  show "weight_evidence rep_ZERO e = NEUTRAL"
    by (simp add: rep_ZERO_def)
qed

theorem reputation_gates_evidence_witness:
  "valid_rep (from_bps 2500) \<and> lo_val (weight_evidence (from_bps 2500) (lo_new (- 2197))) = - 549
   \<and> \<bar>lo_val (weight_evidence (from_bps 2500) (lo_new (- 2197)))\<bar> \<le> \<bar>lo_val (lo_new (- 2197))\<bar>"
proof -
  have v: "valid_rep (from_bps 2500)" by simp
  with reputation_gates_evidence [OF v, of "lo_new (- 2197)"] show ?thesis
    by (simp add: weight_evidence_val from_bps_def min_def signed_divide_int_def clampi_def
        i32_min_def i32_max_def)
qed

end
