(* ===== verification/Aggregation.thy ===== *)
theory Aggregation
  imports Log_Odds
begin

text \<open>
  Correlation-aware aggregation of evidence (\<open>aimp_node/src/epistemic.rs\<close>, lines 181-339 and
  500-561): the one-level \<open>aggregate_correlated\<close> and the two-level \<open>aggregate_hierarchical\<close>. Both
  collect the evidence in a \<open>BTreeMap\<close> keyed by the correlation group, rank each group by strength
  and discount it geometrically. The locale \<open>evidence_aggregation\<close> is the interface the rest of
  the program relies on: the result does not depend on the order of the evidence and stays in the
  safe range.
\<close>

section \<open>Definitions\<close>

datatype CorrelationCell = CorrelationCell u64

primrec cell_key :: "CorrelationCell \<Rightarrow> u64" where
  "cell_key (CorrelationCell c) = c"

record CorrelationGroup =
  cg_key :: u64
  cg_assessed :: bool

type_synonym member = "LogOdds \<times> hash32"
type_synonym evidence = "LogOdds \<times> CorrelationGroup \<times> hash32"

text \<open>\<open>i32::abs\<close> and \<open>i64::abs\<close> in the release profile.\<close>

definition abs32 :: "int \<Rightarrow> int" where "abs32 k = wrap32 \<bar>k\<bar>"
definition abs64 :: "int \<Rightarrow> int" where "abs64 k = wrap64 \<bar>k\<bar>"

text \<open>The sort key of \<open>sort_by(|lo| descending, id ascending)\<close>.\<close>

definition rank_key :: "member \<Rightarrow> int \<times> hash32" where
  "rank_key m = (- abs32 (lo_val (fst m)), snd m)"

text \<open>\<open>discount_factor(rank as u32, d) as i64\<close>.\<close>

definition factor64 :: "nat \<Rightarrow> u16 \<Rightarrow> int" where
  "factor64 rank d = sint (discount_factor (of_nat rank) d)"

text \<open>The loop over a ranked group: each member's log-odds times its factor, saturating.\<close>

primrec discounted_sum :: "u16 \<Rightarrow> nat \<Rightarrow> int \<Rightarrow> member list \<Rightarrow> int" where
  "discounted_sum d rank tot [] = tot"
| "discounted_sum d rank tot (m # ms) =
     discounted_sum d (Suc rank)
       (sat64 (tot + wrap64 (lo_val (fst m) * factor64 rank d) sdiv 10000)) ms"

definition cell_groups ::
  "(LogOdds \<times> CorrelationCell option \<times> hash32) list \<Rightarrow> (u64 option \<times> member list) list" where
  "cell_groups evidence =
     bt_fold (\<lambda>(lo, cell, i). map_option cell_key cell) (\<lambda>_. [])
       (\<lambda>(lo, cell, i) vs. vs @ [(lo, i)]) evidence"

definition cell_step :: "u16 \<Rightarrow> int \<Rightarrow> u64 option \<times> member list \<Rightarrow> int" where
  "cell_step d tot g =
     (case g of (key, grp) \<Rightarrow>
       (case key of
          None \<Rightarrow> sat_sum tot (map (lo_val \<circ> fst) grp)
        | Some _ \<Rightarrow> discounted_sum d 0 tot (sort_key rank_key grp)))"

definition aggregate_correlated ::
  "(LogOdds \<times> CorrelationCell option \<times> hash32) list \<Rightarrow> u16 \<Rightarrow> LogOdds" where
  "aggregate_correlated evidence d =
     (if evidence = [] then NEUTRAL
      else safe_clamp (foldl (cell_step d) 0 (cell_groups evidence)))"

text \<open>The accumulator of level 1: members, whether all are assessable, smallest id.\<close>

type_synonym GroupAccumulator = "member list \<times> bool \<times> hash32"

definition group_init :: "evidence \<Rightarrow> GroupAccumulator" where
  "group_init e = (case e of (lo, grp, i) \<Rightarrow> ([], cg_assessed grp, i))"

definition group_add :: "evidence \<Rightarrow> GroupAccumulator \<Rightarrow> GroupAccumulator" where
  "group_add e acc =
     (case e of (lo, grp, i) \<Rightarrow>
      case acc of (members, assessed, anchor) \<Rightarrow>
        (members @ [(lo, i)], assessed \<and> cg_assessed grp, if i < anchor then i else anchor))"

definition evidence_key :: "evidence \<Rightarrow> u64" where
  "evidence_key e = cg_key (fst (snd e))"

definition level1_groups :: "evidence list \<Rightarrow> (u64 \<times> GroupAccumulator) list" where
  "level1_groups evidence = bt_fold evidence_key group_init group_add evidence"

definition level1_step ::
  "u16 \<Rightarrow> int \<times> (int \<times> hash32) list \<Rightarrow> u64 \<times> GroupAccumulator \<Rightarrow> int \<times> (int \<times> hash32) list" where
  "level1_step d st g =
     (case st of (assessed_total, unassessed) \<Rightarrow>
      case g of (_, members, assessed, anchor) \<Rightarrow>
        let group_total = discounted_sum d 0 0 (sort_key rank_key members)
        in if assessed then (sat64 (assessed_total + group_total), unassessed)
           else (assessed_total, unassessed @ [(group_total, anchor)]))"

primrec level2_sum :: "u16 \<Rightarrow> nat \<Rightarrow> int \<Rightarrow> (int \<times> hash32) list \<Rightarrow> int" where
  "level2_sum d rank tot [] = tot"
| "level2_sum d rank tot (g # gs) =
     (if (of_nat rank :: u32) \<ge> MAX_DISCOUNT_DEPTH then tot
      else level2_sum d (Suc rank)
             (sat64 (tot + wrap64 (fst g * factor64 rank d) sdiv 10000)) gs)"

definition group_rank_key :: "int \<times> hash32 \<Rightarrow> int \<times> hash32" where
  "group_rank_key g = (- abs64 (fst g), snd g)"

definition aggregate_hierarchical :: "evidence list \<Rightarrow> u16 \<Rightarrow> u16 \<Rightarrow> LogOdds" where
  "aggregate_hierarchical evidence d unassessed_d =
     (if evidence = [] then NEUTRAL
      else let (assessed_total, unassessed) = foldl (level1_step d) (0, []) (level1_groups evidence);
               ranked = sort_key group_rank_key unassessed
           in safe_clamp (level2_sum unassessed_d 0 assessed_total ranked))"

section \<open>Order independence\<close>

lemma discounted_sum_map:
  "map (lo_val \<circ> fst) ms = map (lo_val \<circ> fst) ms' \<Longrightarrow>
   discounted_sum d rank tot ms = discounted_sum d rank tot ms'"
proof (induction ms arbitrary: ms' rank tot)
  case (Cons m ms)
  then obtain m' ns where "ms' = m' # ns" by (cases ms') auto
  with Cons show ?case by auto
qed simp

text \<open>Two members with the same rank carry the same log-odds.\<close>

definition ranks_determined :: "member list \<Rightarrow> bool" where
  "ranks_determined ms \<longleftrightarrow>
     (\<forall>m\<in>set ms. \<forall>m'\<in>set ms. rank_key m = rank_key m' \<longrightarrow> fst m = fst m')"

lemma discounted_sum_perm [order_free]:
  assumes "mset ms = mset ms'" "ranks_determined ms"
  shows "discounted_sum d rank tot (sort_key rank_key ms)
       = discounted_sum d rank tot (sort_key rank_key ms')"
proof (intro discounted_sum_map map_sort_key_perm assms(1))
  fix m m'
  assume "m \<in> set ms" "m' \<in> set ms" "rank_key m = rank_key m'"
  with assms(2) have "fst m = fst m'" unfolding ranks_determined_def by blast
  then show "(lo_val \<circ> fst) m = (lo_val \<circ> fst) m'" by simp
qed

text \<open>The level-1 accumulator in closed form.\<close>

lemma group_fold_members:
  "ys \<noteq> [] \<Longrightarrow> group_fold group_init group_add ys =
     (map (\<lambda>(lo, g, i). (lo, i)) ys, \<forall>(lo, g, i)\<in>set ys. cg_assessed g,
      Min ((\<lambda>(lo, g, i). i) ` set ys))"
proof (induction ys rule: rev_induct)
  case Nil
  then show ?case by simp
next
  case (snoc y ys)
  obtain lo g i where y: "y = (lo, g, i)" by (cases y) auto
  show ?case
  proof (cases "ys = []")
    case True
    then show ?thesis by (simp add: y group_fold_def group_init_def group_add_def)
  next
    case False
    let ?ids = "(\<lambda>(lo, g, i). i) ` set ys"
    have "Min (insert i ?ids) = min i (Min ?ids)"
      using False by (simp add: Min_insert)
    also have "\<dots> = (if i < Min ?ids then i else Min ?ids)"
      by (simp add: min_def not_less order_antisym)
    finally have "(\<lambda>(lo, g, i). i) ` set (ys @ [y]) = insert i ?ids
      \<and> Min (insert i ?ids) = (if i < Min ?ids then i else Min ?ids)"
      by (simp add: y)
    with snoc.IH [OF False] show ?thesis
      by (simp only: group_fold_snoc False if_False) (auto simp: y group_add_def)
  qed
qed

definition group_members :: "evidence list \<Rightarrow> u64 \<Rightarrow> member list" where
  "group_members evidence k =
     map (\<lambda>(lo, g, i). (lo, i)) (filter (\<lambda>e. evidence_key e = k) evidence)"

definition group_assessed :: "evidence list \<Rightarrow> u64 \<Rightarrow> bool" where
  "group_assessed evidence k \<longleftrightarrow>
     (\<forall>(lo, g, i)\<in>set evidence. cg_key g = k \<longrightarrow> cg_assessed g)"

definition group_anchor :: "evidence list \<Rightarrow> u64 \<Rightarrow> hash32" where
  "group_anchor evidence k = Min {i | lo g i. (lo, g, i) \<in> set evidence \<and> cg_key g = k}"

definition group_keys :: "evidence list \<Rightarrow> u64 list" where
  "group_keys evidence = sorted_list_of_set (evidence_key ` set evidence)"

definition group_total :: "u16 \<Rightarrow> evidence list \<Rightarrow> u64 \<Rightarrow> int" where
  "group_total d evidence k = discounted_sum d 0 0 (sort_key rank_key (group_members evidence k))"

lemma level1_groups_eq:
  "level1_groups evidence =
     map (\<lambda>k. (k, group_members evidence k, group_assessed evidence k, group_anchor evidence k))
       (group_keys evidence)"
proof -
  have "group_fold group_init group_add (filter (\<lambda>e. evidence_key e = k) evidence) =
      (group_members evidence k, group_assessed evidence k, group_anchor evidence k)"
    if "k \<in> evidence_key ` set evidence" for k
  proof -
    let ?ys = "filter (\<lambda>e. evidence_key e = k) evidence"
    have ne: "?ys \<noteq> []" using that by (auto simp: filter_empty_conv)
    have "(\<lambda>(lo, g, i). i) ` set ?ys = {i | lo g i. (lo, g, i) \<in> set evidence \<and> cg_key g = k}"
      by (force simp: evidence_key_def)
    moreover have "(\<forall>(lo, g, i)\<in>set ?ys. cg_assessed g) = group_assessed evidence k"
      by (auto simp: group_assessed_def evidence_key_def)
    ultimately show ?thesis
      using group_fold_members [OF ne] by (simp add: group_members_def group_anchor_def)
  qed
  then show ?thesis
    unfolding level1_groups_def bt_fold_eq group_keys_def by (intro map_cong) auto
qed

lemma level1_fold:
  "foldl (level1_step d) (t, us)
     (map (\<lambda>k. (k, ms k, as k, an k)) ks) =
   (sat_sum t [discounted_sum d 0 0 (sort_key rank_key (ms k)). k \<leftarrow> ks, as k],
    us @ [(discounted_sum d 0 0 (sort_key rank_key (ms k)), an k). k \<leftarrow> ks, \<not> as k])"
  by (induction ks arbitrary: t us) (simp_all add: level1_step_def Let_def)

text \<open>The two-level aggregate, without its intermediate maps and loops.\<close>

definition assessed_sum :: "u16 \<Rightarrow> evidence list \<Rightarrow> int" where
  "assessed_sum d evidence =
     sat_sum 0 [group_total d evidence k. k \<leftarrow> group_keys evidence, group_assessed evidence k]"

definition unassessed_groups :: "u16 \<Rightarrow> evidence list \<Rightarrow> (int \<times> hash32) list" where
  "unassessed_groups d evidence =
     [(group_total d evidence k, group_anchor evidence k).
        k \<leftarrow> group_keys evidence, \<not> group_assessed evidence k]"

lemma aggregate_hierarchical_eq:
  "evidence \<noteq> [] \<Longrightarrow> aggregate_hierarchical evidence d ud =
     safe_clamp (level2_sum ud 0 (assessed_sum d evidence)
       (sort_key group_rank_key (unassessed_groups d evidence)))"
  unfolding aggregate_hierarchical_def level1_groups_eq level1_fold assessed_sum_def
    unassessed_groups_def group_total_def by simp

text \<open>Evidence of one group with the same strength and the same id carries the same log-odds.\<close>

definition evidence_determined :: "evidence list \<Rightarrow> bool" where
  "evidence_determined evidence \<longleftrightarrow>
     (\<forall>(lo, g, i)\<in>set evidence. \<forall>(lo', g', i')\<in>set evidence.
        cg_key g = cg_key g' \<and> rank_key (lo, i) = rank_key (lo', i') \<longrightarrow> lo = lo')"

lemma evidence_determined_group:
  "evidence_determined evidence \<Longrightarrow> ranks_determined (group_members evidence k)"
  by (fastforce simp: evidence_determined_def ranks_determined_def group_members_def evidence_key_def)

lemma evidence_determined_ids:
  assumes "distinct (map (snd \<circ> snd) evidence)"
  shows "evidence_determined evidence"
proof -
  have "lo = lo'" if "(lo, g, i) \<in> set evidence" "(lo', g', i) \<in> set evidence" for lo lo' g g' i
    using assms that inj_onD [of "snd \<circ> snd" "set evidence" "(lo, g, i)" "(lo', g', i)"]
    by (simp add: distinct_map)
  then show ?thesis by (auto simp: evidence_determined_def rank_key_def)
qed

lemma abs32_nonneg: "0 \<le> lo_val x \<Longrightarrow> abs32 (lo_val x) = lo_val x"
  unfolding abs32_def by (subst wrap32_id) (simp_all add: i32_min_def)

lemma evidence_determined_nonneg:
  "\<forall>(lo, g, i)\<in>set evidence. 0 \<le> lo_val lo \<Longrightarrow> evidence_determined evidence"
  unfolding evidence_determined_def rank_key_def case_prod_unfold
  by (metis abs32_nonneg lo_val_inject fst_conv neg_equal_iff_equal)

lemma group_total_perm [order_free]:
  assumes "mset ev = mset ev'" "evidence_determined ev"
  shows "group_total d ev = group_total d ev'"
proof
  fix k
  have "mset (group_members ev k) = mset (group_members ev' k)"
    using assms(1) unfolding group_members_def by (intro mset_map_cong mset_filter_cong)
  then show "group_total d ev k = group_total d ev' k"
    unfolding group_total_def using assms(2)
    by (intro discounted_sum_perm evidence_determined_group)
qed

lemma aggregate_hierarchical_perm [order_free]:
  assumes "mset ev = mset ev'" "evidence_determined ev"
  shows "aggregate_hierarchical ev d ud = aggregate_hierarchical ev' d ud"
proof (cases "ev = []")
  case True
  with assms show ?thesis by simp
next
  case False
  then have ne: "ev' \<noteq> []" using assms(1) by auto
  have sets: "set ev = set ev'" using assms(1) mset_eq_setD by blast
  then have "group_keys ev = group_keys ev'" "group_assessed ev = group_assessed ev'"
    "group_anchor ev = group_anchor ev'"
    by (auto simp: group_keys_def group_assessed_def group_anchor_def)
  with group_total_perm [OF assms, of d]
  have "assessed_sum d ev = assessed_sum d ev'" "unassessed_groups d ev = unassessed_groups d ev'"
    by (simp_all only: assessed_sum_def unassessed_groups_def \<open>group_keys ev = group_keys ev'\<close>
        \<open>group_assessed ev = group_assessed ev'\<close> \<open>group_anchor ev = group_anchor ev'\<close>)
  with False ne show ?thesis by (simp add: aggregate_hierarchical_eq)
qed

lemma cell_groups_eq:
  "cell_groups ev =
     map (\<lambda>k. (k, map (\<lambda>(lo, c, i). (lo, i)) (filter (\<lambda>(lo, c, i). map_option cell_key c = k) ev)))
       (sorted_list_of_set ((\<lambda>(lo, c, i). map_option cell_key c) ` set ev))"
proof -
  have "foldl (\<lambda>v e. (\<lambda>(lo, c, i) vs. vs @ [(lo, i)]) e v) acc ys =
      acc @ map (\<lambda>(lo, c, i). (lo, i)) ys" for acc :: "member list" and ys :: "(LogOdds \<times> CorrelationCell option \<times> hash32) list"
    by (induction ys arbitrary: acc) (auto simp: case_prod_unfold)
  then show ?thesis
    unfolding cell_groups_def bt_fold_eq group_fold_def
    by (simp add: case_prod_unfold)
qed

definition cells_determined :: "(LogOdds \<times> CorrelationCell option \<times> hash32) list \<Rightarrow> bool" where
  "cells_determined ev \<longleftrightarrow> length ev \<le> 4294967295 \<and>
     (\<forall>(lo, c, i)\<in>set ev. \<forall>(lo', c', i')\<in>set ev.
        c = c' \<and> rank_key (lo, i) = rank_key (lo', i') \<longrightarrow> lo = lo')"

lemma sat_sum_perm [order_free]:
  assumes "mset xs = mset ys" "length xs \<le> 4294967295"
  shows "sat_sum 0 (map lo_val xs) = sat_sum 0 (map lo_val ys)"
  using assms mset_eq_length [OF assms(1)] sum_list_perm [OF assms(1), of lo_val]
    sum_abs_lo_val_le [of xs] sum_abs_lo_val_le [of ys]
  by (simp add: sat_sum_exact)

lemma foldl_cong_start:
  assumes "\<And>t k. k \<in> set ks \<Longrightarrow> k \<noteq> k0 \<Longrightarrow> f t k = g t k" "f t0 k0 = g t0 k0"
    "sorted_wrt (<) ks" "\<And>k. k0 \<le> (k :: 'a :: linorder)"
  shows "foldl f t0 ks = foldl g t0 ks"
proof (cases ks)
  case (Cons k ks')
  have "k0 \<notin> set ks'" using assms(3) assms(4) [of k] by (auto simp: Cons)
  then have "foldl f t ks' = foldl g t ks'" for t
    using assms(1) by (intro foldl_cong) (auto simp: Cons)
  then show ?thesis using assms(1,2) by (cases "k = k0") (simp_all add: Cons)
qed simp

lemma aggregate_correlated_perm [order_free]:
  assumes perm: "mset ev = mset ev'" and det: "cells_determined ev"
  shows "aggregate_correlated ev d = aggregate_correlated ev' d"
proof -
  have sets: "set ev = set ev'" using perm mset_eq_setD by blast
  let ?key = "\<lambda>(lo, c, i). map_option cell_key c"
  let ?grp = "\<lambda>ev k. map (\<lambda>(lo, c, i). (lo, i)) (filter (\<lambda>e. ?key e = k) ev)"
  let ?ks = "sorted_list_of_set (?key ` set ev)"
  have grp: "mset (?grp ev k) = mset (?grp ev' k)" for k
    using perm by (intro mset_map_cong mset_filter_cong)
  have "foldl (\<lambda>t k. cell_step d t (k, ?grp ev k)) 0 ?ks =
    foldl (\<lambda>t k. cell_step d t (k, ?grp ev' k)) 0 ?ks"
  proof (rule foldl_cong_start [of _ None])
    fix t and k :: "u64 option"
    assume "k \<noteq> None"
    then obtain c where c: "k = Some c" by blast
    have "lo = lo'" if "(lo, a, i) \<in> set ev" "(lo', a', i') \<in> set ev" "rank_key (lo, i) = rank_key (lo', i')"
      "map_option cell_key a = k" "map_option cell_key a' = k" for lo a i lo' a' i'
    proof -
      have "a = a'"
        using that(4,5) by (auto simp: c) (metis CorrelationCell.exhaust cell_key.simps)
      with det that(1-3) show ?thesis unfolding cells_determined_def by blast
    qed
    then have "ranks_determined (?grp ev k)"
      unfolding ranks_determined_def by auto
    then show "cell_step d t (k, ?grp ev k) = cell_step d t (k, ?grp ev' k)"
      unfolding c cell_step_def using grp [of k] by (simp add: c discounted_sum_perm)
  next
    have "length ev \<le> 4294967295" using det by (simp add: cells_determined_def)
    then have "length (map fst (?grp ev None)) \<le> 4294967295"
      unfolding length_map by (rule order_trans [OF length_filter_le])
    then have "sat_sum 0 (map lo_val (map fst (?grp ev None))) =
        sat_sum 0 (map lo_val (map fst (?grp ev' None)))"
      by (intro sat_sum_perm mset_map_cong grp)
    then show "cell_step d 0 (None, ?grp ev None) = cell_step d 0 (None, ?grp ev' None)"
      by (simp add: cell_step_def comp_assoc)
  qed simp_all
  moreover have "(ev = []) = (ev' = [])" using perm by auto
  ultimately show ?thesis
    unfolding aggregate_correlated_def cell_groups_eq
    by (simp add: foldl_map sets case_prod_unfold)
qed

section \<open>Bounds\<close>

lemma sint_small_u64: "uint (w :: u64) \<le> 10000 \<Longrightarrow> sint w = uint w"
  by (simp add: sint_uint) (rule signed_take_bit_int_eq_self, simp_all add: order_trans [OF _ uint_ge_0])

lemma factor64_eq:
  assumes "d \<le> 10000" "rank < 4294967296"
  shows "factor64 rank d = int_discount (uint d) (min rank 30) 10000"
proof -
  have "unat (of_nat rank :: u32) = rank"
    using assms(2) by (simp add: unat_of_nat)
  then have "unat (min (of_nat rank :: u32) 30) = min rank 30"
    by (simp add: min_def word_le_nat_alt)
  then have u: "uint (discount_factor (of_nat rank) d) = int_discount (uint d) (min rank 30) 10000"
    using assms(1) by (simp add: uint_discount_factor)
  moreover have "int_discount (uint d) (min rank 30) 10000 \<le> 10000"
    using assms(1) by (intro int_discount_le) (simp_all add: word_le_def)
  ultimately show ?thesis
    unfolding factor64_def by (simp only: sint_small_u64)
qed

lemma factor64_range:
  assumes "d \<le> 10000"
  shows "0 \<le> factor64 rank d" "factor64 rank d \<le> 10000"
proof -
  have "uint (discount_factor (of_nat rank) d) \<le> 10000" using assms by (rule discount_factor_range)
  then have "factor64 rank d = uint (discount_factor (of_nat rank) d)"
    unfolding factor64_def by (rule sint_small_u64)
  with discount_factor_range [OF assms] show "0 \<le> factor64 rank d" "factor64 rank d \<le> 10000"
    by simp_all
qed

text \<open>One discounted contribution: the multiplication does not wrap and rounds towards zero.\<close>

lemma contribution_bound:
  assumes "0 \<le> f" "f \<le> 10000" "\<bar>v\<bar> \<le> M" "M * 10000 \<le> i64_max"
  shows "10000 * \<bar>wrap64 (v * f) sdiv 10000\<bar> \<le> M * f"
    and "wrap64 (v * f) = v * f"
proof -
  have "\<bar>v * f\<bar> \<le> M * f"
    using assms by (simp add: abs_mult mult_right_mono)
  moreover have "M * f \<le> i64_max"
    using assms mult_left_mono [of f 10000 M] by linarith
  ultimately have r: "\<bar>v * f\<bar> \<le> i64_max" by linarith
  then show w: "wrap64 (v * f) = v * f"
    by (intro wrap64_id) (simp add: i64_min_def i64_max_def abs_le_iff)
  have "10000 * (\<bar>v * f\<bar> div 10000) \<le> \<bar>v * f\<bar>" by simp
  with \<open>\<bar>v * f\<bar> \<le> M * f\<close> show "10000 * \<bar>wrap64 (v * f) sdiv 10000\<bar> \<le> M * f"
    unfolding w abs_sdiv [OF zero_less_numeral] by linarith
qed

lemma sum_nat_Suc: "(\<Sum>j\<in>{r..<r + Suc n}. f j) = f r + (\<Sum>j\<in>{Suc r..<Suc r + n}. f j :: int)"
  by (subst sum.atLeast_Suc_lessThan) simp_all

lemma discounted_sum_bound:
  assumes "d \<le> 10000" "\<forall>m\<in>set ms. \<bar>lo_val (fst m)\<bar> \<le> M" "0 \<le> M" "M * 10000 \<le> i64_max"
  shows "10000 * \<bar>discounted_sum d r t ms\<bar>
    \<le> 10000 * \<bar>t\<bar> + M * (\<Sum>j\<in>{r..<r + length ms}. factor64 j d)"
  using assms(2)
proof (induction ms arbitrary: r t)
  case Nil
  then show ?case by simp
next
  case (Cons m ms)
  let ?c = "wrap64 (lo_val (fst m) * factor64 r d) sdiv 10000"
  have c: "10000 * \<bar>?c\<bar> \<le> M * factor64 r d"
    using Cons.prems assms(1,4) factor64_range [OF assms(1)] by (intro contribution_bound(1)) simp_all
  have "10000 * \<bar>discounted_sum d (Suc r) (sat64 (t + ?c)) ms\<bar>
      \<le> 10000 * \<bar>sat64 (t + ?c)\<bar> + M * (\<Sum>j\<in>{Suc r..<Suc r + length ms}. factor64 j d)"
    using Cons.prems by (intro Cons.IH) simp
  also have "\<bar>sat64 (t + ?c)\<bar> \<le> \<bar>t\<bar> + \<bar>?c\<bar>"
    using abs_sat64_le [of "t + ?c"] by linarith
  finally show ?case
    using c unfolding length_Cons sum_nat_Suc by (simp add: distrib_left)
qed

lemma level2_sum_bound:
  assumes "d \<le> 10000" "\<forall>g\<in>set gs. \<bar>fst g\<bar> \<le> M" "0 \<le> M" "M * 10000 \<le> i64_max"
    "r \<le> 30"
  shows "10000 * \<bar>level2_sum d r t gs\<bar> \<le> 10000 * \<bar>t\<bar> + M * (\<Sum>j\<in>{r..<30}. factor64 j d)"
  using assms(2,5)
proof (induction gs arbitrary: r t)
  case Nil
  then show ?case using assms(1,3) by (simp add: sum_nonneg factor64_range)
next
  case (Cons g gs)
  show ?case
  proof (cases "r = 30")
    case True
    then show ?thesis by (simp add: MAX_DISCOUNT_DEPTH_def)
  next
    case False
    then have r: "r < 30" using Cons.prems by simp
    then have br: "\<not> (30 :: u32) \<le> of_nat r" by (simp add: word_le_nat_alt unat_of_nat)
    let ?c = "wrap64 (fst g * factor64 r d) sdiv 10000"
    have c: "10000 * \<bar>?c\<bar> \<le> M * factor64 r d"
      using Cons.prems assms(1,4) factor64_range [OF assms(1)] by (intro contribution_bound(1)) simp_all
    have "10000 * \<bar>level2_sum d (Suc r) (sat64 (t + ?c)) gs\<bar>
        \<le> 10000 * \<bar>sat64 (t + ?c)\<bar> + M * (\<Sum>j\<in>{Suc r..<30}. factor64 j d)"
      using Cons.prems(1) r by (intro Cons.IH) simp_all
    also have "\<bar>sat64 (t + ?c)\<bar> \<le> \<bar>t\<bar> + \<bar>?c\<bar>"
      using abs_sat64_le [of "t + ?c"] by linarith
    finally show ?thesis
      using c r br by (simp add: MAX_DISCOUNT_DEPTH_def sum.atLeast_Suc_lessThan distrib_left)
  qed
qed

text \<open>The first 30 factors of the default and the unassessed discount, and the tails.\<close>

lemma factor_table:
  "(\<Sum>j\<in>{0..<30}. factor64 j UNASSESSED_DISCOUNT_BPS) \<le> 50000"
  "(\<Sum>j\<in>{0..<8}. factor64 j DEFAULT_DISCOUNT_BPS) = 14284"
  "8 \<le> j \<Longrightarrow> j < 4294967296 \<Longrightarrow> factor64 j DEFAULT_DISCOUNT_BPS = 0"
proof -
  have "(\<Sum>j\<in>{0..<30}. factor64 j UNASSESSED_DISCOUNT_BPS)
    = (\<Sum>j\<in>{0..<30}. int_discount 8000 j 10000)"
    by (intro sum.cong) (simp_all add: factor64_eq UNASSESSED_DISCOUNT_BPS_def)
  also have "\<dots> \<le> 50000" by code_simp
  finally show "(\<Sum>j\<in>{0..<30}. factor64 j UNASSESSED_DISCOUNT_BPS) \<le> 50000" .
  have "(\<Sum>j\<in>{0..<8}. factor64 j DEFAULT_DISCOUNT_BPS)
    = (\<Sum>j\<in>{0..<8}. int_discount 3000 j 10000)"
    by (intro sum.cong) (simp_all add: factor64_eq DEFAULT_DISCOUNT_BPS_def)
  also have "\<dots> = 14284" by code_simp
  finally show "(\<Sum>j\<in>{0..<8}. factor64 j DEFAULT_DISCOUNT_BPS) = 14284" .
  have z: "int_discount 3000 8 10000 = 0" by (simp add: eval_nat_numeral)
  assume "8 \<le> j" "j < 4294967296"
  then show "factor64 j DEFAULT_DISCOUNT_BPS = 0"
    using int_discount_antimono [of 3000 10000 8 "min j 30"] int_discount_nonneg [of 3000 10000 "min j 30"]
    by (simp add: factor64_eq DEFAULT_DISCOUNT_BPS_def z)
qed

lemma default_factor_sum:
  assumes "n \<le> 4294967295"
  shows "(\<Sum>j\<in>{0..<n}. factor64 j DEFAULT_DISCOUNT_BPS) \<le> 14284"
proof -
  have "(\<Sum>j\<in>{0..<n}. factor64 j DEFAULT_DISCOUNT_BPS)
      = (\<Sum>j\<in>{0..<n} \<inter> {0..<8}. factor64 j DEFAULT_DISCOUNT_BPS)"
    using assms factor_table(3) by (intro sum.mono_neutral_right) auto
  also have "\<dots> \<le> (\<Sum>j\<in>{0..<8}. factor64 j DEFAULT_DISCOUNT_BPS)"
    by (intro sum_mono2) (simp_all add: factor64_range DEFAULT_DISCOUNT_BPS_def)
  finally show ?thesis by (simp add: factor_table)
qed

subsection \<open>The ceiling of unassessed evidence\<close>

definition assessed_keys :: "evidence list \<Rightarrow> u64 list" where
  "assessed_keys evidence = filter (group_assessed evidence) (group_keys evidence)"

lemma assessed_sum_eq:
  "assessed_sum d evidence = sat_sum 0 (map (group_total d evidence) (assessed_keys evidence))"
proof -
  have "[group_total d evidence k. k \<leftarrow> ks, group_assessed evidence k]
      = map (group_total d evidence) (filter (group_assessed evidence) ks)" for ks
    by (induction ks) simp_all
  then show ?thesis by (simp add: assessed_sum_def assessed_keys_def)
qed

lemma group_members_sub: "m \<in> set (group_members evidence k) \<Longrightarrow> fst m \<in> fst ` set evidence"
  by (force simp: group_members_def)

lemma group_total_bound:
  assumes "\<forall>e\<in>set evidence. \<bar>lo_val (fst e)\<bar> \<le> M" "M \<le> 2147483648"
    "length evidence \<le> 4294967295" "0 \<le> M"
  shows "\<bar>group_total DEFAULT_DISCOUNT_BPS evidence k\<bar> \<le> M * 14284 div 10000"
proof -
  let ?ms = "sort_key rank_key (group_members evidence k)"
  note M0 = assms(4)
  have "length ?ms \<le> 4294967295"
    using assms(3) order_trans [OF length_filter_le [of "\<lambda>e. evidence_key e = k" evidence]]
    by (simp add: group_members_def)
  then have s: "(\<Sum>j\<in>{0..<length ?ms}. factor64 j DEFAULT_DISCOUNT_BPS) \<le> 14284"
    by (rule default_factor_sum)
  have "10000 * \<bar>group_total DEFAULT_DISCOUNT_BPS evidence k\<bar>
      \<le> M * (\<Sum>j\<in>{0..<length ?ms}. factor64 j DEFAULT_DISCOUNT_BPS)"
    using discounted_sum_bound [of DEFAULT_DISCOUNT_BPS ?ms M 0 0] assms(1,2) M0 group_members_sub
    by (force simp: group_total_def DEFAULT_DISCOUNT_BPS_def i64_max_def)
  also have "\<dots> \<le> M * 14284" using s M0 by (rule mult_left_mono)
  finally show ?thesis by linarith
qed

lemma sum_list_abs_le:
  "(\<And>k. k \<in> set ks \<Longrightarrow> \<bar>f k\<bar> \<le> G) \<Longrightarrow> (\<Sum>x\<leftarrow>map f ks. \<bar>x :: int\<bar>) \<le> int (length ks) * G"
  by (induction ks) (auto simp: algebra_simps intro: add_mono)

lemma hierarchical_bound:
  assumes "\<forall>e\<in>set evidence. \<bar>lo_val (fst e)\<bar> \<le> M" "M \<le> 2147483648"
    "length evidence \<le> 4294967295" "0 \<le> M"
  shows "10000 * \<bar>lo_val (aggregate_hierarchical evidence DEFAULT_DISCOUNT_BPS UNASSESSED_DISCOUNT_BPS)\<bar>
    \<le> (M * 14284 div 10000) * (10000 * int (length (assessed_keys evidence)) + 50000)"
proof (cases "evidence = []")
  case True
  then show ?thesis
    using assms(4) by (simp add: aggregate_hierarchical_def assessed_keys_def group_keys_def
        pos_imp_zdiv_nonneg_iff)
next
  case False
  let ?G = "M * 14284 div 10000"
  let ?gs = "sort_key group_rank_key (unassessed_groups DEFAULT_DISCOUNT_BPS evidence)"
  let ?t = "assessed_sum DEFAULT_DISCOUNT_BPS evidence"
  note G = group_total_bound [OF assms]
  have G0: "0 \<le> ?G" using G [of 0] by linarith
  have "?G \<le> 2147483648 * 14284 div 10000" using assms(2) by (intro zdiv_mono1) simp_all
  then have G64: "?G * 10000 \<le> i64_max" by (simp add: i64_max_def)
  have t: "\<bar>?t\<bar> \<le> int (length (assessed_keys evidence)) * ?G"
    using abs_sat_sum_le [of 0 "map (group_total DEFAULT_DISCOUNT_BPS evidence) (assessed_keys evidence)"]
      sum_list_abs_le [of "assessed_keys evidence" "group_total DEFAULT_DISCOUNT_BPS evidence" ?G] G
    by (simp add: assessed_sum_eq)
  have "\<forall>g\<in>set ?gs. \<bar>fst g\<bar> \<le> ?G"
    using G by (auto simp: unassessed_groups_def)
  then have "10000 * \<bar>level2_sum UNASSESSED_DISCOUNT_BPS 0 ?t ?gs\<bar>
      \<le> 10000 * \<bar>?t\<bar> + ?G * (\<Sum>j\<in>{0..<30}. factor64 j UNASSESSED_DISCOUNT_BPS)"
    using G0 G64 by (intro level2_sum_bound) (simp_all add: UNASSESSED_DISCOUNT_BPS_def)
  also have "\<dots> \<le> 10000 * (int (length (assessed_keys evidence)) * ?G) + ?G * 50000"
    using t factor_table(1) G0 by (intro add_mono mult_left_mono) simp_all
  finally have "10000 * \<bar>level2_sum UNASSESSED_DISCOUNT_BPS 0 ?t ?gs\<bar>
      \<le> ?G * (10000 * int (length (assessed_keys evidence)) + 50000)"
    by (simp add: algebra_simps)
  then show ?thesis
    using abs_safe_clamp_le [of "level2_sum UNASSESSED_DISCOUNT_BPS 0 ?t ?gs"]
    unfolding aggregate_hierarchical_eq [OF False] by linarith
qed

subsection \<open>Independent evidence\<close>

lemma discounted_sum_single:
  "discounted_sum d 0 0 [m] = lo_val (fst m)"
proof -
  have "factor64 0 d = 10000" by (simp add: factor64_def)
  moreover have "\<bar>lo_val (fst m) * 10000\<bar> \<le> 21474836480000"
    using abs_lo_val_le [of "fst m"] by (simp add: abs_mult)
  then have "wrap64 (lo_val (fst m) * 10000) = lo_val (fst m) * 10000"
    "sat64 (lo_val (fst m)) = lo_val (fst m)"
    by (auto intro!: wrap64_id sat64_id simp: i64_min_def i64_max_def abs_le_iff)
  moreover have "(lo_val (fst m) * 10000) sdiv 10000 = lo_val (fst m)"
    by (simp add: signed_divide_int_def sgn_if abs_mult)
  ultimately show ?thesis by simp
qed

lemma filter_key_distinct:
  "distinct (map f xs) \<Longrightarrow> x \<in> set xs \<Longrightarrow> filter (\<lambda>y. f y = f x) xs = [x]"
proof (induction xs)
  case (Cons y xs)
  then show ?case by (cases "x = y") (force simp: filter_empty_conv image_iff)+
qed simp

lemma hierarchical_independent:
  assumes dist: "distinct (map evidence_key evidence)"
    and assessed: "\<forall>(lo, g, i)\<in>set evidence. cg_assessed g"
    and len: "length evidence \<le> 4294967295"
  shows "aggregate_hierarchical evidence d ud = aggregate (map fst evidence)"
proof (cases "evidence = []")
  case True
  then show ?thesis by (simp add: aggregate_hierarchical_def aggregate_def NEUTRAL_def clampi_def safe_bounds safe_clamp_def)
next
  case False
  let ?xs = "sort_key evidence_key evidence"
  have keys: "group_keys evidence = map evidence_key ?xs"
    using dist unfolding group_keys_def map_key_sort_key
    by (simp add: sorted_list_of_set_sort_remdups distinct_remdups_id flip: set_map)
  have as: "group_assessed evidence k" for k
    using assessed by (auto simp: group_assessed_def)
  then have all: "filter (group_assessed evidence) ks = ks" for ks by simp
  have tot: "group_total d evidence (evidence_key e) = lo_val (fst e)" if "e \<in> set evidence" for e
    using filter_key_distinct [OF dist that]
    unfolding group_total_def group_members_def
    by (simp add: case_prod_unfold del: discounted_sum.simps)
      (simp only: discounted_sum_single fst_conv)
  have "map (group_total d evidence) (map evidence_key ?xs) = map lo_val (map fst ?xs)"
    using tot by simp
  then have "assessed_sum d evidence = sat_sum 0 (map lo_val (map fst ?xs))"
    by (simp only: assessed_sum_eq assessed_keys_def all keys)
  also have "\<dots> = sat_sum 0 (map lo_val (map fst evidence))"
    using len by (intro sat_sum_perm mset_map_cong) simp_all
  finally show ?thesis
    by (simp add: aggregate_hierarchical_eq [OF False] unassessed_groups_def as aggregate_def comp_def
        map_replicate_const concat_replicate_trivial)
qed

section \<open>The interface of aggregation\<close>

text \<open>
  What the reducers rely on: on admissible evidence the aggregate is a function of the multiset,
  and its result lies in the safe range. A replica may therefore sort its evidence by any key, or
  append what it received in any order.
\<close>

locale evidence_aggregation =
  fixes agg :: "'e list \<Rightarrow> LogOdds" and ok :: "'e list \<Rightarrow> bool"
  assumes perm: "ok xs \<Longrightarrow> mset xs = mset ys \<Longrightarrow> agg xs = agg ys"
    and ok_perm: "ok xs \<Longrightarrow> mset xs = mset ys \<Longrightarrow> ok ys"
    and safe: "SAFE_MIN \<le> lo_val (agg xs) \<and> lo_val (agg xs) \<le> SAFE_MAX"
begin

lemma sorted_by_any_key:
  fixes k1 :: "'e \<Rightarrow> 'k1::linorder" and k2 :: "'e \<Rightarrow> 'k2::linorder"
  shows "ok xs \<Longrightarrow> agg (sort_key k1 xs) = agg (sort_key k2 xs)"
  using perm [of xs "sort_key k1 xs"] perm [of xs "sort_key k2 xs"] by simp

lemma append_commute: "ok (xs @ ys) \<Longrightarrow> agg (xs @ ys) = agg (ys @ xs)"
  by (rule perm) simp_all

lemma replicas_agree:
  assumes "ok xs" "distinct xs" "distinct ys" "set xs = set ys"
  shows "agg xs = agg ys"
  using assms by (intro perm) (simp_all add: set_eq_iff_mset_eq_distinct)

lemma in_i32_result: "in_i32 (lo_val (agg xs))"
  by simp

lemma update_safe: "lo_val (lo_update (agg xs) (agg ys)) = clampi SAFE_MIN SAFE_MAX (lo_val (agg xs) + lo_val (agg ys))"
  by (simp add: lo_update_def)

lemma update_with_neutral: "lo_update (agg xs) NEUTRAL = agg xs"
proof -
  have "lo_val (lo_update (agg xs) NEUTRAL) = lo_val (agg xs)"
    using safe [of xs] by (simp add: lo_update_def)
  then show ?thesis by (simp add: lo_val_inject)
qed

end

lemma aggregate_safe: "SAFE_MIN \<le> lo_val (aggregate xs) \<and> lo_val (aggregate xs) \<le> SAFE_MAX"
  unfolding aggregate_def using safe_clamp_range by (simp del: lo_val_safe_clamp)

interpretation plain_agg: evidence_aggregation aggregate "\<lambda>xs. length xs \<le> 4294967295"
  by unfold_locales (assumption | rule aggregate_perm aggregate_safe | metis mset_eq_length)+

lemma cells_determined_perm:
  assumes "cells_determined xs" "mset xs = mset ys"
  shows "cells_determined ys"
  using assms(1) unfolding cells_determined_def mset_eq_setD [OF assms(2)] mset_eq_length [OF assms(2)] .

lemma evidence_determined_perm:
  assumes "evidence_determined xs" "mset xs = mset ys"
  shows "evidence_determined ys"
  using assms(1) unfolding evidence_determined_def mset_eq_setD [OF assms(2)] .

lemma safe_NEUTRAL: "SAFE_MIN \<le> lo_val NEUTRAL \<and> lo_val NEUTRAL \<le> SAFE_MAX"
  by (simp add: safe_bounds)

lemma aggregate_correlated_safe:
  "SAFE_MIN \<le> lo_val (aggregate_correlated ev d) \<and> lo_val (aggregate_correlated ev d) \<le> SAFE_MAX"
  unfolding aggregate_correlated_def
  using safe_clamp_range safe_NEUTRAL by (simp del: lo_val_safe_clamp)

lemma aggregate_hierarchical_safe:
  "SAFE_MIN \<le> lo_val (aggregate_hierarchical ev d ud)
   \<and> lo_val (aggregate_hierarchical ev d ud) \<le> SAFE_MAX"
  unfolding aggregate_hierarchical_def Let_def case_prod_unfold
  using safe_clamp_range safe_NEUTRAL by (simp del: lo_val_safe_clamp)

interpretation cell_agg: evidence_aggregation "\<lambda>ev. aggregate_correlated ev d" cells_determined for d
  by unfold_locales
    (assumption | rule aggregate_correlated_perm cells_determined_perm aggregate_correlated_safe)+

interpretation group_agg:
  evidence_aggregation "\<lambda>ev. aggregate_hierarchical ev d ud" evidence_determined for d ud
  by unfold_locales
    (assumption | rule aggregate_hierarchical_perm evidence_determined_perm aggregate_hierarchical_safe)+

section \<open>Properties\<close>

text \<open>
  C8: The two-level aggregate of evidence with distinct claim ids is the same for every order in
  which the evidence arrives, and lies in the safe range.
\<close>

theorem hierarchical_order_independent:
  assumes "mset ev = mset ev'" "distinct (map (snd \<circ> snd) ev)"
  shows "aggregate_hierarchical ev d ud = aggregate_hierarchical ev' d ud
    \<and> SAFE_MIN \<le> lo_val (aggregate_hierarchical ev d ud)
    \<and> lo_val (aggregate_hierarchical ev d ud) \<le> SAFE_MAX"
  using assms group_agg.perm group_agg.safe by (simp add: evidence_determined_ids)

theorem hierarchical_order_independent_witness:
  "let a = (lo_new 2197, \<lparr>cg_key = 7, cg_assessed = False\<rparr>, [1]);
       b = (lo_new (- 405), \<lparr>cg_key = 7, cg_assessed = False\<rparr>, [2])
   in aggregate_hierarchical [a, b] 3000 8000 = aggregate_hierarchical [b, a] 3000 8000"
  unfolding Let_def
  by (rule hierarchical_order_independent [THEN conjunct1]) simp_all

text \<open>
  C3: The ceiling of unassessed evidence. However many claims arrive, each of strength at most
  \<open>M\<close>, the confidence they produce is bounded by the number of assessed groups: one group gives at
  most \<open>1.4284 M\<close>, and all the unassessed groups together at most five times that.
\<close>

theorem unassessed_ceiling:
  assumes "\<forall>e\<in>set evidence. \<bar>lo_val (fst e)\<bar> \<le> M" "0 \<le> M" "M \<le> 2147483648"
    and "length evidence \<le> 4294967295"
  shows "10000 * \<bar>lo_val (aggregate_hierarchical evidence DEFAULT_DISCOUNT_BPS UNASSESSED_DISCOUNT_BPS)\<bar>
    \<le> (M * 14284 div 10000) * (10000 * int (length (assessed_keys evidence)) + 50000)"
  using assms(1,3,4,2) by (rule hierarchical_bound)

theorem unassessed_ceiling_witness:
  "let ev = replicate 1000000 (lo_new 2197, \<lparr>cg_key = 0, cg_assessed = False\<rparr>, [0])
   in 10000 * \<bar>lo_val (aggregate_hierarchical ev DEFAULT_DISCOUNT_BPS UNASSESSED_DISCOUNT_BPS)\<bar>
        \<le> 3138 * 50000"
proof -
  let ?ev = "replicate 1000000 (lo_new 2197, \<lparr>cg_key = 0, cg_assessed = False\<rparr>, [0])"
  have "assessed_keys ?ev = []"
    by (auto simp: assessed_keys_def group_keys_def group_assessed_def evidence_key_def)
  then show ?thesis
    using unassessed_ceiling [of ?ev 2197] by (simp add: Let_def)
qed

text \<open>
  Independent, assessed evidence is not discounted: when every claim is the only one of its
  group and assessable, the two-level aggregate is the plain sum of all of it.
\<close>

theorem independent_evidence_sums:
  assumes "distinct (map evidence_key evidence)" "\<forall>(lo, g, i)\<in>set evidence. cg_assessed g"
    and "length evidence \<le> 4294967295"
  shows "aggregate_hierarchical evidence d ud = safe_clamp (\<Sum>(lo, g, i)\<leftarrow>evidence. lo_val lo)"
  using assms by (simp add: hierarchical_independent aggregate_exact case_prod_unfold comp_def)

theorem independent_evidence_sums_witness:
  "lo_val (aggregate_hierarchical
     [(lo_new 2197, \<lparr>cg_key = 1, cg_assessed = True\<rparr>, [1]),
      (lo_new 405, \<lparr>cg_key = 2, cg_assessed = True\<rparr>, [2])] 3000 8000) = 2602"
  by (subst independent_evidence_sums)
    (simp_all add: evidence_key_def clampi_def safe_bounds)

end
