(* ===== verification/Embedding.thy ===== *)
theory Embedding
  imports Prelude
begin

text \<open>
  Quantized embeddings (\<open>aimp_node/src/semantic_topology.rs\<close>, lines 24-60): the 256-bit SimHash as
  four machine words and its Hamming distance. The laws of the locale \<open>bit_metric\<close> are what the
  clustering and the edge generation use of the distance: it is a metric bounded by 256.
\<close>

datatype QuantizedEmbedding = QuantizedEmbedding u64 u64 u64 u64

primrec qe_words :: "QuantizedEmbedding \<Rightarrow> u64 list" where
  "qe_words (QuantizedEmbedding a b c d) = [a, b, c, d]"

definition qe_ZERO :: QuantizedEmbedding where "qe_ZERO = QuantizedEmbedding 0 0 0 0"
definition qe_ONES :: QuantizedEmbedding where "qe_ONES = QuantizedEmbedding (-1) (-1) (-1) (-1)"

text \<open>\<open>u64::count_ones\<close>, and the sum over the zipped words as a \<open>u32\<close>.\<close>

definition count_ones :: "u64 \<Rightarrow> u32" where
  "count_ones w = of_nat (length (filter (bit w) [0..<64]))"

definition hamming_distance :: "QuantizedEmbedding \<Rightarrow> QuantizedEmbedding \<Rightarrow> u32" where
  "hamming_distance x y = sum_list (map (\<lambda>(a, b). count_ones (xor a b)) (zip (qe_words x) (qe_words y)))"

section \<open>The distance as a number of positions\<close>

definition word_distance :: "u64 \<Rightarrow> u64 \<Rightarrow> nat" where
  "word_distance a b = card {n. n < 64 \<and> bit a n \<noteq> bit b n}"

lemma finite_positions [simp]: "finite {n. n < (64::nat) \<and> P n}"
  by simp

lemma word_distance_le: "word_distance a b \<le> 64"
proof -
  have "card {n. n < (64::nat) \<and> bit a n \<noteq> bit b n} \<le> card {n. n < (64::nat)}"
    by (intro card_mono) auto
  then show ?thesis by (simp add: word_distance_def)
qed

lemma count_ones_xor: "count_ones (xor a b) = of_nat (word_distance a b)"
proof -
  have "length (filter (bit (xor a b)) [0..<64]) = card (set (filter (bit (xor a b)) [0..<64]))"
    by (intro distinct_card [symmetric]) simp
  also have "set (filter (bit (xor a b)) [0..<64]) = {n. n < 64 \<and> bit a n \<noteq> bit b n}"
    by (auto simp: bit_xor_iff)
  finally show ?thesis by (simp add: count_ones_def word_distance_def)
qed

lemma word_distance_self [simp]: "word_distance a a = 0"
  by (simp add: word_distance_def)

lemma word_distance_commute: "word_distance a b = word_distance b a"
  unfolding word_distance_def by (intro arg_cong [of _ _ card]) auto

lemma word_distance_0: "word_distance a b = 0 \<longleftrightarrow> a = b"
  by (auto simp: word_distance_def intro!: bit_word_eqI)

lemma word_distance_triangle: "word_distance a c \<le> word_distance a b + word_distance b c"
proof -
  have "card {n. n < 64 \<and> bit a n \<noteq> bit c n}
      \<le> card ({n. n < 64 \<and> bit a n \<noteq> bit b n} \<union> {n. n < 64 \<and> bit b n \<noteq> bit c n})"
    by (intro card_mono) auto
  also have "\<dots> \<le> word_distance a b + word_distance b c"
    unfolding word_distance_def by (rule card_Un_le)
  finally show ?thesis by (simp add: word_distance_def)
qed

primrec bit_distance :: "QuantizedEmbedding \<Rightarrow> QuantizedEmbedding \<Rightarrow> nat" where
  "bit_distance (QuantizedEmbedding a b c d) y =
     (case y of QuantizedEmbedding a' b' c' d' \<Rightarrow>
        word_distance a a' + word_distance b b' + word_distance c c' + word_distance d d')"

lemma bit_distance_le: "bit_distance x y \<le> 256"
proof (cases x; cases y)
  fix a b c d a' b' c' d'
  assume "x = QuantizedEmbedding a b c d" "y = QuantizedEmbedding a' b' c' d'"
  then show ?thesis
    using word_distance_le [of a a'] word_distance_le [of b b'] word_distance_le [of c c']
      word_distance_le [of d d'] by simp
qed

lemma unat_hamming_distance: "unat (hamming_distance x y) = bit_distance x y"
proof -
  have "hamming_distance x y = of_nat (bit_distance x y)"
    by (cases x; cases y) (simp add: hamming_distance_def count_ones_xor)
  then show ?thesis
    using bit_distance_le [of x y] by (simp add: unat_of_nat)
qed

lemma bit_distance_0: "bit_distance x y = 0 \<longleftrightarrow> x = y"
  by (cases x; cases y) (auto simp: word_distance_0)

lemma bit_distance_commute: "bit_distance x y = bit_distance y x"
  by (cases x; cases y) (simp add: word_distance_commute)

lemma bit_distance_triangle: "bit_distance x z \<le> bit_distance x y + bit_distance y z"
proof (cases x; cases y; cases z)
  fix a b c d a' b' c' d' a'' b'' c'' d''
  assume "x = QuantizedEmbedding a b c d" "y = QuantizedEmbedding a' b' c' d'"
    "z = QuantizedEmbedding a'' b'' c'' d''"
  then show ?thesis
    using word_distance_triangle [of a a'' a'] word_distance_triangle [of b b'' b']
      word_distance_triangle [of c c'' c'] word_distance_triangle [of d d'' d'] by simp
qed

section \<open>The metric interface\<close>

locale bit_metric =
  fixes dist :: "'a \<Rightarrow> 'a \<Rightarrow> u32"
  assumes zero: "dist x y = 0 \<longleftrightarrow> x = y"
    and commute: "dist x y = dist y x"
    and triangle: "unat (dist x z) \<le> unat (dist x y) + unat (dist y z)"
    and bounded: "dist x y \<le> 256"
begin

lemma self [simp]: "dist x x = 0"
  by (simp add: zero)

lemma within_refl [simp]: "dist x x \<le> t"
  by simp

lemma within_sym: "dist x y \<le> t \<longleftrightarrow> dist y x \<le> t"
  by (simp add: commute)

lemma chain: "unat (dist x y) \<le> s \<Longrightarrow> unat (dist y z) \<le> t \<Longrightarrow> unat (dist x z) \<le> s + t"
  using triangle [of x z y] by linarith

lemma apart_not_within: "s < t \<Longrightarrow> dist x y \<ge> t \<Longrightarrow> \<not> dist x y \<le> s"
  by simp

end

interpretation ham: bit_metric hamming_distance
proof
  show "hamming_distance x y = 0 \<longleftrightarrow> x = y" for x y
    by (simp add: unat_hamming_distance bit_distance_0 flip: unat_inject)
  show "hamming_distance x y = hamming_distance y x" for x y
    by (simp add: unat_hamming_distance bit_distance_commute flip: unat_inject)
  show "unat (hamming_distance x z) \<le> unat (hamming_distance x y) + unat (hamming_distance y z)" for x y z
    by (simp add: unat_hamming_distance bit_distance_triangle)
  show "hamming_distance x y \<le> 256" for x y
    by (simp add: word_le_nat_alt unat_hamming_distance bit_distance_le)
qed

section \<open>Properties\<close>

text \<open>
  The Hamming distance of embeddings is a metric: zero exactly on equal embeddings, symmetric,
  with the triangle inequality, never above 256, and 256 between complementary embeddings.
\<close>

theorem hamming_metric:
  "(hamming_distance x y = 0 \<longleftrightarrow> x = y)
   \<and> hamming_distance x y = hamming_distance y x
   \<and> unat (hamming_distance x z) \<le> unat (hamming_distance x y) + unat (hamming_distance y z)
   \<and> hamming_distance x y \<le> 256
   \<and> hamming_distance qe_ZERO qe_ONES = 256"
proof (intro conjI)
  have "bit_distance qe_ZERO qe_ONES = 256"
    by (simp add: qe_ZERO_def qe_ONES_def word_distance_def)
  then show "hamming_distance qe_ZERO qe_ONES = 256"
    by (simp add: unat_hamming_distance flip: unat_inject)
qed (rule ham.zero ham.commute ham.triangle ham.bounded)+

end
