(* ===== verification/Claims.thy ===== *)
theory Claims
  imports Aggregation Embedding
begin

text \<open>
  Claims (\<open>aimp_node/src/epistemic.rs\<close>, lines 575-737 and 941-991): the record of a knowledge claim,
  its kinds, the clamped confidence and the context-free correlation cell. BLAKE3 is the parameter
  \<open>B\<close>, a function from byte strings to byte strings; of it the code uses the length of the digest
  (\<open>digest32\<close>) and, where a key identifies its input, that the inputs at hand do not collide
  (\<open>key_free\<close>, on a named finite set, never on all strings).
\<close>

section \<open>Bytes and digests\<close>

definition ascii :: "string \<Rightarrow> bytes" where
  "ascii s = map of_char s"

definition le_bytes64 :: "u64 \<Rightarrow> bytes" where
  "le_bytes64 w = map (\<lambda>i. ucast (drop_bit (8 * i) w)) [0..<8]"

primrec le_u64 :: "bytes \<Rightarrow> u64" where
  "le_u64 [] = 0"
| "le_u64 (b # bs) = or (ucast b) (push_bit 8 (le_u64 bs))"

type_synonym blake3 = "bytes \<Rightarrow> bytes"

definition digest32 :: "blake3 \<Rightarrow> bool" where
  "digest32 B \<longleftrightarrow> (\<forall>x. length (B x) = 32)"

text \<open>The first eight bytes of a digest as a group key.\<close>

definition hash_key :: "blake3 \<Rightarrow> bytes \<Rightarrow> u64" where
  "hash_key B x = le_u64 (take 8 (B x))"

definition key_free :: "blake3 \<Rightarrow> bytes set \<Rightarrow> bool" where
  "key_free B X \<longleftrightarrow> inj_on (hash_key B) X"

lemma key_freeD: "key_free B X \<Longrightarrow> x \<in> X \<Longrightarrow> y \<in> X \<Longrightarrow> hash_key B x = hash_key B y \<longleftrightarrow> x = y"
  by (auto simp: key_free_def inj_on_eq_iff)

lemma key_free_mono: "key_free B Y \<Longrightarrow> X \<subseteq> Y \<Longrightarrow> key_free B X"
  by (auto simp: key_free_def intro: inj_on_subset)

lemma key_free_list: "distinct (map (hash_key B) xs) \<Longrightarrow> key_free B (set xs)"
  by (simp add: key_free_def distinct_map)

lemma bit_le_u64: "n < 64 \<Longrightarrow>
   bit (le_u64 bs) n \<longleftrightarrow> n div 8 < length bs \<and> bit (bs ! (n div 8)) (n mod 8)"
proof (induction bs arbitrary: n)
  case Nil
  then show ?case by simp
next
  case (Cons b bs)
  show ?case
  proof (cases "n < 8")
    case True
    then show ?thesis using Cons.prems by (simp add: bit_or_iff bit_push_bit_iff bit_ucast_iff)
  next
    case False
    then have d: "n div 8 = Suc ((n - 8) div 8)" "n mod 8 = (n - 8) mod 8"
      by (simp_all add: div_if [of n] mod_if [of n])
    have "\<not> bit b n" using False bit_imp_le_length [of b n] by auto
    then show ?thesis using Cons False
      by (simp add: bit_or_iff bit_push_bit_iff bit_ucast_iff d)
  qed
qed

lemma le_bytes64_roundtrip [simp]: "le_u64 (le_bytes64 w) = w"
proof (rule bit_word_eqI)
  fix n assume "n < LENGTH(64)"
  then have n: "n < 64" by simp
  then have "n div 8 < 8" by simp
  then show "bit (le_u64 (le_bytes64 w)) n = bit w n"
    unfolding bit_le_u64 [OF n]
    by (simp add: le_bytes64_def bit_ucast_iff bit_drop_bit_eq)
qed

lemma length_le_bytes64 [simp]: "length (le_bytes64 w) = 8"
  by (simp add: le_bytes64_def)

lemma le_bytes64_inject: "le_bytes64 v = le_bytes64 w \<longleftrightarrow> v = w"
  by (metis le_bytes64_roundtrip)

section \<open>Claims\<close>

type_synonym ClaimArenaId = u32
type_synonym ClaimHash = hash32

record SemanticFingerprint =
  fp_primary :: bytes
  fp_secondary :: u64

datatype ClaimKind =
    Observation (sensor_type: u8) (obs_data: bytes)
  | Inference (model_id: ClaimHash) (input_claims: "ClaimArenaId list") (inference_type: u8)
      (inference_weight: LogOdds) (inference_output: bytes) (reproducible: bool)
      (deterministic_hash: ClaimHash)
  | Intent (intent_action: u8) (intent_target: bytes) (intent_constraints: "(u8 \<times> u16) list")
      (intent_goal: u8) (intent_utility: Utility)
  | Summary (source_count: u32) (tick_start: u64) (tick_end: u64) (summary_data: bytes)
      (aggregated_logodds: LogOdds) (unique_sources: u32) (variance_milli: "64 word")
      (range_min: LogOdds) (range_max: LogOdds)

record Claim =
  claim_id :: ClaimHash
  fingerprint :: SemanticFingerprint
  claim_origin :: bytes
  kind :: ClaimKind
  confidence :: LogOdds
  evidence_source :: ClaimHash
  claim_tick :: u64
  correlation_cell :: "CorrelationCell option"
  embedding :: "QuantizedEmbedding option"
  embedding_version :: u32

definition declared_confidence :: "Claim \<Rightarrow> LogOdds" where
  "declared_confidence c = clamp_declared (confidence c)"

definition origin_bucket :: "blake3 \<Rightarrow> bytes \<Rightarrow> u64" where
  "origin_bucket B orig = hash_key B (ascii ''aimp.correlation.origin.v1'' @ orig)"

definition effective_correlation_cell :: "blake3 \<Rightarrow> Claim \<Rightarrow> u64" where
  "effective_correlation_cell B c =
     (case correlation_cell c of
        Some cell \<Rightarrow> hash_key B (ascii ''aimp.correlation.declared.v1'' @ le_bytes64 (cell_key cell))
      | None \<Rightarrow> origin_bucket B (claim_origin c))"

text \<open>What is hashed for a claim without a usable embedding.\<close>

definition fallback_preimage :: "Claim \<Rightarrow> bytes" where
  "fallback_preimage c =
     (case correlation_cell c of
        Some cell \<Rightarrow> ascii ''aimp.correlation.declared.v1'' @ le_bytes64 (cell_key cell)
      | None \<Rightarrow> ascii ''aimp.correlation.origin.v1'' @ claim_origin c)"

lemma effective_correlation_cell_eq: "effective_correlation_cell B c = hash_key B (fallback_preimage c)"
  by (simp add: effective_correlation_cell_def fallback_preimage_def origin_bucket_def split: option.split)

lemma fallback_preimage_eq:
  "fallback_preimage c = fallback_preimage c' \<longleftrightarrow>
     correlation_cell c = correlation_cell c' \<and>
     (correlation_cell c = None \<longrightarrow> claim_origin c = claim_origin c')"
proof -
  have "ascii ''aimp.correlation.declared.v1'' @ x \<noteq> ascii ''aimp.correlation.origin.v1'' @ y" for x y
    by (simp add: ascii_def)
  moreover have "cell_key a = cell_key b \<longleftrightarrow> a = b" for a b
    by (cases a; cases b) simp
  ultimately show ?thesis
    by (auto simp: fallback_preimage_def le_bytes64_inject split: option.splits
        dest: sym)
qed

section \<open>Properties\<close>

text \<open>
  A declared confidence never counts for more than the declared maximum, and what is in range
  is taken as it is.
\<close>

theorem declared_confidence_bound:
  "\<bar>lo_val (declared_confidence c)\<bar> \<le> MAX_DECLARED
   \<and> (declared_confidence c = confidence c \<longleftrightarrow> \<bar>lo_val (confidence c)\<bar> \<le> MAX_DECLARED)"
proof (intro conjI)
  show "\<bar>lo_val (declared_confidence c)\<bar> \<le> MAX_DECLARED"
    unfolding declared_confidence_def by (rule clamp_declared_bound)
  show "declared_confidence c = confidence c \<longleftrightarrow> \<bar>lo_val (confidence c)\<bar> \<le> MAX_DECLARED"
    unfolding declared_confidence_def lo_val_inject [symmetric] lo_val_clamp_declared
    by (auto simp: clampi_def MIN_DECLARED_def MAX_DECLARED_def)
qed

text \<open>
  Two claims without an embedding fall into one correlation cell exactly when they declare the
  same cell, or declare none and come from one origin: a declared cell can never be made equal to
  an origin bucket, up to collisions of the hash.
\<close>

theorem effective_cell_separates:
  assumes "key_free B (fallback_preimage ` {c, c'})"
  shows "effective_correlation_cell B c = effective_correlation_cell B c' \<longleftrightarrow>
    correlation_cell c = correlation_cell c' \<and>
    (correlation_cell c = None \<longrightarrow> claim_origin c = claim_origin c')"
  using assms by (simp add: effective_correlation_cell_eq fallback_preimage_eq key_freeD [OF assms])

text \<open>A digest that starts with the reversed input: enough to tell short inputs apart.\<close>

definition sample_hash :: blake3 where
  "sample_hash x = take 32 (rev x @ replicate 32 0)"

lemma digest32_sample: "digest32 sample_hash"
  by (auto simp: digest32_def sample_hash_def min_def)

definition sample_claim :: "ClaimHash \<Rightarrow> bytes \<Rightarrow> QuantizedEmbedding option \<Rightarrow> Claim" where
  "sample_claim i orig e =
     \<lparr>claim_id = i, fingerprint = \<lparr>fp_primary = [0], fp_secondary = 0\<rparr>, claim_origin = orig,
      kind = Observation 1 [], confidence = lo_new 2197, evidence_source = i, claim_tick = 1,
      correlation_cell = None, embedding = e, embedding_version = 0\<rparr>"

theorem effective_cell_separates_witness:
  "let c = sample_claim [1] [1] None; c' = c\<lparr>correlation_cell := Some (CorrelationCell 1)\<rparr>
   in key_free sample_hash (fallback_preimage ` {c, c'})
      \<and> effective_correlation_cell sample_hash c \<noteq> effective_correlation_cell sample_hash c'"
proof -
  let ?c = "sample_claim [1] [1] None"
  let ?c' = "?c\<lparr>correlation_cell := Some (CorrelationCell 1)\<rparr>"
  have "hash_key sample_hash (fallback_preimage ?c) \<noteq> hash_key sample_hash (fallback_preimage ?c')"
    by code_simp
  then have "key_free sample_hash (fallback_preimage ` {?c, ?c'})"
    by (auto simp: key_free_def inj_on_def)
  from effective_cell_separates [OF this] this show ?thesis
    unfolding Let_def by (simp add: sample_claim_def)
qed

end
