(* ===== verification/Knowledge_Graph.thy ===== *)
theory Knowledge_Graph
  imports Claims
begin

text \<open>
  The knowledge graph (\<open>aimp_node/src/epistemic.rs\<close>, lines 993-1158): edges with their adjacency
  lists, the hybrid resolution of raw edges, the transitive dependents of a claim and the support
  ratio. The locale \<open>edge_store\<close> is what the traversals rely on: the adjacency lists enumerate
  exactly the outgoing edges. A hash map is a function to an option, a hash set is a set.
\<close>

section \<open>Edges and graphs\<close>

datatype Relation = Supports | Contradicts | DerivedFrom | SharedSource

record EpistemicEdge =
  edge_from :: ClaimArenaId
  edge_to :: ClaimArenaId
  relation :: Relation
  strength :: Reputation

record RawEpistemicEdge =
  from_hash :: ClaimHash
  from_fingerprint :: SemanticFingerprint
  to_hash :: ClaimHash
  to_fingerprint :: SemanticFingerprint
  raw_relation :: Relation
  raw_strength :: Reputation

record KnowledgeGraph =
  kg_edges :: "EpistemicEdge list"
  adjacency :: "ClaimArenaId \<Rightarrow> nat list option"

definition kg_new :: KnowledgeGraph where
  "kg_new = \<lparr>kg_edges = [], adjacency = Map.empty\<rparr>"

definition or_default :: "'a list option \<Rightarrow> 'a list" where
  "or_default x = (case x of Some l \<Rightarrow> l | None \<Rightarrow> [])"

lemma or_default_simps [simp]: "or_default None = []" "or_default (Some l) = l"
  by (simp_all add: or_default_def)

definition add_edge :: "KnowledgeGraph \<Rightarrow> EpistemicEdge \<Rightarrow> KnowledgeGraph" where
  "add_edge g e =
     (let idx = length (kg_edges g)
      in g\<lparr>adjacency := (adjacency g)(edge_from e \<mapsto> or_default (adjacency g (edge_from e)) @ [idx]),
          kg_edges := kg_edges g @ [e]\<rparr>)"

subsection \<open>Building a graph\<close>

definition is_summary :: "ClaimKind \<Rightarrow> bool" where
  "is_summary k = (case k of Summary _ _ _ _ _ _ _ _ _ \<Rightarrow> True | _ \<Rightarrow> False)"

type_synonym resolution_maps =
  "(ClaimHash \<Rightarrow> ClaimArenaId option) \<times> (SemanticFingerprint \<Rightarrow> ClaimArenaId option)"

definition index_step :: "resolution_maps \<Rightarrow> nat \<times> Claim \<Rightarrow> resolution_maps" where
  "index_step maps ic =
     (case maps of (id_map, fingerprint_map) \<Rightarrow> case ic of (i, claim) \<Rightarrow>
        let arena_id = of_nat i;
            id_map = id_map(claim_id claim \<mapsto> arena_id)
        in if is_summary (kind claim)
           then (id_map, fingerprint_map(fingerprint claim \<mapsto> arena_id))
           else (id_map, case fingerprint_map (fingerprint claim) of
                           None \<Rightarrow> fingerprint_map(fingerprint claim \<mapsto> arena_id)
                         | Some _ \<Rightarrow> fingerprint_map))"

definition resolution_index :: "Claim list \<Rightarrow> resolution_maps" where
  "resolution_index claims = foldl index_step (Map.empty, Map.empty) (enumerate 0 claims)"

definition resolve_endpoint :: "resolution_maps \<Rightarrow> ClaimHash \<Rightarrow> SemanticFingerprint \<Rightarrow> ClaimArenaId option" where
  "resolve_endpoint maps h fp =
     (case fst maps h of Some i \<Rightarrow> Some i | None \<Rightarrow> snd maps fp)"

definition resolve_edge :: "resolution_maps \<Rightarrow> RawEpistemicEdge \<Rightarrow> EpistemicEdge option" where
  "resolve_edge maps raw =
     (case (resolve_endpoint maps (from_hash raw) (from_fingerprint raw),
            resolve_endpoint maps (to_hash raw) (to_fingerprint raw)) of
        (Some f, Some t) \<Rightarrow>
          Some \<lparr>edge_from = f, edge_to = t, relation = raw_relation raw, strength = raw_strength raw\<rparr>
      | _ \<Rightarrow> None)"

definition build_step :: "resolution_maps \<Rightarrow> KnowledgeGraph \<Rightarrow> RawEpistemicEdge \<Rightarrow> KnowledgeGraph" where
  "build_step maps g raw = (case resolve_edge maps raw of Some e \<Rightarrow> add_edge g e | None \<Rightarrow> g)"

definition build_from_claims :: "Claim list \<Rightarrow> RawEpistemicEdge list \<Rightarrow> KnowledgeGraph" where
  "build_from_claims claims raw_edges = foldl (build_step (resolution_index claims)) kg_new raw_edges"

subsection \<open>Queries\<close>

definition supportive :: "EpistemicEdge \<Rightarrow> bool" where
  "supportive e \<longleftrightarrow> relation e = Supports \<or> relation e = DerivedFrom"

definition supported_targets :: "KnowledgeGraph \<Rightarrow> ClaimArenaId \<Rightarrow> ClaimArenaId list" where
  "supported_targets g x =
     map edge_to (filter supportive (map ((!) (kg_edges g)) (or_default (adjacency g x))))"

text \<open>The stack of \<open>dependents\<close> is a list with its top first.\<close>

function dependents_loop ::
  "KnowledgeGraph \<Rightarrow> ClaimArenaId set \<Rightarrow> ClaimArenaId list \<Rightarrow> ClaimArenaId list \<Rightarrow> ClaimArenaId list" where
  "dependents_loop g visited stack result =
     (case stack of
        [] \<Rightarrow> result
      | current # stack \<Rightarrow>
          if current \<in> visited then dependents_loop g visited stack result
          else let ts = supported_targets g current
               in dependents_loop g (insert current visited) (rev ts @ stack) (result @ ts))"
  by pat_completeness auto
termination
  by (relation "inv_image (less_than <*lex*> less_than)
      (\<lambda>(g, visited, stack, result). (card (- visited), length stack))")
    (auto intro!: psubset_card_mono)

declare dependents_loop.simps [simp del]

definition dependents :: "KnowledgeGraph \<Rightarrow> ClaimArenaId \<Rightarrow> ClaimArenaId list" where
  "dependents g c = dependents_loop g {} [c] []"

definition support_ratio :: "KnowledgeGraph \<Rightarrow> ClaimArenaId \<Rightarrow> u32 \<times> u32" where
  "support_ratio g c =
     foldl (\<lambda>(supports, contradicts) e.
       if edge_to e = c
       then (case relation e of
               Supports \<Rightarrow> (supports + 1, contradicts)
             | Contradicts \<Rightarrow> (supports, contradicts + 1)
             | _ \<Rightarrow> (supports, contradicts))
       else (supports, contradicts)) (0, 0) (kg_edges g)"

definition incoming_edges :: "KnowledgeGraph \<Rightarrow> ClaimArenaId \<Rightarrow> EpistemicEdge list" where
  "incoming_edges g c = filter (\<lambda>e. edge_to e = c) (kg_edges g)"

section \<open>The adjacency invariant\<close>

definition out_edges :: "EpistemicEdge list \<Rightarrow> ClaimArenaId \<Rightarrow> nat list" where
  "out_edges es x = filter (\<lambda>i. edge_from (es ! i) = x) [0..<length es]"

locale edge_store =
  fixes edges_of :: "'g \<Rightarrow> EpistemicEdge list" and adj :: "'g \<Rightarrow> ClaimArenaId \<Rightarrow> nat list option"
    and add :: "'g \<Rightarrow> EpistemicEdge \<Rightarrow> 'g" and empty :: 'g and ok :: "'g \<Rightarrow> bool"
  assumes ok_empty: "ok empty" and edges_empty: "edges_of empty = []"
    and ok_add: "ok g \<Longrightarrow> ok (add g e)"
    and edges_add: "edges_of (add g e) = edges_of g @ [e]"
    and adj: "ok g \<Longrightarrow> or_default (adj g x) = out_edges (edges_of g) x"
begin

lemma adj_iff: "ok g \<Longrightarrow> i \<in> set (or_default (adj g x)) \<longleftrightarrow> i < length (edges_of g) \<and> edge_from (edges_of g ! i) = x"
  by (auto simp: adj out_edges_def)

lemma adj_distinct: "ok g \<Longrightarrow> distinct (or_default (adj g x))"
  by (simp add: adj out_edges_def)

definition built :: "EpistemicEdge list \<Rightarrow> 'g" where
  "built es = foldl add empty es"

lemma built: "ok (built es) \<and> edges_of (built es) = es"
  unfolding built_def
  by (induction es rule: rev_induct) (simp_all add: ok_empty edges_empty ok_add edges_add)

end

definition kg_valid :: "KnowledgeGraph \<Rightarrow> bool" where
  "kg_valid g \<longleftrightarrow> (\<forall>x. or_default (adjacency g x) = out_edges (kg_edges g) x)"

lemma out_edges_snoc:
  "out_edges (es @ [e]) x = out_edges es x @ (if edge_from e = x then [length es] else [])"
  by (auto simp: out_edges_def nth_append intro!: filter_cong)

interpretation kg: edge_store kg_edges adjacency add_edge kg_new kg_valid
  by unfold_locales
    (auto simp: kg_valid_def kg_new_def add_edge_def out_edges_snoc, simp_all add: out_edges_def)

subsection \<open>Resolution\<close>

text \<open>The raw edges of which both ends resolve, in order.\<close>

lemma build_from_claims_eq:
  "kg_edges (build_from_claims claims raws) = List.map_filter (resolve_edge (resolution_index claims)) raws"
  "kg_valid (build_from_claims claims raws)"
proof (unfold build_from_claims_def)
  let ?m = "resolution_index claims"
  have "kg_edges (foldl (build_step ?m) kg_new raws) = List.map_filter (resolve_edge ?m) raws
    \<and> kg_valid (foldl (build_step ?m) kg_new raws)"
    by (induction raws rule: rev_induct)
      (auto simp: build_step_def map_filter_simps kg.edges_empty kg.ok_empty kg.edges_add kg.ok_add
        List.map_filter_def split: option.split)
  then show "kg_edges (foldl (build_step ?m) kg_new raws) = List.map_filter (resolve_edge ?m) raws"
    "kg_valid (foldl (build_step ?m) kg_new raws)" by blast+
qed

definition last_index :: "('a \<Rightarrow> bool) \<Rightarrow> 'a list \<Rightarrow> nat option" where
  "last_index P xs = (let is = filter (\<lambda>i. P (xs ! i)) [0..<length xs] in if is = [] then None else Some (last is))"

definition first_index :: "('a \<Rightarrow> bool) \<Rightarrow> 'a list \<Rightarrow> nat option" where
  "first_index P xs = (let is = filter (\<lambda>i. P (xs ! i)) [0..<length xs] in if is = [] then None else Some (hd is))"

lemma index_filter_snoc:
  "filter (\<lambda>i. P ((xs @ [x]) ! i)) [0..<length (xs @ [x])] =
     filter (\<lambda>i. P (xs ! i)) [0..<length xs] @ (if P x then [length xs] else [])"
  by (auto simp: nth_append intro!: filter_cong)

lemma last_index_snoc:
  "last_index P (xs @ [x]) = (if P x then Some (length xs) else last_index P xs)"
  unfolding last_index_def index_filter_snoc by (simp add: Let_def)

lemma first_index_snoc:
  "first_index P (xs @ [x]) =
     (case first_index P xs of Some i \<Rightarrow> Some i | None \<Rightarrow> if P x then Some (length xs) else None)"
  unfolding first_index_def index_filter_snoc by (simp add: Let_def)

text \<open>The specification of the two maps.\<close>

definition heir :: "Claim list \<Rightarrow> SemanticFingerprint \<Rightarrow> nat option" where
  "heir claims fp =
     (case last_index (\<lambda>c. fingerprint c = fp \<and> is_summary (kind c)) claims of
        Some i \<Rightarrow> Some i
      | None \<Rightarrow> first_index (\<lambda>c. fingerprint c = fp) claims)"

lemma first_index_None_last: "first_index P xs = None \<Longrightarrow> (\<And>x. Q x \<Longrightarrow> P x) \<Longrightarrow> last_index Q xs = None"
  by (auto simp: first_index_def last_index_def Let_def filter_empty_conv split: if_splits)

lemma heir_snoc:
  "heir (claims @ [c]) fp =
     (if fingerprint c = fp then (if is_summary (kind c) then Some (length claims)
        else case heir claims fp of Some i \<Rightarrow> Some i | None \<Rightarrow> Some (length claims))
      else heir claims fp)"
  by (auto simp: heir_def last_index_snoc first_index_snoc split: option.splits)

lemma resolution_index_eq:
  "resolution_index claims =
     (\<lambda>h. map_option of_nat (last_index (\<lambda>c. claim_id c = h) claims),
      \<lambda>fp. map_option of_nat (heir claims fp))"
proof (induction claims rule: rev_induct)
  case Nil
  then show ?case
    by (auto simp: resolution_index_def last_index_def heir_def first_index_def)
next
  case (snoc c claims)
  have "resolution_index (claims @ [c]) = index_step (resolution_index claims) (length claims, c)"
    by (simp add: resolution_index_def enumerate_append_eq)
  also have "\<dots> = (\<lambda>h. map_option of_nat (last_index (\<lambda>c. claim_id c = h) (claims @ [c])),
      \<lambda>fp. map_option of_nat (heir (claims @ [c]) fp))"
    unfolding snoc.IH
    by (auto simp: index_step_def last_index_snoc heir_snoc fun_eq_iff Let_def split: option.splits)
  finally show ?case .
qed

section \<open>Dependents\<close>

text \<open>The support relation of a graph: one edge of kind \<open>Supports\<close> or \<open>DerivedFrom\<close>.\<close>

definition support_rel :: "EpistemicEdge list \<Rightarrow> (ClaimArenaId \<times> ClaimArenaId) set" where
  "support_rel es = {(edge_from e, edge_to e) | e. e \<in> set es \<and> supportive e}"

lemma set_supported_targets:
  assumes "kg_valid g"
  shows "set (supported_targets g x) = support_rel (kg_edges g) `` {x}"
proof -
  have "set (map ((!) (kg_edges g)) (or_default (adjacency g x))) = {e \<in> set (kg_edges g). edge_from e = x}"
    using kg.adj_iff [OF assms] by (auto simp: in_set_conv_nth image_iff)
  then show ?thesis by (auto simp: supported_targets_def support_rel_def)
qed

lemma dependents_loop_simps [simp]:
  "dependents_loop g visited [] result = result"
  "dependents_loop g visited (x # stack) result =
     (if x \<in> visited then dependents_loop g visited stack result
      else dependents_loop g (insert x visited) (rev (supported_targets g x) @ stack)
             (result @ supported_targets g x))"
  by (simp_all add: dependents_loop.simps [of g visited] Let_def)

text \<open>What holds at every turn of the loop that started at \<open>c\<close>: the result is what the visited
  claims support, only dependents of \<open>c\<close> are on the stack, and whatever a visited claim supports is
  visited or waiting on the stack.\<close>

definition dependents_inv ::
  "(ClaimArenaId \<times> ClaimArenaId) set \<Rightarrow> ClaimArenaId \<Rightarrow> ClaimArenaId set \<Rightarrow> ClaimArenaId list \<Rightarrow> ClaimArenaId list \<Rightarrow> bool" where
  "dependents_inv R c visited stack result \<longleftrightarrow>
     set result = R `` visited \<and> set stack \<union> visited \<subseteq> R\<^sup>* `` {c}
     \<and> c \<in> visited \<union> set stack \<and> R `` visited \<subseteq> visited \<union> set stack"

lemma dependents_inv_end:
  assumes "dependents_inv R c visited [] result"
  shows "set result = R\<^sup>+ `` {c}"
proof -
  have "R\<^sup>* `` {c} \<subseteq> R\<^sup>* `` visited" using assms by (auto simp: dependents_inv_def)
  also have "R\<^sup>* `` visited = visited"
    using assms by (intro Image_closed_trancl) (simp add: dependents_inv_def)
  finally have "visited = R\<^sup>* `` {c}" using assms by (auto simp: dependents_inv_def)
  then have "set result = (R\<^sup>* O R) `` {c}" using assms by (auto simp: dependents_inv_def)
  then show ?thesis by (simp only: trancl_unfold_right)
qed

lemma dependents_inv_visited:
  "dependents_inv R c visited (x # stack) result \<Longrightarrow> x \<in> visited \<Longrightarrow> dependents_inv R c visited stack result"
  by (auto simp: dependents_inv_def)

lemma dependents_inv_expand:
  assumes "dependents_inv R c visited (x # stack) result" "set ts = R `` {x}"
  shows "dependents_inv R c (insert x visited) (rev ts @ stack) (result @ ts)"
proof -
  have "(c, x) \<in> R\<^sup>*" using assms(1) by (auto simp: dependents_inv_def)
  then have "R `` {x} \<subseteq> R\<^sup>* `` {c}" by (auto intro: rtrancl_into_rtrancl)
  then show ?thesis using assms by (auto simp: dependents_inv_def)
qed

lemma dependents_loop_set:
  "kg_valid g \<Longrightarrow> dependents_inv (support_rel (kg_edges g)) c visited stack result \<Longrightarrow>
     set (dependents_loop g visited stack result) = (support_rel (kg_edges g))\<^sup>+ `` {c}"
proof (induction g visited stack result rule: dependents_loop.induct)
  case (1 g visited stack result)
  show ?case
  proof (cases stack)
    case Nil
    then show ?thesis using 1(4) by (simp add: dependents_inv_end)
  next
    case (Cons x stack')
    show ?thesis
    proof (cases "x \<in> visited")
      case True
      then have "set (dependents_loop g visited stack' result) = (support_rel (kg_edges g))\<^sup>+ `` {c}"
        using 1(3,4) Cons by (intro 1(1) [of x stack']) (auto intro: dependents_inv_visited)
      then show ?thesis using Cons True by simp
    next
      case False
      have "set (dependents_loop g (insert x visited) (rev (supported_targets g x) @ stack')
          (result @ supported_targets g x)) = (support_rel (kg_edges g))\<^sup>+ `` {c}"
        using 1(3,4) Cons False
        by (intro 1(2) [of x stack']) (auto intro: dependents_inv_expand simp: set_supported_targets)
      then show ?thesis using Cons False by simp
    qed
  qed
qed

lemma dependents_set:
  "kg_valid g \<Longrightarrow> set (dependents g c) = (support_rel (kg_edges g))\<^sup>+ `` {c}"
  unfolding dependents_def by (intro dependents_loop_set) (simp_all add: dependents_inv_def)

section \<open>Support ratio\<close>

lemma support_ratio_eq:
  "support_ratio g c =
     (of_nat (length (filter (\<lambda>e. relation e = Supports) (incoming_edges g c))),
      of_nat (length (filter (\<lambda>e. relation e = Contradicts) (incoming_edges g c))))"
proof -
  have "foldl (\<lambda>(supports, contradicts) e.
       if edge_to e = c
       then (case relation e of
               Supports \<Rightarrow> (supports + 1, contradicts)
             | Contradicts \<Rightarrow> (supports, contradicts + 1)
             | _ \<Rightarrow> (supports, contradicts))
       else (supports, contradicts)) (a, b) es =
    (a + of_nat (length (filter (\<lambda>e. relation e = Supports) (filter (\<lambda>e. edge_to e = c) es))),
     b + of_nat (length (filter (\<lambda>e. relation e = Contradicts) (filter (\<lambda>e. edge_to e = c) es))))"
    for a b :: u32 and es :: "EpistemicEdge list"
    by (induction es arbitrary: a b) (auto split: Relation.split)
  then show ?thesis by (simp add: support_ratio_def incoming_edges_def)
qed

section \<open>Endpoints of a built graph\<close>

lemma index_list_set:
  "i \<in> set (filter (\<lambda>i. P (xs ! i)) [0..<length xs]) \<longleftrightarrow> i < length xs \<and> P (xs ! i)"
  by auto

lemma last_index_Some: "last_index P xs = Some i \<Longrightarrow> i < length xs \<and> P (xs ! i)"
  using index_list_set [of i P xs] by (auto simp: last_index_def Let_def split: if_splits dest: last_in_set)

lemma first_index_Some: "first_index P xs = Some i \<Longrightarrow> i < length xs \<and> P (xs ! i)"
  using index_list_set [of i P xs] by (auto simp: first_index_def Let_def split: if_splits dest: hd_in_set)

lemma last_index_None: "last_index P xs = None \<longleftrightarrow> (\<forall>x\<in>set xs. \<not> P x)"
  by (auto simp: last_index_def Let_def filter_empty_conv all_set_conv_all_nth split: if_splits)

lemma first_index_None: "first_index P xs = None \<longleftrightarrow> (\<forall>x\<in>set xs. \<not> P x)"
  by (auto simp: first_index_def Let_def filter_empty_conv all_set_conv_all_nth split: if_splits)

text \<open>An endpoint is the claim with the hash; when there is none, a claim with the fingerprint, a
  summary if one has it.\<close>

definition endpoint_ok :: "Claim list \<Rightarrow> ClaimHash \<Rightarrow> SemanticFingerprint \<Rightarrow> nat \<Rightarrow> bool" where
  "endpoint_ok claims h fp i \<longleftrightarrow> i < length claims \<and>
     (if h \<in> claim_id ` set claims then claim_id (claims ! i) = h
      else fingerprint (claims ! i) = fp \<and>
        ((\<exists>c\<in>set claims. fingerprint c = fp \<and> is_summary (kind c)) \<longrightarrow> is_summary (kind (claims ! i))))"

lemma resolve_endpoint_ok:
  assumes "resolve_endpoint (resolution_index claims) h fp = Some a"
  shows "\<exists>i. a = of_nat i \<and> endpoint_ok claims h fp i"
  using assms unfolding resolve_endpoint_def resolution_index_eq
  by (auto simp: endpoint_ok_def heir_def last_index_None split: option.splits
      dest!: last_index_Some first_index_Some)

lemma resolve_endpoint_None:
  "resolve_endpoint (resolution_index claims) h fp = None \<longleftrightarrow>
     h \<notin> claim_id ` set claims \<and> fp \<notin> fingerprint ` set claims"
  unfolding resolve_endpoint_def resolution_index_eq
  by (auto simp: heir_def last_index_None first_index_None split: option.splits
      dest!: last_index_Some first_index_Some)

section \<open>Properties\<close>

text \<open>
  The dependents of a claim in a graph built from claims and raw edges are exactly the claims
  that a chain of supporting or deriving edges leads to, whatever cycles the graph has: the loop
  ends, and finds all of them and nothing else.
\<close>

theorem dependents_reachable:
  "set (dependents (build_from_claims claims raws) c)
     = (support_rel (kg_edges (build_from_claims claims raws)))\<^sup>+ `` {c}"
  by (rule dependents_set) (rule build_from_claims_eq)

text \<open>
  C40: Hybrid resolution. Every edge of a built graph comes from a raw edge, with its relation and
  strength, and joins the claims with the raw edge's hashes; a hash that no claim has is replaced
  by its semantic heir, a summary wherever one has the fingerprint. A raw edge is dropped only when
  an end has neither.
\<close>

theorem edges_resolve:
  "(\<forall>e\<in>set (kg_edges (build_from_claims claims raws)). \<exists>raw\<in>set raws. \<exists>i j.
      edge_from e = of_nat i \<and> endpoint_ok claims (from_hash raw) (from_fingerprint raw) i
    \<and> edge_to e = of_nat j \<and> endpoint_ok claims (to_hash raw) (to_fingerprint raw) j
    \<and> relation e = raw_relation raw \<and> strength e = raw_strength raw)
   \<and> (\<forall>raw\<in>set raws. (\<exists>e\<in>set (kg_edges (build_from_claims claims raws)).
        resolve_edge (resolution_index claims) raw = Some e)
      \<or> from_hash raw \<notin> claim_id ` set claims \<and> from_fingerprint raw \<notin> fingerprint ` set claims
      \<or> to_hash raw \<notin> claim_id ` set claims \<and> to_fingerprint raw \<notin> fingerprint ` set claims)"
proof (intro conjI ballI)
  fix e assume "e \<in> set (kg_edges (build_from_claims claims raws))"
  then obtain raw where raw: "raw \<in> set raws" "resolve_edge (resolution_index claims) raw = Some e"
    by (auto simp: build_from_claims_eq List.map_filter_def)
  then obtain a b where ab:
      "resolve_endpoint (resolution_index claims) (from_hash raw) (from_fingerprint raw) = Some a"
      "resolve_endpoint (resolution_index claims) (to_hash raw) (to_fingerprint raw) = Some b"
      "e = \<lparr>edge_from = a, edge_to = b, relation = raw_relation raw, strength = raw_strength raw\<rparr>"
    by (auto simp: resolve_edge_def split: option.splits)
  from resolve_endpoint_ok [OF ab(1)] resolve_endpoint_ok [OF ab(2)] ab(3) raw(1)
  show "\<exists>raw\<in>set raws. \<exists>i j.
      edge_from e = of_nat i \<and> endpoint_ok claims (from_hash raw) (from_fingerprint raw) i
    \<and> edge_to e = of_nat j \<and> endpoint_ok claims (to_hash raw) (to_fingerprint raw) j
    \<and> relation e = raw_relation raw \<and> strength e = raw_strength raw"
    by auto
next
  fix raw assume raw: "raw \<in> set raws"
  show "(\<exists>e\<in>set (kg_edges (build_from_claims claims raws)).
        resolve_edge (resolution_index claims) raw = Some e)
      \<or> from_hash raw \<notin> claim_id ` set claims \<and> from_fingerprint raw \<notin> fingerprint ` set claims
      \<or> to_hash raw \<notin> claim_id ` set claims \<and> to_fingerprint raw \<notin> fingerprint ` set claims"
  proof (cases "resolve_edge (resolution_index claims) raw")
    case None
    then have "resolve_endpoint (resolution_index claims) (from_hash raw) (from_fingerprint raw) = None
      \<or> resolve_endpoint (resolution_index claims) (to_hash raw) (to_fingerprint raw) = None"
      by (auto simp: resolve_edge_def split: option.splits)
    then show ?thesis by (simp only: resolve_endpoint_None) blast
  next
    case (Some e)
    then show ?thesis using raw by (force simp: build_from_claims_eq List.map_filter_def)
  qed
qed

definition summary_of :: "Claim \<Rightarrow> Claim" where
  "summary_of c = c\<lparr>kind := Summary 1 0 0 [] NEUTRAL 1 0 NEUTRAL NEUTRAL\<rparr>"

theorem edges_resolve_witness:
  "let s = summary_of (sample_claim [7] [1] None); o' = sample_claim [2] [2] None;
       raw = \<lparr>from_hash = [1], from_fingerprint = fingerprint s, to_hash = [2],
         to_fingerprint = fingerprint o', raw_relation = Supports, raw_strength = rep_FULL\<rparr>
   in \<exists>e\<in>set (kg_edges (build_from_claims [o', s] [raw])). edge_from e = 1 \<and> edge_to e = 0
      \<and> relation e = Supports"
proof -
  let ?s = "summary_of (sample_claim [7] [1] None)" and ?o = "sample_claim [2] [2] None"
  let ?raw = "\<lparr>from_hash = [1], from_fingerprint = fingerprint ?s, to_hash = [2],
    to_fingerprint = fingerprint ?o, raw_relation = Supports, raw_strength = rep_FULL\<rparr>"
  have "fingerprint ?s \<in> fingerprint ` set [?o, ?s]" "[2] \<in> claim_id ` set [?o, ?s]"
    by (simp_all add: sample_claim_def summary_of_def)
  then obtain e where e: "e \<in> set (kg_edges (build_from_claims [?o, ?s] [?raw]))"
    using edges_resolve [of "[?o, ?s]" "[?raw]"] by auto
  obtain i j where ij: "edge_from e = of_nat i" "endpoint_ok [?o, ?s] [1] (fingerprint ?s) i"
    "edge_to e = of_nat j" "endpoint_ok [?o, ?s] [2] (fingerprint ?o) j" "relation e = Supports"
    using bspec [OF conjunct1 [OF edges_resolve [of "[?o, ?s]" "[?raw]"]] e] by auto
  have "i = 1" "j = 0"
    using ij(2,4) by (auto simp: endpoint_ok_def sample_claim_def summary_of_def is_summary_def less_Suc_eq)
  then show ?thesis using e ij unfolding Let_def by auto
qed

text \<open>The support ratio counts the incoming supporting and contradicting edges; the two
  counters are \<open>u32\<close> and wrap.\<close>

theorem support_ratio_counts:
  "support_ratio (build_from_claims claims raws) c =
     (of_nat (length (filter (\<lambda>e. relation e = Supports \<and> edge_to e = c)
        (kg_edges (build_from_claims claims raws)))),
      of_nat (length (filter (\<lambda>e. relation e = Contradicts \<and> edge_to e = c)
        (kg_edges (build_from_claims claims raws)))))"
  by (simp add: support_ratio_eq incoming_edges_def conj_commute)

end
