(* ===== verification/Topology.thy ===== *)
theory Topology
  imports Knowledge_Graph
begin

text \<open>
  Automatic edges (\<open>aimp_node/src/semantic_topology.rs\<close>, lines 62-203): the configuration and the
  generation of supporting and contradicting edges from the Hamming distance of embeddings, with
  the cap on the number of edges per claim. Strengths are computed in \<open>u32\<close> words as in the code.
\<close>

section \<open>The code\<close>

record AutoEdgeConfig =
  support_threshold_bits :: u32
  contradict_threshold_bits :: u32
  max_k_nearest :: nat

definition default_config :: AutoEdgeConfig where
  "default_config = \<lparr>support_threshold_bits = 30, contradict_threshold_bits = 200, max_k_nearest = 10\<rparr>"

definition relation_for :: "AutoEdgeConfig \<Rightarrow> u32 \<Rightarrow> Relation option" where
  "relation_for cfg distance =
     (if distance \<le> support_threshold_bits cfg then Some Supports
      else if distance \<ge> contradict_threshold_bits cfg then Some Contradicts
      else None)"

definition clamp_bps :: "u32 \<Rightarrow> u16" where
  "clamp_bps raw = ucast (if raw < 1000 then 1000 else if raw > 10000 then 10000 else raw)"

definition strength_for :: "AutoEdgeConfig \<Rightarrow> Relation \<Rightarrow> u32 \<Rightarrow> u16" where
  "strength_for cfg rel distance =
     (case rel of
        Supports \<Rightarrow>
          let t = max (support_threshold_bits cfg) 1
          in clamp_bps (usub_sat 10000 (distance * 9000 div t))
      | Contradicts \<Rightarrow>
          let range = max (usub_sat 256 (contradict_threshold_bits cfg)) 1;
              above = usub_sat distance (contradict_threshold_bits cfg)
          in clamp_bps (1000 + above * 9000 div range)
      | _ \<Rightarrow> 5000)"

type_synonym edge_state = "(ClaimHash \<Rightarrow> nat option) \<times> RawEpistemicEdge list"

definition count_of :: "(ClaimHash \<Rightarrow> nat option) \<Rightarrow> ClaimHash \<Rightarrow> nat" where
  "count_of counts h = (case counts h of Some n \<Rightarrow> n | None \<Rightarrow> 0)"

definition bump :: "ClaimHash \<Rightarrow> (ClaimHash \<Rightarrow> nat option) \<Rightarrow> (ClaimHash \<Rightarrow> nat option)" where
  "bump h counts = counts(h \<mapsto> count_of counts h + 1)"

definition auto_edge :: "AutoEdgeConfig \<Rightarrow> Claim \<Rightarrow> Claim \<Rightarrow> RawEpistemicEdge option" where
  "auto_edge cfg c1 c2 =
     (let distance = hamming_distance (the (embedding c1)) (the (embedding c2))
      in case relation_for cfg distance of
           None \<Rightarrow> None
         | Some rel \<Rightarrow>
             Some \<lparr>from_hash = claim_id c1, from_fingerprint = fingerprint c1,
                   to_hash = claim_id c2, to_fingerprint = fingerprint c2,
                   raw_relation = rel, raw_strength = from_bps (strength_for cfg rel distance)\<rparr>)"

definition edge_step :: "AutoEdgeConfig \<Rightarrow> Claim \<Rightarrow> edge_state \<Rightarrow> Claim \<Rightarrow> edge_state" where
  "edge_step cfg c1 st c2 =
     (case st of (counts, edges) \<Rightarrow>
        if embedding_version c1 \<noteq> embedding_version c2 then st
        else if count_of counts (claim_id c1) \<ge> max_k_nearest cfg
          \<or> count_of counts (claim_id c2) \<ge> max_k_nearest cfg then st
        else case auto_edge cfg c1 c2 of
               None \<Rightarrow> st
             | Some e \<Rightarrow> (bump (claim_id c2) (bump (claim_id c1) counts), edges @ [e]))"

primrec edge_loop :: "AutoEdgeConfig \<Rightarrow> Claim list \<Rightarrow> edge_state \<Rightarrow> edge_state" where
  "edge_loop cfg [] st = st"
| "edge_loop cfg (c1 # cs) st = edge_loop cfg cs (foldl (edge_step cfg c1) st cs)"

definition generate_edges :: "AutoEdgeConfig \<Rightarrow> Claim list \<Rightarrow> RawEpistemicEdge list" where
  "generate_edges cfg claims =
     (let with_embedding = sort_key claim_id (filter (\<lambda>c. embedding c \<noteq> None) claims)
      in if length with_embedding < 2 then []
         else snd (edge_loop cfg with_embedding (Map.empty, [])))"

section \<open>Strengths\<close>

lemma unat_clamp_bps:
  "unat (clamp_bps raw) = (if unat raw < 1000 then 1000 else if unat raw > 10000 then 10000 else unat raw)"
  by (auto simp: clamp_bps_def word_less_nat_alt unsigned_ucast_eq take_bit_nat_eq_self)

lemma clamp_bps_range: "1000 \<le> clamp_bps raw" "clamp_bps raw \<le> 10000"
  by (simp_all add: word_le_nat_alt unat_clamp_bps)

lemma strength_for_range: "1000 \<le> strength_for cfg rel d" "strength_for cfg rel d \<le> 10000"
  by (cases rel; simp add: strength_for_def Let_def clamp_bps_range)+

lemma clamp_bps_mono: "a \<le> b \<Longrightarrow> clamp_bps a \<le> clamp_bps b"
  by (simp add: word_le_nat_alt unat_clamp_bps)

lemma unat_usub_sat: "unat (usub_sat a b) = unat a - unat b"
  by (simp add: usub_sat_def word_less_nat_alt unat_sub_if')

lemma unat_scaled:
  assumes "d \<le> 256"
  shows "unat (d * 9000 div t :: u32) = unat d * 9000 div unat t"
proof -
  have "unat d * 9000 < 2 ^ 32" using assms by (simp add: word_le_nat_alt)
  then show ?thesis by (simp add: unat_div unat_word_ariths)
qed

text \<open>The closer the embeddings, the stronger the support.\<close>

lemma support_strength_antimono:
  assumes "d \<le> d'" "d' \<le> 256"
  shows "strength_for cfg Supports d' \<le> strength_for cfg Supports d"
proof -
  let ?t = "max (support_threshold_bits cfg) 1"
  have "unat (d * 9000 div ?t) \<le> unat (d' * 9000 div ?t)"
    using assms order_trans [OF assms] by (simp add: unat_scaled word_le_nat_alt div_le_mono)
  then have "usub_sat 10000 (d' * 9000 div ?t) \<le> usub_sat 10000 (d * 9000 div ?t)"
    by (simp add: word_le_nat_alt unat_usub_sat)
  then show ?thesis by (simp add: strength_for_def clamp_bps_mono)
qed

section \<open>The cap and the edges\<close>

definition touches :: "ClaimHash \<Rightarrow> RawEpistemicEdge \<Rightarrow> bool" where
  "touches h e \<longleftrightarrow> from_hash e = h \<or> to_hash e = h"

definition degree :: "RawEpistemicEdge list \<Rightarrow> ClaimHash \<Rightarrow> nat" where
  "degree es h = length (filter (touches h) es)"

text \<open>A generated edge joins two claims of one version, in the order of their ids.\<close>

definition justified :: "AutoEdgeConfig \<Rightarrow> Claim set \<Rightarrow> RawEpistemicEdge \<Rightarrow> bool" where
  "justified cfg C e \<longleftrightarrow> (\<exists>c1\<in>C. \<exists>c2\<in>C. claim_id c1 < claim_id c2
     \<and> embedding_version c1 = embedding_version c2 \<and> auto_edge cfg c1 c2 = Some e)"

definition edge_inv :: "AutoEdgeConfig \<Rightarrow> Claim set \<Rightarrow> edge_state \<Rightarrow> bool" where
  "edge_inv cfg C st \<longleftrightarrow>
     (\<forall>h. count_of (fst st) h = degree (snd st) h \<and> degree (snd st) h \<le> max_k_nearest cfg)
     \<and> (\<forall>e\<in>set (snd st). justified cfg C e)"

lemma count_bump: "count_of (bump h counts) h' = count_of counts h' + (if h' = h then 1 else 0)"
  by (simp add: bump_def count_of_def)

lemma auto_edge_ends: "auto_edge cfg c1 c2 = Some e \<Longrightarrow> from_hash e = claim_id c1 \<and> to_hash e = claim_id c2"
  by (auto simp: auto_edge_def Let_def split: option.splits)

lemma edge_step_inv:
  assumes inv: "edge_inv cfg C st" and c: "c1 \<in> C" "c2 \<in> C" "claim_id c1 < claim_id c2"
  shows "edge_inv cfg C (edge_step cfg c1 st c2)"
proof (cases st)
  case (Pair counts edges)
  show ?thesis
  proof (cases "edge_step cfg c1 st c2 = st")
    case True
    then show ?thesis using inv by simp
  next
    case False
    then obtain e where e: "auto_edge cfg c1 c2 = Some e" "embedding_version c1 = embedding_version c2"
      "count_of counts (claim_id c1) < max_k_nearest cfg" "count_of counts (claim_id c2) < max_k_nearest cfg"
      "edge_step cfg c1 st c2 = (bump (claim_id c2) (bump (claim_id c1) counts), edges @ [e])"
      by (auto simp: edge_step_def Pair not_le split: if_splits option.splits)
    have "degree (edges @ [e]) h = degree edges h + (if h = claim_id c1 \<or> h = claim_id c2 then 1 else 0)" for h
      using auto_edge_ends [OF e(1)] by (auto simp: degree_def touches_def)
    moreover have "justified cfg C e" using e c by (auto simp: justified_def)
    ultimately show ?thesis
      using inv e(3,4) c(3) by (auto simp: e(5) [unfolded Pair] edge_inv_def count_bump Pair)
  qed
qed

lemma edge_loop_inv:
  "edge_inv cfg C st \<Longrightarrow> set cs \<subseteq> C \<Longrightarrow> sorted_wrt (<) (map claim_id cs) \<Longrightarrow> edge_inv cfg C (edge_loop cfg cs st)"
proof (induction cs arbitrary: st)
  case (Cons c1 cs)
  have "edge_inv cfg C (foldl (edge_step cfg c1) st ds)" if "set ds \<subseteq> set cs" for ds
    using that
  proof (induction ds rule: rev_induct)
    case (snoc d ds)
    then show ?case using Cons.prems by (auto intro: edge_step_inv)
  qed (use Cons.prems in simp)
  then show ?case using Cons by simp
qed simp

lemma generate_edges_inv:
  assumes "distinct (map claim_id claims)"
  shows "degree (generate_edges cfg claims) h \<le> max_k_nearest cfg"
    and "e \<in> set (generate_edges cfg claims) \<Longrightarrow> justified cfg {c \<in> set claims. embedding c \<noteq> None} e"
proof -
  let ?we = "sort_key claim_id (filter (\<lambda>c. embedding c \<noteq> None) claims)"
  let ?C = "{c \<in> set claims. embedding c \<noteq> None}"
  have "distinct (map claim_id ?we)"
    using assms by (simp add: distinct_map inj_on_def)
  then have "sorted_wrt (<) (map claim_id ?we)" by (simp add: strict_sorted_iff)
  moreover have "edge_inv cfg ?C (Map.empty, [])" by (simp add: edge_inv_def count_of_def degree_def)
  ultimately have "edge_inv cfg ?C (edge_loop cfg ?we (Map.empty, []))"
    by (intro edge_loop_inv) auto
  then show "degree (generate_edges cfg claims) h \<le> max_k_nearest cfg"
    "e \<in> set (generate_edges cfg claims) \<Longrightarrow> justified cfg ?C e"
    by (auto simp: generate_edges_def Let_def edge_inv_def degree_def split: if_splits)
qed

lemma generate_edges_perm [order_free]:
  assumes "inj_on claim_id (set claims)" "mset claims = mset claims'"
  shows "generate_edges cfg claims = generate_edges cfg claims'"
proof -
  have "sort_key claim_id (filter (\<lambda>c. embedding c \<noteq> None) claims) =
      sort_key claim_id (filter (\<lambda>c. embedding c \<noteq> None) claims')"
    using assms by (intro sort_key_perm_inj) (auto intro: inj_on_subset)
  then show ?thesis by (simp add: generate_edges_def)
qed

section \<open>Properties\<close>

text \<open>
  Generated edges are bounded and justified. For claims with distinct ids no claim is an end of
  more than the configured number of edges, and each edge joins, in the order of their ids, two
  claims of one embedding version whose distance gives its relation, with a strength between 1000
  and 10000 basis points.
\<close>

theorem generated_edges_sound:
  assumes "distinct (map claim_id claims)"
  shows "degree (generate_edges cfg claims) h \<le> max_k_nearest cfg
    \<and> (\<forall>e\<in>set (generate_edges cfg claims).
        justified cfg {c \<in> set claims. embedding c \<noteq> None} e
        \<and> 1000 \<le> bps (raw_strength e) \<and> bps (raw_strength e) \<le> 10000)"
proof (intro conjI ballI)
  show "degree (generate_edges cfg claims) h \<le> max_k_nearest cfg" using assms by (rule generate_edges_inv)
  fix e assume e: "e \<in> set (generate_edges cfg claims)"
  show j: "justified cfg {c \<in> set claims. embedding c \<noteq> None} e"
    using assms e by (rule generate_edges_inv)
  then obtain rel d where "raw_strength e = from_bps (strength_for cfg rel d)"
    by (auto simp: justified_def auto_edge_def Let_def split: option.splits)
  then show "1000 \<le> bps (raw_strength e)" "bps (raw_strength e) \<le> 10000"
    using strength_for_range [of cfg rel d] by (simp_all add: from_bps_def)
qed

theorem generated_edges_sound_witness:
  "let cs = [sample_claim [1] [1] (Some qe_ZERO), sample_claim [2] [2] (Some (QuantizedEmbedding 7 0 0 0))]
   in length (generate_edges default_config cs) = 1
      \<and> 1000 \<le> bps (raw_strength (hd (generate_edges default_config cs)))"
proof -
  let ?cs = "[sample_claim [1] [1] (Some qe_ZERO), sample_claim [2] [2] (Some (QuantizedEmbedding 7 0 0 0))]"
  have n: "length (generate_edges default_config ?cs) = 1" by code_simp
  then have "hd (generate_edges default_config ?cs) \<in> set (generate_edges default_config ?cs)"
    by (intro hd_in_set) auto
  moreover have "distinct (map claim_id ?cs)" by (simp add: sample_claim_def)
  ultimately show ?thesis using generated_edges_sound [of ?cs default_config] n unfolding Let_def by blast
qed

text \<open>
  Two nodes that hold the same claims generate the same edges in the same order, whatever the
  order in which the claims arrived.
\<close>

theorem generated_edges_order_independent:
  assumes "inj_on claim_id (set claims)" "mset claims = mset claims'"
  shows "generate_edges cfg claims = generate_edges cfg claims'"
  using assms by (rule generate_edges_perm)

theorem generated_edges_order_independent_witness:
  "let a = sample_claim [1] [1] (Some qe_ZERO); b = sample_claim [2] [2] (Some qe_ONES)
   in generate_edges default_config [a, b] = generate_edges default_config [b, a]"
  unfolding Let_def
  by (rule generated_edges_order_independent) (simp_all add: sample_claim_def)

text \<open>The closer two embeddings are, the stronger the support between them.\<close>

theorem support_strength_monotone:
  assumes "hamming_distance x y \<le> hamming_distance x' y'"
  shows "strength_for cfg Supports (hamming_distance x' y') \<le> strength_for cfg Supports (hamming_distance x y)"
  using assms ham.bounded by (rule support_strength_antimono)

theorem support_strength_monotone_witness:
  "strength_for default_config Supports (hamming_distance qe_ZERO qe_ONES)
     \<le> strength_for default_config Supports (hamming_distance qe_ZERO qe_ZERO)"
  by (rule support_strength_monotone) simp

end
