(* ===== verification/Dag_Node.thy ===== *)
theory Dag_Node
  imports Claims
begin

text \<open>
  Nodes of the Merkle-DAG (\<open>aimp_node/src/crdt/merkle_dag.rs\<close>, lines 9-60): the record of a node, its
  evidence and its content hash. A Rust \<open>String\<close> is the list of its UTF-8 bytes as characters, a
  \<open>BTreeMap\<close> the list of its entries in key order. BLAKE3 is the parameter \<open>B\<close>; a streaming hasher
  digests the concatenation of its updates.
\<close>

section \<open>The code\<close>

type_synonym Hash32 = hash32
type_synonym vector_clock = "(string \<times> u64) list"

record AiEvidence =
  ev_prompt :: string
  ev_decision :: string
  model_hash :: Hash32
  timestamp :: u64

record DagNode =
  parents :: "Hash32 list"
  node_signature :: bytes
  data_hash :: Hash32
  vclock :: vector_clock
  evidence :: "AiEvidence option"

definition evidence_bytes :: "AiEvidence \<Rightarrow> bytes" where
  "evidence_bytes e = ascii (ev_prompt e) @ ascii (ev_decision e) @ model_hash e @ le_bytes64 (timestamp e)"

definition node_bytes :: "DagNode \<Rightarrow> bytes" where
  "node_bytes n =
     concat (parents n) @ node_signature n @ data_hash n
     @ concat (map (\<lambda>(key, val). ascii key @ le_bytes64 val) (vclock n))
     @ (case evidence n of None \<Rightarrow> [] | Some e \<Rightarrow> evidence_bytes e)"

definition compute_hash :: "blake3 \<Rightarrow> DagNode \<Rightarrow> Hash32" where
  "compute_hash B n = B (node_bytes n)"

section \<open>What the hash determines\<close>

text \<open>The fixed-width fields have their widths.\<close>

definition node_wf :: "DagNode \<Rightarrow> bool" where
  "node_wf n \<longleftrightarrow> (\<forall>p\<in>set (parents n). length p = 32) \<and> length (node_signature n) = 64
     \<and> length (data_hash n) = 32
     \<and> (case evidence n of None \<Rightarrow> True | Some e \<Rightarrow> length (model_hash e) = 32)"

lemma ascii_append: "ascii (s @ t) = ascii s @ ascii t"
  by (simp add: ascii_def)

text \<open>Moving the boundary between the prompt and the decision keeps the hashed bytes.\<close>

lemma node_bytes_shift:
  "node_bytes (n\<lparr>evidence := Some (e\<lparr>ev_prompt := p @ q, ev_decision := d\<rparr>)\<rparr>) =
   node_bytes (n\<lparr>evidence := Some (e\<lparr>ev_prompt := p, ev_decision := q @ d\<rparr>)\<rparr>)"
  by (simp add: node_bytes_def evidence_bytes_def ascii_append)

text \<open>
  Whatever the hash function, nodes that differ have one content hash: the fields are hashed
  without their lengths, so the boundary between the prompt and the decision of the evidence can be
  moved. For every well-formed node whose decision begins with an ASCII character (so that both
  strings stay UTF-8) there is another well-formed node with the same parents, signature, data and
  clock and with the same hash.
\<close>

theorem compute_hash_ambiguous:
  assumes "node_wf n" "evidence n = Some e" "ev_decision e \<noteq> []"
    "of_char (hd (ev_decision e)) < (128 :: nat)"
  shows "\<exists>m. node_wf m \<and> m \<noteq> n \<and> parents m = parents n \<and> node_signature m = node_signature n
    \<and> data_hash m = data_hash n \<and> vclock m = vclock n \<and> compute_hash B m = compute_hash B n"
proof -
  obtain c d where cd: "ev_decision e = c # d" using assms(3) by (cases "ev_decision e") auto
  let ?m = "n\<lparr>evidence := Some (e\<lparr>ev_prompt := ev_prompt e @ [c], ev_decision := d\<rparr>)\<rparr>"
  have n: "n = n\<lparr>evidence := Some (e\<lparr>ev_prompt := ev_prompt e, ev_decision := [c] @ d\<rparr>)\<rparr>"
    using assms(2) cd by simp
  have "compute_hash B ?m = compute_hash B n"
    by (subst n) (simp only: compute_hash_def node_bytes_shift)
  moreover have "?m \<noteq> n" using assms(2) cd by (auto dest!: arg_cong [where f = evidence] arg_cong [where f = ev_prompt])
  moreover have "node_wf ?m" using assms(1,2) by (simp add: node_wf_def)
  ultimately show ?thesis by (intro exI [of _ ?m]) simp
qed

definition sample_node :: "Hash32 list \<Rightarrow> u8 \<Rightarrow> DagNode" where
  "sample_node ps b = \<lparr>parents = ps, node_signature = replicate 64 b, data_hash = replicate 32 b,
     vclock = [(''n'', 1)],
     evidence = Some \<lparr>ev_prompt = ''ask'', ev_decision = ''ok'', model_hash = replicate 32 0, timestamp = ucast b\<rparr>\<rparr>"

theorem compute_hash_ambiguous_witness:
  "\<exists>m. m \<noteq> sample_node [] 1 \<and> compute_hash sample_hash m = compute_hash sample_hash (sample_node [] 1)"
  using compute_hash_ambiguous [of "sample_node [] 1" "the (evidence (sample_node [] 1))" sample_hash]
  by (auto simp: sample_node_def node_wf_def)

end
