(* ===== verification/Arena.thy ===== *)
theory Arena
  imports Dag_Node
begin

text \<open>
  The node arena (\<open>aimp_node/src/crdt/arena.rs\<close>): a slab of nodes with an index from content hashes
  to slab keys. The slab is the third-party crate \<open>slab\<close>; a slab is represented by its occupied
  entries, and the key that an insertion picks is the parameter \<open>vacant\<close>, of which the code uses
  that it is not occupied (\<open>vacant_key\<close>). The hash map is the list of its entries; its iteration
  order is that of the list, and no result below depends on it. The locale \<open>node_store\<close> is what the
  DAG engine and the actor rely on.
\<close>

section \<open>The code\<close>

record DagArena =
  slab :: "(nat \<times> DagNode) list"
  hash_to_index :: "(Hash32 \<times> nat) list"

definition arena_new :: DagArena where
  "arena_new = \<lparr>slab = [], hash_to_index = []\<rparr>"

definition arena_insert ::
  "(nat list \<Rightarrow> nat) \<Rightarrow> Hash32 \<Rightarrow> DagNode \<Rightarrow> DagArena \<Rightarrow> (nat \<times> bool) \<times> DagArena" where
  "arena_insert vacant h n a =
     (case map_of (hash_to_index a) h of
        Some i \<Rightarrow> ((i, False), a)
      | None \<Rightarrow>
          let i = vacant (map fst (slab a))
          in ((i, True), \<lparr>slab = AList.update i n (slab a), hash_to_index = AList.update h i (hash_to_index a)\<rparr>))"

text \<open>\<open>self.slab[idx]\<close> panics on a vacant key; \<open>index_occupied\<close> below shows that it never does.\<close>

definition get_by_hash :: "DagArena \<Rightarrow> Hash32 \<Rightarrow> DagNode option" where
  "get_by_hash a h =
     (case map_of (hash_to_index a) h of None \<Rightarrow> None | Some i \<Rightarrow> Some (the (map_of (slab a) i)))"

definition get_by_index :: "DagArena \<Rightarrow> nat \<Rightarrow> DagNode option" where
  "get_by_index a i = map_of (slab a) i"

definition arena_contains :: "DagArena \<Rightarrow> Hash32 \<Rightarrow> bool" where
  "arena_contains a h \<longleftrightarrow> map_of (hash_to_index a) h \<noteq> None"

definition arena_len :: "DagArena \<Rightarrow> nat" where
  "arena_len a = length (slab a)"

definition arena_is_empty :: "DagArena \<Rightarrow> bool" where
  "arena_is_empty a \<longleftrightarrow> slab a = []"

definition get_all_iter :: "DagArena \<Rightarrow> (Hash32 \<times> DagNode) list" where
  "get_all_iter a = map (\<lambda>(h, i). (h, the (map_of (slab a) i))) (hash_to_index a)"

definition retain :: "Hash32 set \<Rightarrow> DagArena \<Rightarrow> nat \<times> DagArena" where
  "retain keep a =
     (let to_remove = filter (\<lambda>(h, i). h \<notin> keep) (hash_to_index a)
      in (length to_remove,
          foldl (\<lambda>a (h, i). a\<lparr>hash_to_index := AList.delete h (hash_to_index a),
                              slab := AList.delete i (slab a)\<rparr>) a to_remove))"

definition arena_clear :: "DagArena \<Rightarrow> DagArena" where
  "arena_clear a = \<lparr>slab = [], hash_to_index = []\<rparr>"

section \<open>The invariant\<close>

definition vacant_key :: "(nat list \<Rightarrow> nat) \<Rightarrow> bool" where
  "vacant_key vacant \<longleftrightarrow> (\<forall>ks. vacant ks \<notin> set ks)"

text \<open>The index is a bijection between the stored hashes and the occupied keys.\<close>

definition arena_ok :: "DagArena \<Rightarrow> bool" where
  "arena_ok a \<longleftrightarrow> distinct (map fst (slab a)) \<and> distinct (map fst (hash_to_index a))
     \<and> distinct (map snd (hash_to_index a)) \<and> set (map snd (hash_to_index a)) = set (map fst (slab a))"

lemma arena_ok_new [simp]: "arena_ok arena_new"
  by (simp add: arena_ok_def arena_new_def)

lemma arena_ok_clear [simp]: "arena_ok (arena_clear a)"
  by (simp add: arena_ok_def arena_clear_def)

lemma update_new: "k \<notin> fst ` set xs \<Longrightarrow> AList.update k v xs = xs @ [(k, v)]"
  by (induction xs) auto

lemma index_occupied:
  assumes "arena_ok a" "map_of (hash_to_index a) h = Some i"
  shows "get_by_index a i \<noteq> None"
proof -
  have "i \<in> set (map snd (hash_to_index a))" using map_of_SomeD [OF assms(2)] by force
  then show ?thesis using assms(1) by (auto simp: arena_ok_def get_by_index_def map_of_eq_None_iff)
qed

lemma vacantD: "vacant_key vacant \<Longrightarrow> vacant (map fst xs) \<notin> fst ` set xs"
  by (metis list.set_map vacant_key_def)

lemma arena_insert_new:
  assumes "vacant_key vacant" "arena_ok a" "map_of (hash_to_index a) h = None"
  shows "snd (arena_insert vacant h n a) =
    \<lparr>slab = slab a @ [(vacant (map fst (slab a)), n)],
     hash_to_index = hash_to_index a @ [(h, vacant (map fst (slab a)))]\<rparr>"
proof -
  have "vacant (map fst (slab a)) \<notin> fst ` set (slab a)"
    using vacantD [OF assms(1)] .
  moreover have "h \<notin> fst ` set (hash_to_index a)" using assms(3) by (simp add: map_of_eq_None_iff)
  ultimately show ?thesis using assms(3) by (simp add: arena_insert_def Let_def update_new)
qed

lemma arena_ok_insert:
  assumes "vacant_key vacant" "arena_ok a"
  shows "arena_ok (snd (arena_insert vacant h n a))"
proof (cases "map_of (hash_to_index a) h")
  case None
  moreover have "vacant (map fst (slab a)) \<notin> fst ` set (slab a)"
    using vacantD [OF assms(1)] .
  ultimately show ?thesis
    using assms by (auto simp: arena_insert_new [OF assms None] arena_ok_def map_of_eq_None_iff)
qed (use assms in \<open>simp add: arena_insert_def\<close>)

lemma lookup_insert:
  assumes "vacant_key vacant" "arena_ok a"
  shows "get_by_hash (snd (arena_insert vacant h n a)) =
    (if get_by_hash a h = None then (get_by_hash a)(h \<mapsto> n) else get_by_hash a)"
proof (cases "map_of (hash_to_index a) h")
  case None
  let ?i = "vacant (map fst (slab a))"
  have i: "?i \<notin> fst ` set (slab a)" using vacantD [OF assms(1)] .
  have "get_by_hash (snd (arena_insert vacant h n a)) k = ((get_by_hash a)(h \<mapsto> n)) k" for k
  proof (cases "map_of (hash_to_index a) k")
    case None
    then show ?thesis using i \<open>map_of (hash_to_index a) h = None\<close>
      by (simp add: arena_insert_new [OF assms \<open>map_of (hash_to_index a) h = None\<close>] get_by_hash_def
          map_add_def map_of_eq_None_iff [symmetric])
  next
    case (Some j)
    then have "k \<noteq> h" using \<open>map_of (hash_to_index a) h = None\<close> by auto
    moreover have "\<exists>m. map_of (slab a) j = Some m"
      using index_occupied [OF assms(2) Some] by (simp add: get_by_index_def)
    ultimately show ?thesis using Some
      by (auto simp: arena_insert_new [OF assms \<open>map_of (hash_to_index a) h = None\<close>] get_by_hash_def map_add_def)
  qed
  then show ?thesis using None by (auto simp: get_by_hash_def)
next
  case (Some i)
  then show ?thesis by (simp add: arena_insert_def get_by_hash_def)
qed

text \<open>One turn of the removal loop.\<close>

abbreviation arena_remove :: "DagArena \<Rightarrow> Hash32 \<times> nat \<Rightarrow> DagArena" where
  "arena_remove a x \<equiv> (case x of (h, i) \<Rightarrow>
     a\<lparr>hash_to_index := AList.delete h (hash_to_index a), slab := AList.delete i (slab a)\<rparr>)"

lemma distinct_snd_eq:
  "distinct (map snd xs) \<Longrightarrow> (h, i) \<in> set xs \<Longrightarrow> (k, i) \<in> set xs \<Longrightarrow> h = k"
  by (induction xs) (auto simp: rev_image_eqI)

lemma set_delete_entry:
  assumes "distinct (map fst xs)" "(h, i) \<in> set xs"
  shows "set (AList.delete h xs) = set xs - {(h, i)}"
  using assms by (auto simp: AList.delete_eq eq_key_imp_eq_value)

lemma arena_remove_step:
  assumes ok: "arena_ok a" and x: "(h, i) \<in> set (hash_to_index a)"
  shows "arena_ok (arena_remove a (h, i))"
    and "get_by_hash (arena_remove a (h, i)) = (get_by_hash a)(h := None)"
proof -
  have d: "distinct (map fst (slab a))" "distinct (map fst (hash_to_index a))"
    "distinct (map snd (hash_to_index a))" "snd ` set (hash_to_index a) = fst ` set (slab a)"
    using ok by (simp_all add: arena_ok_def)
  have entries: "set (AList.delete h (hash_to_index a)) = set (hash_to_index a) - {(h, i)}"
    by (rule set_delete_entry [OF d(2) x])
  have dd: "distinct (map snd (AList.delete h (hash_to_index a)))"
    using d(3) by (simp add: AList.delete_eq distinct_map_filter)
  have "snd ` (set (hash_to_index a) - {(h, i)}) = snd ` set (hash_to_index a) - {i}"
    using inj_on_image_set_diff [of snd "set (hash_to_index a)" "set (hash_to_index a)" "{(h, i)}"] d(3) x
    by (simp add: distinct_map)
  moreover have "fst ` set (AList.delete i (slab a)) = fst ` set (slab a) - {i}"
    by (auto simp: AList.delete_eq)
  ultimately have "snd ` set (AList.delete h (hash_to_index a)) = fst ` set (AList.delete i (slab a))"
    using entries d(4) by simp
  then show "arena_ok (arena_remove a (h, i))"
    using d(1,2) dd by (simp add: arena_ok_def AList.distinct_delete)
  have "get_by_hash (arena_remove a (h, i)) k = ((get_by_hash a)(h := None)) k" for k
  proof (cases "k = h \<or> map_of (hash_to_index a) k = None")
    case False
    then obtain j where j: "map_of (hash_to_index a) k = Some j" "k \<noteq> h" by auto
    then have "j \<noteq> i" using distinct_snd_eq [OF d(3) x] map_of_SomeD by metis
    with j show ?thesis by (simp add: get_by_hash_def AList.delete_conv)
  qed (auto simp: get_by_hash_def AList.delete_conv)
  then show "get_by_hash (arena_remove a (h, i)) = (get_by_hash a)(h := None)" ..
qed

lemma retain_fold:
  assumes "arena_ok a" "set xs \<subseteq> set (hash_to_index a)" "distinct (map fst xs)"
  shows "arena_ok (foldl arena_remove a xs) \<and>
    get_by_hash (foldl arena_remove a xs) = get_by_hash a |` (- fst ` set xs)"
  using assms
proof (induction xs arbitrary: a)
  case (Cons x xs)
  obtain h i where x: "x = (h, i)" by fastforce
  have mem: "(h, i) \<in> set (hash_to_index a)" using Cons.prems(2) x by simp
  note step = arena_remove_step [OF Cons.prems(1) mem]
  have "set xs \<subseteq> set (hash_to_index (arena_remove a (h, i)))"
    using Cons.prems x by (force simp: AList.delete_eq)
  then have "arena_ok (foldl arena_remove (arena_remove a (h, i)) xs) \<and>
    get_by_hash (foldl arena_remove (arena_remove a (h, i)) xs) =
      get_by_hash (arena_remove a (h, i)) |` (- fst ` set xs)"
    using Cons.prems x step by (intro Cons.IH) simp_all
  then show ?case unfolding x step(2) by (auto simp: restrict_map_def fun_eq_iff)
qed (simp add: restrict_map_def)

lemma dom_get_by_hash: "dom (get_by_hash a) = fst ` set (hash_to_index a)"
  by (auto simp: get_by_hash_def dom_map_of_conv_image_fst [symmetric] split: option.splits)

lemma retain_correct:
  assumes "arena_ok a"
  shows "arena_ok (snd (retain keep a))" "get_by_hash (snd (retain keep a)) = get_by_hash a |` keep"
    and "fst (retain keep a) = card (dom (get_by_hash a) - keep)"
proof -
  let ?xs = "filter (\<lambda>(h, i). h \<notin> keep) (hash_to_index a)"
  have d: "distinct (map fst ?xs)"
    using assms by (simp add: arena_ok_def distinct_map_filter)
  have fold: "arena_ok (foldl arena_remove a ?xs) \<and>
      get_by_hash (foldl arena_remove a ?xs) = get_by_hash a |` (- fst ` set ?xs)"
    by (rule retain_fold [OF assms _ d]) auto
  have keys: "fst ` set ?xs = dom (get_by_hash a) - keep"
    by (force simp: dom_get_by_hash)
  then have "get_by_hash a |` (- fst ` set ?xs) = get_by_hash a |` keep"
    by (auto simp: restrict_map_def fun_eq_iff)
  with fold show "arena_ok (snd (retain keep a))" "get_by_hash (snd (retain keep a)) = get_by_hash a |` keep"
    by (simp_all add: retain_def Let_def)
  show "fst (retain keep a) = card (dom (get_by_hash a) - keep)"
    using d keys by (metis (no_types, lifting) distinct_card fst_conv length_map list.set_map retain_def Let_def)
qed

section \<open>The interface of a node store\<close>

text \<open>
  What the DAG engine relies on: insertion keeps what is stored under a hash, retaining restricts to
  the given hashes, iteration lists every entry once. The client lemmas are about adding many nodes,
  as merging and recovery do.
\<close>

locale node_store =
  fixes lookup :: "'a \<Rightarrow> Hash32 \<Rightarrow> DagNode option" and add :: "Hash32 \<Rightarrow> DagNode \<Rightarrow> 'a \<Rightarrow> 'a"
    and keep_only :: "Hash32 set \<Rightarrow> 'a \<Rightarrow> 'a" and entries :: "'a \<Rightarrow> (Hash32 \<times> DagNode) list"
    and ok :: "'a \<Rightarrow> bool" and lawful :: bool
  assumes ok_add: "lawful \<Longrightarrow> ok a \<Longrightarrow> ok (add h n a)"
    and ok_keep: "ok a \<Longrightarrow> ok (keep_only K a)"
    and lookup_add: "lawful \<Longrightarrow> ok a \<Longrightarrow>
      lookup (add h n a) = (if lookup a h = None then (lookup a)(h \<mapsto> n) else lookup a)"
    and lookup_keep: "ok a \<Longrightarrow> lookup (keep_only K a) = lookup a |` K"
    and entries: "ok a \<Longrightarrow> map_of (entries a) = lookup a \<and> distinct (map fst (entries a))"
begin

definition add_all :: "(Hash32 \<times> DagNode) list \<Rightarrow> 'a \<Rightarrow> 'a" where
  "add_all xs a = foldl (\<lambda>a (h, n). add h n a) a xs"

lemma ok_add_all: "lawful \<Longrightarrow> ok a \<Longrightarrow> ok (add_all xs a)"
  unfolding add_all_def by (induction xs arbitrary: a) (auto simp: ok_add)

text \<open>The first node under a hash stays.\<close>

lemma lookup_add_all: "lawful \<Longrightarrow> ok a \<Longrightarrow> lookup (add_all xs a) = map_of xs ++ lookup a"
  unfolding add_all_def
  by (induction xs arbitrary: a) (auto simp: ok_add lookup_add map_add_def fun_eq_iff split: option.splits)

lemma finite_dom: "ok a \<Longrightarrow> finite (dom (lookup a))"
  using entries by (metis finite_dom_map_of)

lemma set_entries: "ok a \<Longrightarrow> set (entries a) = {(h, n). lookup a h = Some n}"
  using entries [of a] by (auto simp: map_of_eq_Some_iff [symmetric])

end

interpretation arena: node_store get_by_hash "\<lambda>h n a. snd (arena_insert vacant h n a)"
  "\<lambda>K a. snd (retain K a)" get_all_iter arena_ok "vacant_key vacant" for vacant
proof unfold_locales
  fix a assume ok: "arena_ok a"
  have "map_of (get_all_iter a) = (\<lambda>h. map_option (\<lambda>i. the (map_of (slab a) i)) (map_of (hash_to_index a) h))"
    using map_of_map [of "\<lambda>i. the (map_of (slab a) i)" "hash_to_index a"]
    by (simp add: get_all_iter_def comp_def fun_eq_iff)
  then have "map_of (get_all_iter a) = get_by_hash a"
    by (simp add: get_by_hash_def fun_eq_iff option.case_eq_if map_option_case)
  moreover have "map fst (get_all_iter a) = map fst (hash_to_index a)"
    by (simp add: get_all_iter_def comp_def case_prod_beta)
  ultimately show "map_of (get_all_iter a) = get_by_hash a \<and> distinct (map fst (get_all_iter a))"
    using ok by (simp add: arena_ok_def)
qed (simp_all only: arena_ok_insert lookup_insert retain_correct)

lemma arena_contains_iff: "arena_contains a h \<longleftrightarrow> get_by_hash a h \<noteq> None"
  by (auto simp: arena_contains_def get_by_hash_def split: option.splits)

lemma arena_len_card: "arena_ok a \<Longrightarrow> arena_len a = card (dom (get_by_hash a))"
proof -
  assume ok: "arena_ok a"
  have "length (slab a) = card (fst ` set (slab a))"
    using ok by (metis arena_ok_def distinct_card length_map list.set_map)
  also have "\<dots> = length (hash_to_index a)"
    using ok by (metis arena_ok_def distinct_card length_map list.set_map)
  also have "\<dots> = card (fst ` set (hash_to_index a))"
    using ok by (metis arena_ok_def distinct_card length_map list.set_map)
  finally show ?thesis by (simp add: arena_len_def dom_get_by_hash)
qed

lemma arena_remove_finite: "finite (dom (get_by_hash a))"
  by (simp add: dom_get_by_hash)

definition next_key :: "nat list \<Rightarrow> nat" where
  "next_key ks = Suc (foldr max ks 0)"

lemma vacant_next_key [simp]: "vacant_key next_key"
proof -
  have "k \<in> set ks \<Longrightarrow> k \<le> foldr max ks 0" for k and ks :: "nat list"
    by (induction ks) auto
  then show ?thesis unfolding vacant_key_def next_key_def by (metis Suc_n_not_le_n)
qed

end
