(* ===== verification/Node_Config.thy ===== *)
theory Node_Config
  imports Prelude
begin

text \<open>
  What the replication layer shares: the configuration and its constants (\<open>aimp_node/src/config.rs\<close>),
  the error types (\<open>error.rs\<close>, \<open>crypto/identity.rs\<close>, \<open>protocol/de_ser.rs\<close>) and the system events
  (\<open>event.rs\<close>). An error of a library is the text it displays. The loader of the configuration is
  the third-party crate \<open>config\<close>: \<open>AimpConfig::new\<close> gets what the crate deserializes as the
  parameter \<open>loaded\<close>.
\<close>

section \<open>Configuration\<close>

definition PROTOCOL_VERSION :: u8 where "PROTOCOL_VERSION = 1"
definition MIN_PROTOCOL_VERSION :: u8 where "MIN_PROTOCOL_VERSION = 1"
definition GC_MUTATION_THRESHOLD :: u64 where "GC_MUTATION_THRESHOLD = 1000"
definition GOSSIP_LRU_SIZE :: nat where "GOSSIP_LRU_SIZE = 1000"
definition NETWORK_BACKPRESSURE_LIMIT :: nat where "NETWORK_BACKPRESSURE_LIMIT = 100"
definition PEER_FAILURE_THRESHOLD :: u32 where "PEER_FAILURE_THRESHOLD = 5"
definition SESSION_MAX_COUNT :: nat where "SESSION_MAX_COUNT = 256"
definition SESSION_TTL_SECS :: u64 where "SESSION_TTL_SECS = 300"
definition DAG_HISTORY_DEPTH :: u32 where "DAG_HISTORY_DEPTH = 100"

record AimpConfig =
  cfg_port :: u16
  network_log_capacity :: nat
  max_visible_logs :: nat
  dag_history_depth :: u32
  node_name :: "string option"
  metrics_port :: u16
  quorum_threshold :: nat
  gc_mutation_threshold :: u64
  noise_required :: bool
  peer_rate_limit :: u64
  peer_rate_burst :: u64

definition config_defaults :: AimpConfig where
  "config_defaults = \<lparr>cfg_port = 1337, network_log_capacity = 500, max_visible_logs = 20,
     dag_history_depth = 100, node_name = None, metrics_port = 9090, quorum_threshold = 2,
     gc_mutation_threshold = 1000, noise_required = True, peer_rate_limit = 50, peer_rate_burst = 100\<rparr>"

definition validate :: "AimpConfig \<Rightarrow> string + unit" where
  "validate c =
     (if quorum_threshold c = 0 then Inl ''quorum_threshold must be > 0''
      else if dag_history_depth c = 0 then Inl ''dag_history_depth must be > 0''
      else if gc_mutation_threshold c = 0 then Inl ''gc_mutation_threshold must be > 0''
      else if peer_rate_limit c = 0 then Inl ''peer_rate_limit must be > 0''
      else if peer_rate_burst c = 0 then Inl ''peer_rate_burst must be > 0''
      else Inr ())"

definition config_new :: "string + AimpConfig \<Rightarrow> string + AimpConfig" where
  "config_new loaded =
     (case loaded of
        Inl e \<Rightarrow> Inl e
      | Inr cfg \<Rightarrow> (case validate cfg of Inl e \<Rightarrow> Inl e | Inr _ \<Rightarrow> Inr cfg))"

text \<open>A configuration that the loader accepts is usable: no threshold or rate is zero.\<close>

lemma config_new_positive:
  "config_new loaded = Inr cfg \<longleftrightarrow> loaded = Inr cfg \<and> quorum_threshold cfg \<noteq> 0 \<and> dag_history_depth cfg \<noteq> 0
     \<and> gc_mutation_threshold cfg \<noteq> 0 \<and> peer_rate_limit cfg \<noteq> 0 \<and> peer_rate_burst cfg \<noteq> 0"
  by (auto simp: config_new_def validate_def split: sum.splits if_splits)

lemma config_defaults_valid: "config_new (Inr config_defaults) = Inr config_defaults"
  by (simp add: config_new_positive config_defaults_def)

section \<open>Errors\<close>

datatype CryptoError = SerializationError | InvalidSignature | InvalidPublicKey

datatype ParserError = EncodeFail string | DecodeFail string | InvalidSize

datatype AimpError =
    Crypto CryptoError
  | Protocol ParserError
  | Storage string
  | Network string
  | Config string
  | Encryption string
  | Inference string

type_synonym 'a AimpResult = "AimpError + 'a"

text \<open>The \<open>From\<close> implementations for the errors of the database and of the serializer.\<close>

definition from_redb :: "string \<Rightarrow> AimpError" where "from_redb e = Storage e"
definition from_encode :: "string \<Rightarrow> AimpError" where "from_encode e = Protocol (EncodeFail e)"
definition from_decode :: "string \<Rightarrow> AimpError" where "from_decode e = Protocol (DecodeFail e)"

section \<open>System events\<close>

datatype SystemEvent =
    SecurityDrop (peer: string) (reason: string)
  | MutationCommitted (committed_hash: string) (author: string)
  | StateMerged (nodes_added: nat)
  | GarbageCollection (nodes_pruned: nat) (remaining: nat)
  | EvAiInference (inference_prompt: string) (inference_decision: string)
  | Status string

fun decimal :: "nat \<Rightarrow> string" where
  "decimal n = (if n < 10 then [char_of (48 + n)] else decimal (n div 10) @ [char_of (48 + n mod 10)])"

declare decimal.simps [simp del]

text \<open>\<open>&hash[..8]\<close> panics on a shorter string; \<open>None\<close> stands for the panic.\<close>

definition to_display :: "SystemEvent \<Rightarrow> string option" where
  "to_display ev =
     (case ev of
        SecurityDrop p r \<Rightarrow> Some (''[SECURITY] Blocked '' @ p @ '': '' @ r)
      | MutationCommitted h a \<Rightarrow>
          if length h < 8 then None else Some (''[AE] Committed '' @ take 8 h @ '' by '' @ a)
      | StateMerged n \<Rightarrow> Some (''[SYNC] Merged '' @ decimal n @ '' nodes'')
      | GarbageCollection n _ \<Rightarrow> Some (''[GC] Pruned '' @ decimal n @ '' orphan nodes'')
      | EvAiInference _ d \<Rightarrow> Some (''[AI] Decision: '' @ d)
      | Status m \<Rightarrow> Some (''[SYS] '' @ m))"

end
