(* ===== verification/Store.thy ===== *)
theory Store
  imports Dag_Node Node_Config
begin

text \<open>
  The persistent store (\<open>aimp_node/src/crdt/store.rs\<close>). Third-party code enters as the parameters of
  the record \<open>platform\<close>: BLAKE3, the key choice of the slab, hexadecimal encoding, HKDF, the AEAD cipher and the
  MessagePack codec of nodes. The database \<open>redb\<close> is the committed content of its table, in key
  order, or \<open>None\<close> while the table was never created; a transaction fails with the storage error
  that the environment reports (\<open>io\<close>) and then changes nothing.
\<close>

section \<open>The code\<close>

record platform =
  blake :: blake3
  vacant :: "nat list \<Rightarrow> nat"
  hex_encode :: "bytes \<Rightarrow> string"
  hkdf :: "bytes \<Rightarrow> bytes \<Rightarrow> bytes \<Rightarrow> bytes option"
  encrypt :: "bytes \<Rightarrow> bytes \<Rightarrow> bytes \<Rightarrow> bytes option"
  decrypt :: "bytes \<Rightarrow> bytes \<Rightarrow> bytes \<Rightarrow> bytes option"
  to_vec :: "DagNode \<Rightarrow> string + bytes"
  from_slice :: "bytes \<Rightarrow> string + DagNode"

record PersistentStore =
  db :: "(bytes \<times> bytes) list option"
  cipher :: bytes

definition HKDF_SALT :: bytes where "HKDF_SALT = ascii ''aimp-store-v1''"

text \<open>\<open>existing\<close> is what creating the directory and then opening the database file yield.\<close>

datatype open_error = DirError string | DbError string

definition store_open ::
  "platform \<Rightarrow> open_error + (bytes \<times> bytes) list option \<Rightarrow> bytes \<Rightarrow> PersistentStore AimpResult" where
  "store_open P existing ikm =
     (case existing of
        Inl (DirError e) \<Rightarrow> Inl (Network e)
      | Inl (DbError e) \<Rightarrow> Inl (from_redb e)
      | Inr content \<Rightarrow>
          (case hkdf P HKDF_SALT ikm (ascii ''aimp-chacha20poly1305'') of
             None \<Rightarrow> Inl (Encryption ''HKDF expand failed'')
           | Some key \<Rightarrow> Inr \<lparr>db = content, cipher = key\<rparr>))"

definition nonce_of :: "Hash32 \<Rightarrow> bytes" where
  "nonce_of h = take 12 h"

definition save_node ::
  "platform \<Rightarrow> string option \<Rightarrow> Hash32 \<Rightarrow> DagNode \<Rightarrow> PersistentStore \<Rightarrow> PersistentStore AimpResult" where
  "save_node P io h n s =
     (case to_vec P n of
        Inl e \<Rightarrow> Inl (from_encode e)
      | Inr plaintext \<Rightarrow>
          (case encrypt P (cipher s) (nonce_of h) plaintext of
             None \<Rightarrow> Inl (Encryption ''ChaCha20Poly1305 encrypt failed'')
           | Some ciphertext \<Rightarrow>
               (case io of
                  Some e \<Rightarrow> Inl (from_redb e)
                | None \<Rightarrow>
                    let table = (case db s of None \<Rightarrow> [] | Some t \<Rightarrow> t)
                    in Inr (s\<lparr>db := Some (bt_entry h ciphertext (\<lambda>_. ciphertext) table)\<rparr>))))"

definition load_node ::
  "platform \<Rightarrow> string option \<Rightarrow> PersistentStore \<Rightarrow> Hash32 \<Rightarrow> DagNode option AimpResult" where
  "load_node P io s h =
     (case io of
        Some e \<Rightarrow> Inl (from_redb e)
      | None \<Rightarrow>
          (case db s of
             None \<Rightarrow> Inl (from_redb ''Table 'dag_nodes' does not exist'')
           | Some table \<Rightarrow>
               (case map_of table h of
                  None \<Rightarrow> Inr None
                | Some ciphertext \<Rightarrow>
                    (case decrypt P (cipher s) (nonce_of h) ciphertext of
                       None \<Rightarrow> Inl (Encryption ''Decryption failed: invalid key or data'')
                     | Some plaintext \<Rightarrow>
                         (case from_slice P plaintext of
                            Inl e \<Rightarrow> Inl (from_decode e)
                          | Inr n \<Rightarrow> Inr (Some n))))))"

text \<open>The loop of \<open>load_batched\<close>: rows that do not decrypt or decode are skipped. The callback is
  called on the batches of the result, in order.\<close>

definition decode_row :: "platform \<Rightarrow> bytes \<Rightarrow> bytes \<times> bytes \<Rightarrow> (Hash32 \<times> DagNode) option" where
  "decode_row P key row =
     (case row of (k, v) \<Rightarrow>
        if length k \<noteq> 32 then None
        else case decrypt P key (nonce_of k) v of
          None \<Rightarrow> None
        | Some plaintext \<Rightarrow> (case from_slice P plaintext of Inl _ \<Rightarrow> None | Inr n \<Rightarrow> Some (k, n)))"

definition batch_step ::
  "platform \<Rightarrow> bytes \<Rightarrow> nat \<Rightarrow> (Hash32 \<times> DagNode) list \<times> (Hash32 \<times> DagNode) list list \<Rightarrow> bytes \<times> bytes
    \<Rightarrow> (Hash32 \<times> DagNode) list \<times> (Hash32 \<times> DagNode) list list" where
  "batch_step P key batch_size st row =
     (case st of (batch, calls) \<Rightarrow>
        case decode_row P key row of
          None \<Rightarrow> (batch, calls)
        | Some entry \<Rightarrow>
            let batch = batch @ [entry]
            in if length batch \<ge> batch_size then ([], calls @ [batch]) else (batch, calls))"

definition load_batched ::
  "platform \<Rightarrow> string option \<Rightarrow> nat \<Rightarrow> PersistentStore \<Rightarrow> (Hash32 \<times> DagNode) list list" where
  "load_batched P io batch_size s =
     (case (io, db s) of
        (None, Some table) \<Rightarrow>
          let (batch, calls) = foldl (batch_step P (cipher s) batch_size) ([], []) table
          in if batch \<noteq> [] then calls @ [batch] else calls
      | _ \<Rightarrow> [])"

definition load_all :: "platform \<Rightarrow> string option \<Rightarrow> PersistentStore \<Rightarrow> (Hash32 \<times> DagNode) list" where
  "load_all P io s = foldl (\<lambda>results batch. results @ batch) [] (load_batched P io 4096 s)"

definition flush :: "PersistentStore \<Rightarrow> unit AimpResult" where
  "flush s = Inr ()"

section \<open>What is stored is what is read\<close>

text \<open>Documented behaviour of the libraries: decryption inverts encryption under the same key and
  nonce, and decoding inverts encoding.\<close>

definition cipher_ok :: "platform \<Rightarrow> bool" where
  "cipher_ok P \<longleftrightarrow> (\<forall>k nonce p c. encrypt P k nonce p = Some c \<longrightarrow> decrypt P k nonce c = Some p)"

definition codec_ok :: "platform \<Rightarrow> bool" where
  "codec_ok P \<longleftrightarrow> (\<forall>n b. to_vec P n = Inr b \<longrightarrow> from_slice P b = Inr n)"

text \<open>The rows of a table as the map from hashes to the nodes that can be read.\<close>

definition stored :: "platform \<Rightarrow> PersistentStore \<Rightarrow> Hash32 \<Rightarrow> DagNode option" where
  "stored P s h = (case load_node P None s h of Inr (Some n) \<Rightarrow> Some n | _ \<Rightarrow> None)"

definition readable :: "platform \<Rightarrow> bytes \<Rightarrow> Hash32 \<Rightarrow> bytes \<Rightarrow> DagNode option" where
  "readable P key h c =
     Option.bind (decrypt P key (nonce_of h) c) (\<lambda>b. case from_slice P b of Inl _ \<Rightarrow> None | Inr n \<Rightarrow> Some n)"

lemma stored_eq:
  "stored P s h = (case db s of None \<Rightarrow> None | Some t \<Rightarrow> Option.bind (map_of t h) (readable P (cipher s) h))"
  by (auto simp: stored_def load_node_def readable_def split: option.splits sum.splits)

lemma decode_row_eq:
  "decode_row P key (k, v) = (if length k = 32 then map_option (Pair k) (readable P key k v) else None)"
  by (auto simp: decode_row_def readable_def split: option.splits sum.splits)

definition store_wf :: "PersistentStore \<Rightarrow> bool" where
  "store_wf s \<longleftrightarrow> (case db s of None \<Rightarrow> True | Some t \<Rightarrow> bt_sorted t)"

lemma save_node_cases:
  assumes "save_node P io h n s = Inr s'" "store_wf s"
  obtains b c where "to_vec P n = Inr b" "encrypt P (cipher s) (nonce_of h) b = Some c" "io = None"
    "cipher s' = cipher s" "store_wf s'" "db s' \<noteq> None"
    "map_of (the (db s')) = (map_of (case db s of None \<Rightarrow> [] | Some t \<Rightarrow> t))(h \<mapsto> c)"
proof -
  obtain b c where bc: "to_vec P n = Inr b" "encrypt P (cipher s) (nonce_of h) b = Some c" "io = None"
    and s': "s' = s\<lparr>db := Some (bt_entry h c (\<lambda>_. c) (case db s of None \<Rightarrow> [] | Some t \<Rightarrow> t))\<rparr>"
    using assms(1) by (auto simp: save_node_def Let_def split: sum.splits option.splits)
  have wf: "bt_sorted (case db s of None \<Rightarrow> [] | Some t \<Rightarrow> t)"
    using assms(2) by (simp add: store_wf_def split: option.splits)
  show ?thesis
  proof (rule that [OF bc])
    show "map_of (the (db s')) = (map_of (case db s of None \<Rightarrow> [] | Some t \<Rightarrow> t))(h \<mapsto> c)"
      unfolding s' using bt_entry_lookup [OF wf]
      by (simp add: fun_eq_iff split: option.splits)
    show "store_wf s'" unfolding s' using bt_entry_sorted [OF wf] by (simp add: store_wf_def)
  qed (simp_all add: s')
qed

lemma stored_save:
  assumes "cipher_ok P" "codec_ok P" "save_node P io h n s = Inr s'" "store_wf s"
  shows "stored P s' = (stored P s)(h \<mapsto> n)"
proof (rule save_node_cases [OF assms(3,4)])
  fix b c
  assume a: "to_vec P n = Inr b" "encrypt P (cipher s) (nonce_of h) b = Some c" "io = None"
    "cipher s' = cipher s" "store_wf s'" "db s' \<noteq> None"
    "map_of (the (db s')) = (map_of (case db s of None \<Rightarrow> [] | Some t \<Rightarrow> t))(h \<mapsto> c)"
  have "readable P (cipher s) h c = Some n"
    using a(1,2) assms(1,2) by (auto simp: cipher_ok_def codec_ok_def readable_def)
  then have "stored P s' k = ((stored P s)(h \<mapsto> n)) k" for k
    using a(4,6,7) by (cases "db s") (auto simp: stored_eq)
  then show ?thesis ..
qed

lemma batch_step_simps:
  "decode_row P key row = None \<Longrightarrow> batch_step P key m (batch, calls) row = (batch, calls)"
  "decode_row P key row = Some x \<Longrightarrow> batch_step P key m (batch, calls) row =
     (if m \<le> Suc (length batch) then ([], calls @ [batch @ [x]]) else (batch @ [x], calls))"
  by (simp_all add: batch_step_def Let_def)

lemma batch_fold:
  "foldl (batch_step P key m) (batch, calls) rows = (batch', calls') \<Longrightarrow>
   concat calls' @ batch' = concat calls @ batch @ List.map_filter (decode_row P key) rows"
proof (induction rows arbitrary: batch calls)
  case (Cons row rows)
  show ?case
  proof (cases "decode_row P key row")
    case None
    then show ?thesis using Cons by (simp add: batch_step_simps List.map_filter_simps)
  next
    case (Some x)
    let ?b = "batch @ [x]"
    show ?thesis
      using Cons.prems Some Cons.IH [of "[]" "calls @ [?b]"] Cons.IH [of ?b calls]
      by (simp add: batch_step_simps List.map_filter_simps split: if_splits)
  qed
qed (simp add: List.map_filter_simps)

lemma concat_load_batched:
  "concat (load_batched P io m s) =
     (case (io, db s) of (None, Some t) \<Rightarrow> List.map_filter (decode_row P (cipher s)) t | _ \<Rightarrow> [])"
proof (cases "io = None \<and> db s \<noteq> None")
  case True
  then obtain t where t: "db s = Some t" "io = None" by auto
  obtain batch calls where f: "foldl (batch_step P (cipher s) m) ([], []) t = (batch, calls)"
    by fastforce
  then have "concat (load_batched P io m s) = concat calls @ batch"
    using t by (simp add: load_batched_def)
  then show ?thesis using t batch_fold [OF f] by simp
qed (auto simp: load_batched_def split: option.splits)

lemma load_all_eq: "load_all P io s = concat (load_batched P io 4096 s)"
proof -
  have "foldl (\<lambda>results batch. results @ batch) acc bs = acc @ concat bs"
    for acc :: "(Hash32 \<times> DagNode) list" and bs
    by (induction bs arbitrary: acc) simp_all
  then show ?thesis by (simp add: load_all_def)
qed

text \<open>Loading yields the stored nodes, whatever the batch size.\<close>

lemma set_load_batched:
  assumes "store_wf s" "\<forall>h. stored P s h \<noteq> None \<longrightarrow> length h = 32"
  shows "set (concat (load_batched P None m s)) = {(h, n). stored P s h = Some n}"
proof (cases "db s")
  case (Some t)
  then have d: "distinct (map fst t)" using assms(1) by (simp add: store_wf_def bt_sorted_distinct)
  have mem: "map_of t h = Some v \<longleftrightarrow> (h, v) \<in> set t" for h v
    using map_of_eq_Some_iff [OF d] by blast
  have "(h, n) \<in> set (List.map_filter (decode_row P (cipher s)) t) \<longleftrightarrow> stored P s h = Some n" for h n
  proof -
    have "(h, n) \<in> set (List.map_filter (decode_row P (cipher s)) t) \<longleftrightarrow>
        (\<exists>v. (h, v) \<in> set t \<and> length h = 32 \<and> readable P (cipher s) h v = Some n)"
      by (force simp: List.map_filter_def decode_row_eq image_iff split: if_splits)
    also have "\<dots> \<longleftrightarrow> length h = 32 \<and> stored P s h = Some n"
      using Some by (auto simp: stored_eq mem bind_eq_Some_conv)
    finally show ?thesis using assms(2) by blast
  qed
  then show ?thesis using Some by (auto simp: concat_load_batched)
qed (auto simp: concat_load_batched stored_eq)

text \<open>
  A node that was saved is read back, by its hash and by a full load in batches of any size,
  and saving it changes nothing that was stored under other hashes.
\<close>

theorem save_load_roundtrip:
  assumes "cipher_ok P" "codec_ok P" "store_wf s" "save_node P io h n s = Inr s'" "length h = 32"
    and "\<forall>k. stored P s k \<noteq> None \<longrightarrow> length k = 32"
  shows "load_node P None s' h = Inr (Some n) \<and> (\<forall>k. k \<noteq> h \<longrightarrow> stored P s' k = stored P s k)
    \<and> set (concat (load_batched P None m s')) = {(k, x). ((stored P s)(h \<mapsto> n)) k = Some x}"
proof -
  note sv = stored_save [OF assms(1,2,4,3)]
  have wf: "store_wf s'" using save_node_cases [OF assms(4,3)] by metis
  have "load_node P None s' h = Inr (Some n)"
    using fun_cong [OF sv, of h] by (auto simp: stored_def split: sum.splits option.splits)
  moreover have "set (concat (load_batched P None m s')) = {(k, x). ((stored P s)(h \<mapsto> n)) k = Some x}"
    using set_load_batched [OF wf, of P m] assms(5,6) by (simp add: sv)
  ultimately show ?thesis by (simp add: sv)
qed

text \<open>A platform to evaluate on: a cipher that prepends key and nonce, a codec for the sample nodes.\<close>

definition sample_encode :: "DagNode \<Rightarrow> string + bytes" where
  "sample_encode n =
     (let b = hd (node_signature n) in if n = sample_node [] b then Inr [b] else Inl ''no code'')"

definition sample_decode :: "bytes \<Rightarrow> string + DagNode" where
  "sample_decode bs = (case bs of [b] \<Rightarrow> Inr (sample_node [] b) | _ \<Rightarrow> Inl ''no node'')"

definition hex_digit :: "nat \<Rightarrow> char" where
  "hex_digit k = ''0123456789abcdef'' ! k"

definition sample_platform :: platform where
  "sample_platform = \<lparr>blake = sample_hash, vacant = \<lambda>ks. Suc (foldr max ks 0),
     hex_encode = \<lambda>bs. concat (map (\<lambda>b. [hex_digit (unat b div 16), hex_digit (unat b mod 16)]) bs),
     hkdf = \<lambda>salt ikm info. Some ikm,
     encrypt = \<lambda>k nonce p. Some (k @ nonce @ p),
     decrypt = \<lambda>k nonce c. if take (length (k @ nonce)) c = k @ nonce then Some (drop (length (k @ nonce)) c) else None,
     to_vec = sample_encode, from_slice = sample_decode\<rparr>"

lemma sample_platform_ok: "cipher_ok sample_platform" "codec_ok sample_platform"
proof -
  show "cipher_ok sample_platform" by (simp add: cipher_ok_def sample_platform_def)
  show "codec_ok sample_platform"
    by (auto simp: codec_ok_def sample_platform_def sample_encode_def sample_decode_def Let_def split: if_splits)
qed

definition empty_store :: PersistentStore where
  "empty_store = \<lparr>db = None, cipher = [1, 2, 3]\<rparr>"

theorem save_load_roundtrip_witness:
  "\<exists>s'. save_node sample_platform None (replicate 32 5) (sample_node [] 1) empty_store = Inr s'
     \<and> load_node sample_platform None s' (replicate 32 5) = Inr (Some (sample_node [] 1))"
proof -
  obtain s' where s': "save_node sample_platform None (replicate 32 5) (sample_node [] 1) empty_store = Inr s'"
    by (simp add: save_node_def sample_platform_def sample_encode_def empty_store_def Let_def sample_node_def)
  have "load_node sample_platform None s' (replicate 32 5) = Inr (Some (sample_node [] 1))"
    using save_load_roundtrip [OF sample_platform_ok _ s'] by (simp add: stored_eq store_wf_def empty_store_def)
  with s' show ?thesis by blast
qed

end
