(* ===== verification/Merkle_Engine.thy ===== *)
theory Merkle_Engine
  imports Arena Store
begin

text \<open>
  The Merkle-DAG engine (\<open>aimp_node/src/crdt/merkle_dag.rs\<close>, lines 62-242) and the epochs
  (\<open>crdt/gc.rs\<close>): appending a mutation, pruning the history, the delta for a peer and the cached
  root. The heads are a hash set; the order in which an operation iterates over it is given by its
  environment (\<open>iter_order\<close>), and the results hold for every order. Depths are \<open>u32\<close> words. A
  \<open>Vec\<close> used as a stack is a list with its top in front.
\<close>

section \<open>The code\<close>

record call_env =
  iter_order :: "Hash32 set \<Rightarrow> Hash32 list"
  io_error :: "string option"

record MerkleCrdtEngine =
  arena :: DagArena
  heads :: "Hash32 set"
  heads_soa :: "Hash32 list"
  mutations_since_gc :: u64
  gc_threshold :: u64
  store :: "PersistentStore option"
  cached_root :: "Hash32 option"

definition with_gc_threshold :: "PersistentStore option \<Rightarrow> u64 \<Rightarrow> MerkleCrdtEngine" where
  "with_gc_threshold s threshold =
     \<lparr>arena = arena_new, heads = {}, heads_soa = [], mutations_since_gc = 0, gc_threshold = threshold,
      store = s, cached_root = None\<rparr>"

definition engine_new :: "PersistentStore option \<Rightarrow> MerkleCrdtEngine" where
  "engine_new s = with_gc_threshold s GC_MUTATION_THRESHOLD"

definition invalidate_root :: "call_env \<Rightarrow> MerkleCrdtEngine \<Rightarrow> MerkleCrdtEngine" where
  "invalidate_root env e = e\<lparr>cached_root := None, heads_soa := iter_order env (heads e)\<rparr>"

text \<open>The parents of a visited node, as they are pushed on the stack.\<close>

definition push_parents :: "DagArena \<Rightarrow> Hash32 \<Rightarrow> u32 \<Rightarrow> (Hash32 \<times> u32) list \<Rightarrow> (Hash32 \<times> u32) list" where
  "push_parents a h depth queue =
     (case get_by_hash a h of
        None \<Rightarrow> queue
      | Some n \<Rightarrow> rev (map (\<lambda>p. (p, depth + 1)) (parents n)) @ queue)"

lemma finite_stored [simp]: "finite (dom (get_by_hash a))"
  by (rule arena_remove_finite)

lemma visit_decreases:
  assumes "h \<notin> keep"
  shows "card (dom (get_by_hash a) - insert h keep) < card (dom (get_by_hash a) - keep)
    \<or> dom (get_by_hash a) - insert h keep = dom (get_by_hash a) - keep
      \<and> push_parents a h depth queue = queue"
proof (cases "get_by_hash a h")
  case None
  then show ?thesis by (auto simp: push_parents_def)
next
  case (Some n)
  then have "dom (get_by_hash a) - insert h keep \<subset> dom (get_by_hash a) - keep" using assms by auto
  then show ?thesis by (simp add: psubset_card_mono)
qed

function mark_loop :: "DagArena \<Rightarrow> Hash32 set \<Rightarrow> (Hash32 \<times> u32) list \<Rightarrow> Hash32 set" where
  "mark_loop a keep [] = keep"
| "mark_loop a keep ((h, depth) # queue) =
     (if h \<in> keep \<or> depth > DAG_HISTORY_DEPTH then mark_loop a keep queue
      else mark_loop a (insert h keep) (push_parents a h depth queue))"
  by pat_completeness auto
termination
proof (relation "inv_image (less_than <*lex*> less_than)
    (\<lambda>(a, keep, queue). (card (dom (get_by_hash a) - keep), length queue))")
  fix a :: DagArena and keep depth queue and h :: Hash32
  assume "\<not> (h \<in> keep \<or> depth > DAG_HISTORY_DEPTH)"
  then show "((a, insert h keep, push_parents a h depth queue), (a, keep, (h, depth) # queue)) \<in>
      inv_image (less_than <*lex*> less_than) (\<lambda>(a, keep, queue). (card (dom (get_by_hash a) - keep), length queue))"
    using visit_decreases [of h keep a depth queue] by auto
qed auto

definition start_queue :: "call_env \<Rightarrow> MerkleCrdtEngine \<Rightarrow> (Hash32 \<times> u32) list" where
  "start_queue env e = rev (map (\<lambda>h. (h, 0)) (iter_order env (heads e)))"

definition compact_history :: "call_env \<Rightarrow> MerkleCrdtEngine \<Rightarrow> MerkleCrdtEngine" where
  "compact_history env e =
     (let keep = mark_loop (arena e) {} (start_queue env e);
          (removed, a) = retain keep (arena e);
          e = e\<lparr>arena := a\<rparr>
      in if removed > 0 then invalidate_root env (e\<lparr>heads := heads e \<inter> keep\<rparr>) else e)"

definition persist :: "platform \<Rightarrow> call_env \<Rightarrow> Hash32 \<Rightarrow> DagNode \<Rightarrow> MerkleCrdtEngine \<Rightarrow> MerkleCrdtEngine" where
  "persist P env h n e =
     (case store e of
        None \<Rightarrow> e
      | Some s \<Rightarrow> (case save_node P (io_error env) h n s of Inl _ \<Rightarrow> e | Inr s' \<Rightarrow> e\<lparr>store := Some s'\<rparr>))"

definition append_mutation ::
  "platform \<Rightarrow> call_env \<Rightarrow> Hash32 \<Rightarrow> bytes \<Rightarrow> vector_clock \<Rightarrow> AiEvidence option \<Rightarrow> MerkleCrdtEngine
    \<Rightarrow> Hash32 \<times> MerkleCrdtEngine" where
  "append_mutation P env dh sig vc ev e =
     (let ps = iter_order env (heads e);
          n = \<lparr>parents = ps, node_signature = sig, data_hash = dh, vclock = vc, evidence = ev\<rparr>;
          h = compute_hash (blake P) n;
          e = e\<lparr>heads := insert h (heads e - set ps)\<rparr>;
          e = persist P env h n e;
          e = e\<lparr>arena := snd (arena_insert (vacant P) h n (arena e))\<rparr>;
          e = invalidate_root env e;
          e = e\<lparr>mutations_since_gc := mutations_since_gc e + 1\<rparr>
      in (h, if mutations_since_gc e \<ge> gc_threshold e
             then (compact_history env e)\<lparr>mutations_since_gc := 0\<rparr> else e))"

function vdiff_loop ::
  "DagArena \<Rightarrow> Hash32 set \<Rightarrow> Hash32 set \<Rightarrow> DagNode list \<Rightarrow> (Hash32 \<times> u32) list \<Rightarrow> DagNode list" where
  "vdiff_loop a remote visited deltas [] = deltas"
| "vdiff_loop a remote visited deltas ((h, depth) # queue) =
     (if h \<in> visited \<or> h \<in> remote \<or> depth > DAG_HISTORY_DEPTH
      then vdiff_loop a remote visited deltas queue
      else vdiff_loop a remote (insert h visited)
        (case get_by_hash a h of None \<Rightarrow> deltas | Some n \<Rightarrow> deltas @ [n])
        (push_parents a h depth queue))"
  by pat_completeness auto
termination
proof (relation "inv_image (less_than <*lex*> less_than)
    (\<lambda>(a, remote, visited, deltas, queue). (card (dom (get_by_hash a) - visited), length queue))")
  fix a :: DagArena and remote visited deltas depth queue and h :: Hash32
  assume "\<not> (h \<in> visited \<or> h \<in> remote \<or> depth > DAG_HISTORY_DEPTH)"
  then show "((a, remote, insert h visited,
        (case get_by_hash a h of None \<Rightarrow> deltas | Some n \<Rightarrow> deltas @ [n]), push_parents a h depth queue),
      (a, remote, visited, deltas, (h, depth) # queue)) \<in>
      inv_image (less_than <*lex*> less_than)
        (\<lambda>(a, remote, visited, deltas, queue). (card (dom (get_by_hash a) - visited), length queue))"
    using visit_decreases [of h visited a depth queue] by auto
qed auto

definition get_vdiff :: "call_env \<Rightarrow> MerkleCrdtEngine \<Rightarrow> Hash32 list \<Rightarrow> DagNode list" where
  "get_vdiff env e remote_heads = vdiff_loop (arena e) (set remote_heads) {} [] (start_queue env e)"

definition get_merkle_root :: "platform \<Rightarrow> MerkleCrdtEngine \<Rightarrow> Hash32 \<times> MerkleCrdtEngine" where
  "get_merkle_root P e =
     (case cached_root e of
        Some root \<Rightarrow> (root, e)
      | None \<Rightarrow>
          if heads_soa e = [] then (replicate 32 0, e\<lparr>cached_root := Some (replicate 32 0)\<rparr>)
          else let soa = sort (heads_soa e); root = blake P (concat soa)
               in (root, e\<lparr>heads_soa := soa, cached_root := Some root\<rparr>))"

record EpochManager =
  current_epoch :: u64
  finalized_root :: "Hash32 option"

definition epochs_new :: EpochManager where
  "epochs_new = \<lparr>current_epoch = 0, finalized_root = None\<rparr>"

definition finalize_epoch :: "Hash32 \<Rightarrow> EpochManager \<Rightarrow> EpochManager" where
  "finalize_epoch root m = m\<lparr>finalized_root := Some root, current_epoch := current_epoch m + 1\<rparr>"

section \<open>The walk both loops make\<close>

function walk :: "DagArena \<Rightarrow> Hash32 set \<Rightarrow> Hash32 set \<Rightarrow> (Hash32 \<times> u32) list \<Rightarrow> Hash32 list" where
  "walk a stop visited [] = []"
| "walk a stop visited ((h, depth) # queue) =
     (if h \<in> visited \<or> h \<in> stop \<or> depth > DAG_HISTORY_DEPTH then walk a stop visited queue
      else h # walk a stop (insert h visited) (push_parents a h depth queue))"
  by pat_completeness auto
termination
proof (relation "inv_image (less_than <*lex*> less_than)
    (\<lambda>(a, stop, visited, queue). (card (dom (get_by_hash a) - visited), length queue))")
  fix a :: DagArena and stop visited depth queue and h :: Hash32
  assume "\<not> (h \<in> visited \<or> h \<in> stop \<or> depth > DAG_HISTORY_DEPTH)"
  then show "((a, stop, insert h visited, push_parents a h depth queue), (a, stop, visited, (h, depth) # queue)) \<in>
      inv_image (less_than <*lex*> less_than)
        (\<lambda>(a, stop, visited, queue). (card (dom (get_by_hash a) - visited), length queue))"
    using visit_decreases [of h visited a depth queue] by auto
qed auto

lemma mark_loop_walk: "mark_loop a keep queue = keep \<union> set (walk a {} keep queue)"
  by (induction a keep queue rule: mark_loop.induct) auto

lemma vdiff_loop_walk:
  "vdiff_loop a remote visited deltas queue =
     deltas @ List.map_filter (get_by_hash a) (walk a remote visited queue)"
  by (induction a remote visited deltas queue rule: vdiff_loop.induct)
    (auto simp: List.map_filter_simps split: option.splits)

lemma walk_distinct: "distinct (walk a stop visited queue) \<and> set (walk a stop visited queue) \<inter> (visited \<union> stop) = {}"
  by (induction a stop visited queue rule: walk.induct) auto

text \<open>The links of the DAG, from a node to its parents.\<close>

definition links :: "DagArena \<Rightarrow> (Hash32 \<times> Hash32) set" where
  "links a = {(h, p). \<exists>n. get_by_hash a h = Some n \<and> p \<in> set (parents n)}"

lemma set_push_parents: "set (push_parents a h depth queue) = set queue \<union> {(p, depth + 1) | p. (h, p) \<in> links a}"
  by (auto simp: push_parents_def links_def split: option.splits)

text \<open>Everything visited was waiting or is the parent of something visited.\<close>

lemma walk_pred:
  "x \<in> set (walk a stop visited queue) \<Longrightarrow>
   x \<in> fst ` set queue \<or> (\<exists>y\<in>set (walk a stop visited queue). (y, x) \<in> links a)"
proof (induction a stop visited queue rule: walk.induct)
  case (2 a stop visited h depth queue)
  show ?case
  proof (cases "h \<in> visited \<or> h \<in> stop \<or> depth > DAG_HISTORY_DEPTH")
    case True
    then show ?thesis using 2 by auto
  next
    case False
    then consider "x = h" | "x \<in> set (walk a stop (insert h visited) (push_parents a h depth queue))"
      using "2.prems" by auto
    then show ?thesis
    proof cases
      case 2
      then have "x \<in> fst ` set (push_parents a h depth queue)
          \<or> (\<exists>y\<in>set (walk a stop (insert h visited) (push_parents a h depth queue)). (y, x) \<in> links a)"
        using \<open>\<not> _\<close> by (rule "2.IH"(2) [rotated])
      then show ?thesis using False by (fastforce simp: set_push_parents)
    qed auto
  qed
qed simp

text \<open>Everything visited is within the depth limit of something waiting.\<close>

lemma walk_depth:
  "x \<in> set (walk a stop visited queue) \<Longrightarrow>
   \<exists>(h, d)\<in>set queue. \<exists>k. (h, x) \<in> links a ^^ k \<and> unat d + k \<le> 100"
proof (induction a stop visited queue rule: walk.induct)
  case (2 a stop visited h depth queue)
  show ?case
  proof (cases "h \<in> visited \<or> h \<in> stop \<or> depth > DAG_HISTORY_DEPTH")
    case True
    then show ?thesis using 2 by fastforce
  next
    case False
    then have d: "unat depth \<le> 100" by (simp add: DAG_HISTORY_DEPTH_def word_less_nat_alt)
    then have suc: "unat (depth + 1) = Suc (unat depth)" by (simp add: unat_word_ariths)
    consider "x = h" | "x \<in> set (walk a stop (insert h visited) (push_parents a h depth queue))"
      using "2.prems" False by auto
    then show ?thesis
    proof cases
      case 1
      then show ?thesis using d by (intro bexI [of _ "(h, depth)"]) (auto intro!: exI [of _ 0])
    next
      case 2
      then obtain q e k where q: "(q, e) \<in> set (push_parents a h depth queue)" "(q, x) \<in> links a ^^ k"
        "unat e + k \<le> 100"
        using "2.IH"(2) [OF False] by fast
      then consider "(q, e) \<in> set queue" | "(h, q) \<in> links a" "e = depth + 1"
        by (auto simp: set_push_parents)
      then show ?thesis
      proof cases
        case 1
        then show ?thesis using q by auto
      next
        case 2
        then have "(h, x) \<in> links a ^^ Suc k" "unat depth + Suc k \<le> 100"
          using relpow_Suc_I2 [OF 2(1) q(2)] q(3) suc 2(2) by (simp_all del: relpow.simps)
        then show ?thesis by (intro bexI [of _ "(h, depth)"]) (blast, simp)
      qed
    qed
  qed
qed simp

lemma walk_heads:
  "(h, d) \<in> set queue \<Longrightarrow> d \<le> DAG_HISTORY_DEPTH \<Longrightarrow> h \<notin> stop \<Longrightarrow>
   h \<in> visited \<union> set (walk a stop visited queue)"
  by (induction a stop visited queue rule: walk.induct) (auto simp: set_push_parents)

text \<open>
  What waits is within the limit of a target: no path from it to the target, on top of the depth it
  waits with, is longer. Then the walk is closed under the parents that lead to the target, also when
  it takes detours that overestimate depths.
\<close>

definition shallow :: "DagArena \<Rightarrow> Hash32 \<Rightarrow> (Hash32 \<times> u32) list \<Rightarrow> bool" where
  "shallow a x queue \<longleftrightarrow> (\<forall>(h, d)\<in>set queue. \<forall>k. (h, x) \<in> links a ^^ k \<longrightarrow> unat d + k \<le> 100)"

lemma shallowD: "shallow a x queue \<Longrightarrow> (h, d) \<in> set queue \<Longrightarrow> (h, x) \<in> links a ^^ k \<Longrightarrow> unat d + k \<le> 100"
  unfolding shallow_def by blast

lemma shallowI:
  "(\<And>h d k. (h, d) \<in> set queue \<Longrightarrow> (h, x) \<in> links a ^^ k \<Longrightarrow> unat d + k \<le> 100) \<Longrightarrow> shallow a x queue"
  unfolding shallow_def by blast

lemma shallow_step:
  assumes "shallow a x ((h, depth) # queue)"
  shows "shallow a x queue" "(h, x) \<in> (links a)\<^sup>* \<Longrightarrow> \<not> depth > DAG_HISTORY_DEPTH"
    and "\<not> depth > DAG_HISTORY_DEPTH \<Longrightarrow> shallow a x (push_parents a h depth queue)"
proof -
  show q: "shallow a x queue" using assms by (auto simp: shallow_def)
  show "\<not> depth > DAG_HISTORY_DEPTH" if lead: "(h, x) \<in> (links a)\<^sup>*"
  proof -
    obtain k where "(h, x) \<in> links a ^^ k" using rtrancl_imp_relpow [OF lead] by blast
    then have "unat depth + k \<le> 100" by (rule shallowD [OF assms list.set_intros(1)])
    then show ?thesis by (simp add: DAG_HISTORY_DEPTH_def word_less_nat_alt)
  qed
  assume "\<not> depth > DAG_HISTORY_DEPTH"
  then have suc: "unat (depth + 1) = Suc (unat depth)"
    by (simp add: DAG_HISTORY_DEPTH_def word_less_nat_alt unat_word_ariths)
  have "unat (depth + 1) + k \<le> 100" if "(h, p) \<in> links a" "(p, x) \<in> links a ^^ k" for p k
  proof -
    have "(h, x) \<in> links a ^^ Suc k" using that by (rule relpow_Suc_I2)
    then have "unat depth + Suc k \<le> 100" by (rule shallowD [OF assms list.set_intros(1)])
    then show ?thesis using suc by simp
  qed
  then show "shallow a x (push_parents a h depth queue)"
    using shallowD [OF q] by (intro shallowI) (auto simp: set_push_parents)
qed

lemma walk_closed:
  assumes "shallow a x queue"
  shows "(fst ` set queue \<union> links a `` set (walk a stop visited queue)) \<inter> {y. (y, x) \<in> (links a)\<^sup>*}
    \<subseteq> visited \<union> stop \<union> set (walk a stop visited queue)"
  using assms
proof (induction a stop visited queue rule: walk.induct)
  case (2 a stop visited h depth queue)
  note s = shallow_step [OF "2.prems"]
  show ?case
  proof (cases "h \<in> visited \<or> h \<in> stop \<or> depth > DAG_HISTORY_DEPTH")
    case True
    then show ?thesis using "2.IH"(1) [OF True s(1)] s(2) by auto
  next
    case False
    then have deep: "\<not> depth > DAG_HISTORY_DEPTH" by blast
    have "links a `` {h} \<subseteq> fst ` set (push_parents a h depth queue)"
      by (force simp: set_push_parents)
    moreover have "fst ` set queue \<subseteq> fst ` set (push_parents a h depth queue)"
      by (auto simp: set_push_parents)
    moreover have "walk a stop visited ((h, depth) # queue) =
        h # walk a stop (insert h visited) (push_parents a h depth queue)"
      using False by simp
    ultimately show ?thesis using "2.IH"(2) [OF False s(3) [OF deep]] by (simp only: list.set fst_conv image_insert) blast
  qed
qed simp

text \<open>The walk stays on paths that avoid the stop set.\<close>

lemma walk_reach:
  "x \<in> set (walk a stop visited queue) \<Longrightarrow>
   \<exists>(h, d)\<in>set queue. h \<notin> stop \<and> (h, x) \<in> (Restr (links a) (- stop))\<^sup>*"
proof (induction a stop visited queue rule: walk.induct)
  case (2 a stop visited h depth queue)
  show ?case
  proof (cases "h \<in> visited \<or> h \<in> stop \<or> depth > DAG_HISTORY_DEPTH")
    case True
    then show ?thesis using 2 by fastforce
  next
    case False
    then consider "x = h" | "x \<in> set (walk a stop (insert h visited) (push_parents a h depth queue))"
      using "2.prems" by auto
    then show ?thesis
    proof cases
      case 2
      then obtain q e where "(q, e) \<in> set (push_parents a h depth queue)" "q \<notin> stop"
        "(q, x) \<in> (Restr (links a) (- stop))\<^sup>*"
        using "2.IH"(2) [OF False] by fast
      then show ?thesis using False
        by (auto simp: set_push_parents intro: converse_rtrancl_into_rtrancl)
    qed (use False in auto)
  qed
qed simp

lemma walk_complete:
  assumes "shallow a x queue" "(h, d) \<in> set queue" "h \<notin> stop" "(h, x) \<in> (Restr (links a) (- stop))\<^sup>*"
  shows "x \<in> set (walk a stop {} queue)"
proof -
  let ?W = "set (walk a stop {} queue)"
  have "(y, x) \<in> (links a)\<^sup>* \<longrightarrow> y \<in> ?W" if "(h, y) \<in> (Restr (links a) (- stop))\<^sup>*" for y
    using that
  proof (induction rule: rtrancl_induct)
    case base
    then show ?case using walk_closed [OF assms(1), of stop "{}"] assms(2,3) by force
  next
    case (step y z)
    show ?case
    proof
      assume zx: "(z, x) \<in> (links a)\<^sup>*"
      then have "(y, x) \<in> (links a)\<^sup>*" using step.hyps(2) by (auto intro: converse_rtrancl_into_rtrancl)
      then have "y \<in> ?W" using step.IH by simp
      then show "z \<in> ?W" using walk_closed [OF assms(1), of stop "{}"] step.hyps(2) zx by blast
    qed
  qed
  from this [OF assms(4)] show ?thesis by simp
qed

section \<open>The invariant of the engine\<close>

definition iter_ok :: "call_env \<Rightarrow> bool" where
  "iter_ok env \<longleftrightarrow> (\<forall>S. finite S \<longrightarrow> set (iter_order env S) = S \<and> distinct (iter_order env S))"

lemma iter_okD [simp]:
  "iter_ok env \<Longrightarrow> finite S \<Longrightarrow> set (iter_order env S) = S"
  "iter_ok env \<Longrightarrow> finite S \<Longrightarrow> distinct (iter_order env S)"
  by (simp_all add: iter_ok_def)

text \<open>What the root is of: the heads in order.\<close>

definition root_of :: "blake3 \<Rightarrow> Hash32 set \<Rightarrow> Hash32" where
  "root_of B H = (if H = {} then replicate 32 0 else B (concat (sorted_list_of_set H)))"

text \<open>The heads of a DAG: the stored nodes that no stored node lists as a parent.\<close>

definition frontier :: "DagArena \<Rightarrow> Hash32 set" where
  "frontier a = dom (get_by_hash a) - Range (links a)"

definition engine_ok :: "platform \<Rightarrow> MerkleCrdtEngine \<Rightarrow> bool" where
  "engine_ok P e \<longleftrightarrow> arena_ok (arena e) \<and> finite (heads e) \<and> set (heads_soa e) = heads e
     \<and> distinct (heads_soa e) \<and> (\<forall>r. cached_root e = Some r \<longrightarrow> r = root_of (blake P) (heads e))"

definition dag_ok :: "platform \<Rightarrow> MerkleCrdtEngine \<Rightarrow> bool" where
  "dag_ok P e \<longleftrightarrow> engine_ok P e \<and> heads e = frontier (arena e)
     \<and> (\<forall>h n. get_by_hash (arena e) h = Some n \<longrightarrow> h = compute_hash (blake P) n)"

lemma finite_frontier [simp]: "finite (frontier a)"
  by (simp add: frontier_def)

lemma engine_ok_new [simp]: "engine_ok P (with_gc_threshold s t)"
  by (simp add: engine_ok_def with_gc_threshold_def)

lemma lookup_new [simp]: "get_by_hash arena_new = Map.empty"
  by (simp add: get_by_hash_def arena_new_def fun_eq_iff)

lemma dag_ok_new [simp]: "dag_ok P (with_gc_threshold s t)"
  by (simp add: dag_ok_def frontier_def) (simp add: with_gc_threshold_def)

lemma engine_ok_invalidate:
  "iter_ok env \<Longrightarrow> arena_ok (arena e) \<Longrightarrow> finite (heads e) \<Longrightarrow> engine_ok P (invalidate_root env e)"
  by (simp add: engine_ok_def invalidate_root_def)

lemma invalidate_root_simps [simp]:
  "arena (invalidate_root env e) = arena e" "heads (invalidate_root env e) = heads e"
  "store (invalidate_root env e) = store e" "gc_threshold (invalidate_root env e) = gc_threshold e"
  "mutations_since_gc (invalidate_root env e) = mutations_since_gc e"
  by (simp_all add: invalidate_root_def)

lemma persist_simps [simp]:
  "arena (persist P env h n e) = arena e" "heads (persist P env h n e) = heads e"
  "heads_soa (persist P env h n e) = heads_soa e" "cached_root (persist P env h n e) = cached_root e"
  "gc_threshold (persist P env h n e) = gc_threshold e"
  "mutations_since_gc (persist P env h n e) = mutations_since_gc e"
  by (simp_all add: persist_def split: option.split sum.split)

lemma get_merkle_root_correct:
  assumes "engine_ok P e"
  shows "fst (get_merkle_root P e) = root_of (blake P) (heads e)"
    and "engine_ok P (snd (get_merkle_root P e))"
    and "arena (snd (get_merkle_root P e)) = arena e" "heads (snd (get_merkle_root P e)) = heads e"
proof -
  have soa: "set (heads_soa e) = heads e" "distinct (heads_soa e)"
    using assms by (simp_all add: engine_ok_def)
  then have "sorted_list_of_set (heads e) = sort (heads_soa e)"
    by (metis distinct_remdups_id sorted_list_of_set_sort_remdups)
  moreover have "heads_soa e = [] \<longleftrightarrow> heads e = {}" using soa by auto
  ultimately have eq: "root_of (blake P) (heads e) =
      (if heads_soa e = [] then replicate 32 0 else blake P (concat (sort (heads_soa e))))"
    by (simp add: root_of_def)
  then show root: "fst (get_merkle_root P e) = root_of (blake P) (heads e)"
    using assms by (auto simp: get_merkle_root_def engine_ok_def Let_def split: option.split)
  show "arena (snd (get_merkle_root P e)) = arena e" "heads (snd (get_merkle_root P e)) = heads e"
    by (simp_all add: get_merkle_root_def Let_def split: option.split)
  show "engine_ok P (snd (get_merkle_root P e))"
    using assms eq by (auto simp: engine_ok_def get_merkle_root_def Let_def split: option.split)
qed

section \<open>Pruning\<close>

definition kept :: "call_env \<Rightarrow> MerkleCrdtEngine \<Rightarrow> Hash32 set" where
  "kept env e = set (walk (arena e) {} {} (start_queue env e))"

lemma set_start_queue: "iter_ok env \<Longrightarrow> finite (heads e) \<Longrightarrow> set (start_queue env e) = heads e \<times> {0}"
  by (auto simp: start_queue_def)

lemma heads_kept:
  assumes "iter_ok env" "finite (heads e)"
  shows "heads e \<subseteq> kept env e"
proof
  fix h assume "h \<in> heads e"
  then show "h \<in> kept env e"
    using walk_heads [of h 0 "start_queue env e" "{}" "{}" "arena e"] assms
    by (simp add: set_start_queue kept_def)
qed

lemma compact_history_eq:
  "compact_history env e =
     (if 0 < fst (retain (kept env e) (arena e))
      then invalidate_root env (e\<lparr>arena := snd (retain (kept env e) (arena e)), heads := heads e \<inter> kept env e\<rparr>)
      else e\<lparr>arena := snd (retain (kept env e) (arena e))\<rparr>)"
  by (simp add: compact_history_def Let_def case_prod_beta mark_loop_walk kept_def)

lemma compact_history_arena:
  assumes "arena_ok (arena e)"
  shows "get_by_hash (arena (compact_history env e)) = get_by_hash (arena e) |` kept env e"
    "arena_ok (arena (compact_history env e))"
  using retain_correct [OF assms, of "kept env e"]
  by (simp_all add: compact_history_eq)

lemma compact_history_simps [simp]:
  "store (compact_history env e) = store e" "gc_threshold (compact_history env e) = gc_threshold e"
  by (simp_all add: compact_history_eq)

lemma compact_history_heads:
  assumes "iter_ok env" "finite (heads e)"
  shows "heads (compact_history env e) = heads e"
  using heads_kept [OF assms]
  by (auto simp: compact_history_eq)

lemma compact_history_engine_ok:
  assumes "iter_ok env" "engine_ok P e"
  shows "engine_ok P (compact_history env e)"
proof -
  have "arena_ok (snd (retain (kept env e) (arena e)))"
    using assms(2) retain_correct(1) by (simp add: engine_ok_def)
  then show ?thesis
    using assms unfolding compact_history_eq
    by (auto intro!: engine_ok_invalidate simp: engine_ok_def [of P e]) (simp add: engine_ok_def)
qed

lemma links_restrict: "links a' \<subseteq> links a" if "get_by_hash a' = get_by_hash a |` K"
  using that by (auto simp: links_def restrict_map_def split: if_splits)

lemma compact_history_frontier:
  assumes "iter_ok env" "engine_ok P e" "heads e = frontier (arena e)"
  shows "frontier (arena (compact_history env e)) = heads e"
proof -
  let ?a = "arena e" let ?b = "arena (compact_history env e)"
  have fin: "finite (heads e)" using assms(2) by (simp add: engine_ok_def)
  have lk: "get_by_hash ?b = get_by_hash ?a |` kept env e"
    using assms(2) compact_history_arena(1) by (simp add: engine_ok_def)
  have child: "x \<in> Range (links ?b)" if x: "x \<in> kept env e" "x \<notin> heads e" for x
  proof -
    obtain y where "y \<in> kept env e" "(y, x) \<in> links ?a"
      using walk_pred [of x ?a "{}" "{}" "start_queue env e"] x fin
      by (auto simp: kept_def set_start_queue [OF assms(1)])
    then obtain n where "get_by_hash ?b y = Some n" "x \<in> set (parents n)" by (auto simp: links_def lk)
    then show ?thesis by (auto simp: links_def)
  qed
  moreover have "heads e \<subseteq> kept env e" by (rule heads_kept [OF assms(1) fin])
  have dom: "dom (get_by_hash ?b) = dom (get_by_hash ?a) \<inter> kept env e" by (simp add: lk)
  have hd: "heads e = dom (get_by_hash ?a) - Range (links ?a)" using assms(3) by (simp only: frontier_def)
  have sub: "links ?b \<subseteq> links ?a" by (rule links_restrict [OF lk])
  show ?thesis
  proof (rule set_eqI)
    fix x
    show "x \<in> frontier ?b \<longleftrightarrow> x \<in> heads e"
    proof
      assume "x \<in> frontier ?b"
      then show "x \<in> heads e" using child [of x] unfolding frontier_def dom by fast
    next
      assume x: "x \<in> heads e"
      then have "x \<in> kept env e" using heads_kept [OF assms(1) fin] by fast
      then show "x \<in> frontier ?b" using x sub unfolding frontier_def dom hd by fast
    qed
  qed
qed

lemma compact_history_dag_ok:
  assumes "iter_ok env" "dag_ok P e"
  shows "dag_ok P (compact_history env e)"
proof -
  have ok: "engine_ok P e" "heads e = frontier (arena e)" "finite (heads e)"
    using assms(2) by (auto simp: dag_ok_def)
  then have "heads (compact_history env e) = frontier (arena (compact_history env e))"
    using compact_history_heads [OF assms(1) ok(3)] compact_history_frontier [OF assms(1) ok(1,2)] by simp
  moreover have "get_by_hash (arena (compact_history env e)) = get_by_hash (arena e) |` kept env e"
    using ok(1) compact_history_arena(1) by (simp add: engine_ok_def)
  ultimately show ?thesis
    using assms compact_history_engine_ok [OF assms(1) ok(1)] by (auto simp: dag_ok_def restrict_map_def)
qed

lemma kept_depth:
  assumes "iter_ok env" "finite (heads e)" "x \<in> kept env e"
  shows "\<exists>g\<in>heads e. \<exists>k\<le>100. (g, x) \<in> links (arena e) ^^ k"
  using walk_depth [of x "arena e" "{}" "{}" "start_queue env e"] assms
  by (force simp: kept_def set_start_queue)

text \<open>The walk from the heads finds what no path from a head reaches too late.\<close>

lemma walk_shallow_from_heads:
  assumes "iter_ok env" "finite (heads e)" "\<forall>g\<in>heads e. \<forall>k. (g, h) \<in> links (arena e) ^^ k \<longrightarrow> k \<le> 100"
    and "g \<in> heads e" "g \<notin> stop" "(g, h) \<in> (Restr (links (arena e)) (- stop))\<^sup>*"
  shows "h \<in> set (walk (arena e) stop {} (start_queue env e))"
proof (rule walk_complete)
  show "shallow (arena e) h (start_queue env e)"
    using assms(3) by (intro shallowI) (auto simp: set_start_queue [OF assms(1,2)])
  show "(g, 0) \<in> set (start_queue env e)" using assms(4) by (simp add: set_start_queue [OF assms(1,2)])
qed (rule assms(5), rule assms(6))

text \<open>
  C16: Pruning the history keeps the invariant, the frontier and with it the root. Every node that is
  left was there and has some path of at most the history depth from a head. Every node that can be
  reached from a head, and by no path longer than the history depth, is left, whatever else is pruned
  and in whatever order the heads are visited. Nodes with both shorter and longer paths may go: the
  worklist is a stack, and the depth it counts is that of the path it happens to take.
\<close>

theorem compaction_keeps_frontier:
  assumes "iter_ok env" "dag_ok P e"
  shows "dag_ok P (compact_history env e) \<and> heads (compact_history env e) = heads e
    \<and> fst (get_merkle_root P (compact_history env e)) = fst (get_merkle_root P e)
    \<and> (\<forall>h n. get_by_hash (arena (compact_history env e)) h = Some n \<longrightarrow>
          get_by_hash (arena e) h = Some n \<and> (\<exists>g\<in>heads e. \<exists>k\<le>100. (g, h) \<in> links (arena e) ^^ k))
    \<and> (\<forall>g\<in>heads e. \<forall>h. (g, h) \<in> (links (arena e))\<^sup>*
          \<and> (\<forall>g'\<in>heads e. \<forall>k. (g', h) \<in> links (arena e) ^^ k \<longrightarrow> k \<le> 100) \<longrightarrow>
             get_by_hash (arena (compact_history env e)) h = get_by_hash (arena e) h)"
proof -
  have ok: "engine_ok P e" "finite (heads e)" using assms(2) unfolding dag_ok_def engine_ok_def by blast+
  have heads: "heads (compact_history env e) = heads e" using compact_history_heads assms(1) ok(2) .
  have lk: "get_by_hash (arena (compact_history env e)) = get_by_hash (arena e) |` kept env e"
    using ok(1) compact_history_arena(1) by (simp add: engine_ok_def)
  have reach: "h \<in> kept env e"
    if "g \<in> heads e" "(g, h) \<in> (links (arena e))\<^sup>*" "\<forall>g\<in>heads e. \<forall>k. (g, h) \<in> links (arena e) ^^ k \<longrightarrow> k \<le> 100" for g h
    unfolding kept_def by (rule walk_shallow_from_heads [OF assms(1) ok(2) that(3,1)]) (use that(2) in simp_all)
  show ?thesis
    using compact_history_dag_ok [OF assms] heads lk kept_depth [OF assms(1) ok(2)] reach
      get_merkle_root_correct(1) [OF ok(1)]
      get_merkle_root_correct(1) [OF compact_history_engine_ok [OF assms(1) ok(1)]]
    by (auto simp: restrict_map_def split: if_splits)
qed

section \<open>Appending\<close>

text \<open>The node that an append creates.\<close>

definition new_node :: "call_env \<Rightarrow> Hash32 \<Rightarrow> bytes \<Rightarrow> vector_clock \<Rightarrow> AiEvidence option \<Rightarrow> MerkleCrdtEngine \<Rightarrow> DagNode" where
  "new_node env dh sig vc ev e = \<lparr>parents = iter_order env (heads e), node_signature = sig, data_hash = dh,
     vclock = vc, evidence = ev\<rparr>"

text \<open>The hash is new: no stored node has it and none refers to it.\<close>

definition fresh_hash :: "Hash32 \<Rightarrow> DagArena \<Rightarrow> bool" where
  "fresh_hash h a \<longleftrightarrow> get_by_hash a h = None \<and> h \<notin> Range (links a)"

definition appended ::
  "platform \<Rightarrow> call_env \<Rightarrow> Hash32 \<Rightarrow> DagNode \<Rightarrow> MerkleCrdtEngine \<Rightarrow> MerkleCrdtEngine" where
  "appended P env h n e =
     (let e = persist P env h n (e\<lparr>heads := insert h (heads e - set (parents n))\<rparr>);
          e = invalidate_root env (e\<lparr>arena := snd (arena_insert (vacant P) h n (arena e))\<rparr>)
      in e\<lparr>mutations_since_gc := mutations_since_gc e + 1\<rparr>)"

lemma append_mutation_eq:
  "append_mutation P env dh sig vc ev e =
     (let n = new_node env dh sig vc ev e; h = compute_hash (blake P) n; e' = appended P env h n e
      in (h, if mutations_since_gc e' \<ge> gc_threshold e'
             then (compact_history env e')\<lparr>mutations_since_gc := 0\<rparr> else e'))"
  by (simp add: append_mutation_def new_node_def appended_def Let_def)

lemma mutations_dag_ok [simp]: "dag_ok P (e\<lparr>mutations_since_gc := m\<rparr>) = dag_ok P e"
  by (simp add: dag_ok_def engine_ok_def)

lemma links_insert:
  assumes "get_by_hash b = (get_by_hash a)(h \<mapsto> n)" "get_by_hash a h = None"
  shows "links b = links a \<union> {h} \<times> set (parents n)"
  using assms by (auto simp: links_def split: if_splits)

lemma appended_dag_ok:
  assumes "iter_ok env" "vacant_key (vacant P)" "dag_ok P e" "fresh_hash h (arena e)"
    and n: "set (parents n) = heads e" "h = compute_hash (blake P) n"
  shows "dag_ok P (appended P env h n e)" "heads (appended P env h n e) = {h}"
    "get_by_hash (arena (appended P env h n e)) = (get_by_hash (arena e))(h \<mapsto> n)"
proof -
  let ?e = "appended P env h n e"
  have ok: "arena_ok (arena e)" "heads e = frontier (arena e)"
    "\<forall>h n. get_by_hash (arena e) h = Some n \<longrightarrow> h = compute_hash (blake P) n"
    using assms(3) by (auto simp: dag_ok_def engine_ok_def)
  show hd: "heads ?e = {h}" using n(1) by (simp add: appended_def Let_def)
  have fresh: "get_by_hash (arena e) h = None" "h \<notin> Range (links (arena e))"
    using assms(4) by (simp_all add: fresh_hash_def)
  have "arena ?e = snd (arena_insert (vacant P) h n (arena e))" by (simp add: appended_def Let_def)
  then have lk: "get_by_hash (arena ?e) = (get_by_hash (arena e))(h \<mapsto> n)"
    and a: "arena_ok (arena ?e)"
    using arena.lookup_add [OF assms(2) ok(1)] arena.ok_add [OF assms(2) ok(1)] fresh(1) by simp_all
  have "links (arena ?e) = links (arena e) \<union> {h} \<times> heads e"
    using links_insert [OF lk fresh(1)] n(1) by simp
  then have rng: "Range (links (arena ?e)) = Range (links (arena e)) \<union> heads e" by auto
  have "dom (get_by_hash (arena ?e)) = insert h (dom (get_by_hash (arena e)))" by (simp add: lk)
  moreover have "heads e = dom (get_by_hash (arena e)) - Range (links (arena e))"
    using ok(2) by (simp only: frontier_def)
  ultimately have fr: "frontier (arena ?e) = {h}"
    unfolding frontier_def rng using fresh by blast
  have "heads_soa ?e = iter_order env {h}" "cached_root ?e = None"
    using n(1) by (simp_all add: appended_def Let_def invalidate_root_def)
  then have "engine_ok P ?e" using a hd assms(1) by (simp add: engine_ok_def)
  moreover have "\<forall>k m. get_by_hash (arena ?e) k = Some m \<longrightarrow> k = compute_hash (blake P) m"
    unfolding lk using ok(3) n(2) by simp
  ultimately show "dag_ok P ?e" unfolding dag_ok_def hd fr by blast
  show "get_by_hash (arena ?e) = (get_by_hash (arena e))(h \<mapsto> n)" by (rule lk)
qed

text \<open>
  An append whose hash is new stores the node under its content hash with all heads as its
  parents, makes it the only head, keeps the invariant, and loses nothing unless the pruning is due,
  which happens exactly when the count of mutations reaches the threshold.
\<close>

theorem append_extends:
  assumes "iter_ok env" "vacant_key (vacant P)" "dag_ok P e"
    and "append_mutation P env dh sig vc ev e = (h, e')" "fresh_hash h (arena e)"
  shows "dag_ok P e' \<and> heads e' = {h} \<and> h = compute_hash (blake P) (new_node env dh sig vc ev e)
    \<and> set (parents (new_node env dh sig vc ev e)) = heads e
    \<and> get_by_hash (arena e') h = Some (new_node env dh sig vc ev e)
    \<and> fst (get_merkle_root P e') = blake P h
    \<and> (if mutations_since_gc e + 1 < gc_threshold e
       then get_by_hash (arena e') = (get_by_hash (arena e))(h \<mapsto> new_node env dh sig vc ev e)
         \<and> mutations_since_gc e' = mutations_since_gc e + 1
       else get_by_hash (arena e') \<subseteq>\<^sub>m (get_by_hash (arena e))(h \<mapsto> new_node env dh sig vc ev e)
         \<and> mutations_since_gc e' = 0)"
proof -
  define n where "n = new_node env dh sig vc ev e"
  define b where "b = appended P env h n e"
  have h: "h = compute_hash (blake P) n"
    and e': "e' = (if mutations_since_gc b \<ge> gc_threshold b
      then (compact_history env b)\<lparr>mutations_since_gc := 0\<rparr> else b)"
    using assms(4) by (auto simp: append_mutation_eq n_def b_def Let_def)
  have fin: "finite (heads e)" using assms(3) by (simp add: dag_ok_def engine_ok_def)
  then have ps: "set (parents n) = heads e" using assms(1) by (simp add: n_def new_node_def)
  have b: "dag_ok P b" "heads b = {h}" "get_by_hash (arena b) = (get_by_hash (arena e))(h \<mapsto> n)"
    using appended_dag_ok [OF assms(1-3,5) ps h] by (simp_all add: b_def)
  have ok: "engine_ok P b" using b(1) by (simp add: dag_ok_def)
  have c: "dag_ok P (compact_history env b)" "heads (compact_history env b) = {h}"
    using compact_history_dag_ok [OF assms(1) b(1)] compact_history_heads [OF assms(1), of b] b(2) by simp_all
  have "h \<in> kept env b" using heads_kept [OF assms(1), of b] b(2) by simp
  then have lk: "get_by_hash (arena (compact_history env b)) h = Some n"
    "get_by_hash (arena (compact_history env b)) \<subseteq>\<^sub>m get_by_hash (arena b)"
    using compact_history_arena(1) [of b env] ok b(3)
    by (auto simp: engine_ok_def map_le_def restrict_map_def split: if_splits)
  have counts: "mutations_since_gc b = mutations_since_gc e + 1" "gc_threshold b = gc_threshold e"
    by (simp_all add: b_def appended_def Let_def)
  have "dag_ok P e' \<and> heads e' = {h} \<and> get_by_hash (arena e') h = Some n
    \<and> (if mutations_since_gc e + 1 < gc_threshold e
       then get_by_hash (arena e') = (get_by_hash (arena e))(h \<mapsto> n)
         \<and> mutations_since_gc e' = mutations_since_gc e + 1
       else get_by_hash (arena e') \<subseteq>\<^sub>m (get_by_hash (arena e))(h \<mapsto> n) \<and> mutations_since_gc e' = 0)"
  proof (cases "mutations_since_gc e + 1 < gc_threshold e")
    case True
    then have "e' = b" using counts by (simp add: e')
    then show ?thesis using True b counts by simp
  next
    case False
    then have "e' = (compact_history env b)\<lparr>mutations_since_gc := 0\<rparr>" using counts by (simp add: e')
    then show ?thesis using False c lk b(3) by simp
  qed
  note inv = this
  then have "fst (get_merkle_root P e') = root_of (blake P) {h}"
    using get_merkle_root_correct(1) [of P e'] by (metis dag_ok_def)
  then have "fst (get_merkle_root P e') = blake P h" by (simp add: root_of_def)
  with inv h ps show ?thesis unfolding n_def [symmetric]
    by (elim conjE) (intro conjI, assumption+)
qed

section \<open>The delta for a peer\<close>

definition vdiff_hashes :: "call_env \<Rightarrow> MerkleCrdtEngine \<Rightarrow> Hash32 set \<Rightarrow> Hash32 set" where
  "vdiff_hashes env e R = set (walk (arena e) R {} (start_queue env e))"

lemma set_get_vdiff:
  "set (get_vdiff env e remote) =
     {n. \<exists>h\<in>vdiff_hashes env e (set remote). get_by_hash (arena e) h = Some n}"
  by (auto simp: get_vdiff_def vdiff_loop_walk vdiff_hashes_def List.map_filter_def image_iff)
    (metis option.sel)

text \<open>The delta stays on paths that avoid the announced hashes, and takes all of them to nodes that are not deep.\<close>

lemma vdiff_hashes_reach:
  assumes "iter_ok env" "finite (heads e)"
  shows "vdiff_hashes env e R \<subseteq> (Restr (links (arena e)) (- R))\<^sup>* `` (heads e - R)"
  using walk_reach [of _ "arena e" R "{}" "start_queue env e"]
  by (fastforce simp: vdiff_hashes_def set_start_queue [OF assms])

lemma vdiff_hashes_complete:
  assumes "iter_ok env" "finite (heads e)" "\<forall>g\<in>heads e. \<forall>k. (g, h) \<in> links (arena e) ^^ k \<longrightarrow> k \<le> 100"
    and "g \<in> heads e" "g \<notin> R" "(g, h) \<in> (Restr (links (arena e)) (- R))\<^sup>*"
  shows "h \<in> vdiff_hashes env e R"
  unfolding vdiff_hashes_def by (rule walk_shallow_from_heads [OF assms])

lemma vdiff_hashes_exact:
  assumes "iter_ok env" "finite (heads e)"
    and "\<forall>g\<in>heads e. \<forall>k x. (g, x) \<in> links (arena e) ^^ k \<longrightarrow> k \<le> 100"
  shows "vdiff_hashes env e R = (Restr (links (arena e)) (- R))\<^sup>* `` (heads e - R)"
  using vdiff_hashes_reach [OF assms(1,2)] vdiff_hashes_complete [OF assms(1,2)] assms(3) by blast

text \<open>
  The delta for a peer holds every node at most once, only stored nodes that the peer does not
  list and that are within the history depth of a head; when no path is longer than the depth it
  holds exactly the nodes that can be reached from a head on a path that avoids what the peer lists.
\<close>

theorem vdiff_exact:
  assumes "iter_ok env" "dag_ok P e"
  shows "distinct (get_vdiff env e remote)
    \<and> (\<forall>n\<in>set (get_vdiff env e remote). \<exists>h. h \<notin> set remote \<and> get_by_hash (arena e) h = Some n
          \<and> (\<exists>g\<in>heads e. \<exists>k\<le>100. (g, h) \<in> links (arena e) ^^ k))
    \<and> ((\<forall>g\<in>heads e. \<forall>k x. (g, x) \<in> links (arena e) ^^ k \<longrightarrow> k \<le> 100) \<longrightarrow>
        set (get_vdiff env e remote) =
          {n. \<exists>g\<in>heads e - set remote. \<exists>h. (g, h) \<in> (Restr (links (arena e)) (- set remote))\<^sup>*
             \<and> get_by_hash (arena e) h = Some n})"
proof -
  let ?w = "walk (arena e) (set remote) {} (start_queue env e)"
  have fin: "finite (heads e)" using assms(2) by (simp add: dag_ok_def engine_ok_def)
  have "inj_on (get_by_hash (arena e)) (dom (get_by_hash (arena e)))"
  proof (rule inj_onI)
    fix h k assume "h \<in> dom (get_by_hash (arena e))" "get_by_hash (arena e) h = get_by_hash (arena e) k"
    then obtain n where "get_by_hash (arena e) h = Some n" "Some n = get_by_hash (arena e) k"
      by (metis domD)
    then show "h = k" using assms(2) by (metis dag_ok_def)
  qed
  then have "inj_on (\<lambda>h. the (get_by_hash (arena e) h)) {h. get_by_hash (arena e) h \<noteq> None}"
    unfolding inj_on_def by (metis (mono_tags, lifting) domI mem_Collect_eq option.collapse)
  then have "distinct (get_vdiff env e remote)"
    using walk_distinct [of "arena e" "set remote" "{}" "start_queue env e"]
    by (simp add: get_vdiff_def vdiff_loop_walk List.map_filter_def distinct_map comp_def)
      (rule inj_on_subset, assumption, blast)
  moreover have "\<forall>n\<in>set (get_vdiff env e remote). \<exists>h. h \<notin> set remote \<and> get_by_hash (arena e) h = Some n
      \<and> (\<exists>g\<in>heads e. \<exists>k\<le>100. (g, h) \<in> links (arena e) ^^ k)"
  proof
    fix n assume "n \<in> set (get_vdiff env e remote)"
    then obtain h where h: "h \<in> set ?w" "get_by_hash (arena e) h = Some n"
      by (auto simp: set_get_vdiff vdiff_hashes_def)
    have "h \<notin> set remote"
      using walk_distinct [of "arena e" "set remote" "{}" "start_queue env e"] h(1) by auto
    moreover have "\<exists>g\<in>heads e. \<exists>k\<le>100. (g, h) \<in> links (arena e) ^^ k"
      using walk_depth [OF h(1)] by (force simp: set_start_queue [OF assms(1) fin])
    ultimately show "\<exists>h. h \<notin> set remote \<and> get_by_hash (arena e) h = Some n
      \<and> (\<exists>g\<in>heads e. \<exists>k\<le>100. (g, h) \<in> links (arena e) ^^ k)" using h(2) by blast
  qed
  ultimately show ?thesis
    using vdiff_hashes_exact [OF assms(1) fin] by (auto simp: set_get_vdiff)
qed

section \<open>A concrete engine\<close>

definition sample_env :: call_env where
  "sample_env = \<lparr>iter_order = sorted_list_of_set, io_error = None\<rparr>"

lemma sample_env_ok [simp]: "iter_ok sample_env"
  by (simp add: iter_ok_def sample_env_def)

lemma sample_vacant [simp]: "vacant_key (vacant sample_platform)"
  using vacant_next_key by (simp add: sample_platform_def vacant_key_def next_key_def)

abbreviation "sample_first \<equiv> compute_hash sample_hash (sample_node [] 1)"

definition sample_engine :: MerkleCrdtEngine where
  "sample_engine = appended sample_platform sample_env sample_first (sample_node [] 1) (with_gc_threshold None 1000)"

lemma sample_engine_ok:
  "dag_ok sample_platform sample_engine" "heads sample_engine = {sample_first}"
  "get_by_hash (arena sample_engine) = [sample_first \<mapsto> sample_node [] 1]"
  "links (arena sample_engine) = {}"
proof -
  have new: "arena (with_gc_threshold None 1000) = arena_new" "heads (with_gc_threshold None 1000) = {}"
    by (simp_all add: with_gc_threshold_def)
  have "fresh_hash sample_first (arena (with_gc_threshold None 1000))"
    by (auto simp: fresh_hash_def new links_def)
  note ok = appended_dag_ok [OF sample_env_ok sample_vacant dag_ok_new [of sample_platform None 1000] this]
  show "dag_ok sample_platform sample_engine" "heads sample_engine = {sample_first}"
    "get_by_hash (arena sample_engine) = [sample_first \<mapsto> sample_node [] 1]"
    using ok [of "sample_node [] 1"] unfolding sample_engine_def
    by (simp_all add: new sample_node_def sample_platform_def)
  then show "links (arena sample_engine) = {}"
    by (auto simp: links_def sample_node_def split: if_splits)
qed

lemma sample_engine_depth: "(g, x) \<in> links (arena sample_engine) ^^ k \<Longrightarrow> k \<le> 100"
  by (cases k) (auto simp: sample_engine_ok(4))

theorem compaction_keeps_frontier_witness:
  "dag_ok sample_platform sample_engine
   \<and> get_by_hash (arena (compact_history sample_env sample_engine)) sample_first = Some (sample_node [] 1)"
  using compaction_keeps_frontier [OF sample_env_ok sample_engine_ok(1)] sample_engine_depth sample_engine_ok
  by auto

theorem append_extends_witness:
  "\<exists>h e'. append_mutation sample_platform sample_env (replicate 32 7) (replicate 64 7) [] None
       (with_gc_threshold None 1000) = (h, e') \<and> dag_ok sample_platform e' \<and> heads e' = {h}
       \<and> mutations_since_gc e' = 1"
proof -
  let ?e = "with_gc_threshold None 1000"
  obtain h e' where a: "append_mutation sample_platform sample_env (replicate 32 7) (replicate 64 7) [] None ?e = (h, e')"
    by fastforce
  have "fresh_hash h (arena ?e)" by (auto simp: fresh_hash_def with_gc_threshold_def links_def)
  then have "dag_ok sample_platform e' \<and> heads e' = {h} \<and> mutations_since_gc e' = 1"
    using append_extends [OF sample_env_ok sample_vacant dag_ok_new a]
    by (simp add: with_gc_threshold_def)
  with a show ?thesis by blast
qed

theorem vdiff_exact_witness:
  "set (get_vdiff sample_env sample_engine []) = {sample_node [] 1}"
  using vdiff_exact [OF sample_env_ok sample_engine_ok(1), of "[]"] sample_engine_depth sample_engine_ok
  by auto

end
