(* ===== verification/Quorum.thy ===== *)
theory Quorum
  imports Store
begin

text \<open>
  Quorum and equivocation (\<open>aimp_node/src/crdt/consensus.rs\<close>): votes per prompt and decision, the
  verified prompts, and the detection of conflicting mutations with the deny list. Hash maps that
  are only looked up are option functions; the decisions of a prompt, whose values the code
  iterates over, are an association list. The locale \<open>vote_book\<close> is the abstract contract of voting;
  the manager is its instance.
\<close>

section \<open>The code\<close>

record EquivocationProof =
  proof_origin :: string
  proof_tick :: u64
  hash_a :: Hash32
  hash_b :: Hash32

record QuorumManager =
  threshold :: nat
  decisions :: "Hash32 \<Rightarrow> (Hash32 \<times> bytes set) list option"
  verified :: "Hash32 set"
  denied :: "string set"
  equivocation_proofs :: "EquivocationProof list"
  observed_ticks :: "string \<times> u64 \<Rightarrow> (Hash32 \<times> Hash32) option"

definition quorum_new :: "nat \<Rightarrow> QuorumManager" where
  "quorum_new t = \<lparr>threshold = t, decisions = Map.empty, verified = {}, denied = {},
     equivocation_proofs = [], observed_ticks = Map.empty\<rparr>"

text \<open>The loop of \<open>check_equivocation\<close> over the entries of the clock, with its early return.\<close>

primrec check_ticks ::
  "Hash32 \<Rightarrow> Hash32 \<Rightarrow> vector_clock \<Rightarrow> QuorumManager \<Rightarrow> EquivocationProof option \<times> QuorumManager" where
  "check_ticks dh nh [] q = (None, q)"
| "check_ticks dh nh (entry # rest) q =
     (case entry of (origin, t) \<Rightarrow>
        if origin \<in> denied q then check_ticks dh nh rest q
        else case observed_ticks q (origin, t) of
          Some (prev_data, prev_node) \<Rightarrow>
            if prev_data \<noteq> dh
            then let pr = \<lparr>proof_origin = origin, proof_tick = t, hash_a = prev_node, hash_b = nh\<rparr>
                 in (Some pr, q\<lparr>denied := insert origin (denied q),
                                equivocation_proofs := equivocation_proofs q @ [pr]\<rparr>)
            else check_ticks dh nh rest q
        | None \<Rightarrow>
            check_ticks dh nh rest (q\<lparr>observed_ticks := (observed_ticks q)((origin, t) \<mapsto> (dh, nh))\<rparr>))"

definition check_equivocation ::
  "DagNode \<Rightarrow> Hash32 \<Rightarrow> QuorumManager \<Rightarrow> EquivocationProof option \<times> QuorumManager" where
  "check_equivocation n node_hash q = check_ticks (data_hash n) node_hash (vclock n) q"

definition is_denied :: "QuorumManager \<Rightarrow> string \<Rightarrow> bool" where
  "is_denied q origin \<longleftrightarrow> origin \<in> denied q"

definition observe :: "platform \<Rightarrow> bytes \<Rightarrow> AiEvidence \<Rightarrow> QuorumManager \<Rightarrow> bool \<times> QuorumManager" where
  "observe P origin ev q =
     (let prompt = blake P (ascii (ev_prompt ev)); decision = blake P (ascii (ev_decision ev))
      in if prompt \<in> verified q then (False, q)
         else if hex_encode P origin \<in> denied q then (False, q)
         else let entry = (case decisions q prompt of None \<Rightarrow> [] | Some ds \<Rightarrow> ds);
                  q = q\<lparr>decisions := (decisions q)(prompt \<mapsto> entry)\<rparr>
              in if \<exists>(_, voters)\<in>set entry. origin \<in> voters then (False, q)
                 else let voters = insert origin (case map_of entry decision of None \<Rightarrow> {} | Some vs \<Rightarrow> vs);
                          q = q\<lparr>decisions := (decisions q)(prompt \<mapsto> AList.update decision voters entry)\<rparr>
                      in if card voters \<ge> threshold q
                         then (True, q\<lparr>verified := insert prompt (verified q)\<rparr>) else (False, q))"

definition is_verified :: "platform \<Rightarrow> QuorumManager \<Rightarrow> string \<Rightarrow> bool" where
  "is_verified P q prompt \<longleftrightarrow> blake P (ascii prompt) \<in> verified q"

definition restore_verified :: "Hash32 set \<Rightarrow> QuorumManager \<Rightarrow> QuorumManager" where
  "restore_verified hs q = q\<lparr>verified := verified q \<union> hs\<rparr>"

definition get_support_count :: "platform \<Rightarrow> QuorumManager \<Rightarrow> string \<Rightarrow> string \<Rightarrow> nat" where
  "get_support_count P q prompt decision =
     (case decisions q (blake P (ascii prompt)) of
        None \<Rightarrow> 0
      | Some ds \<Rightarrow> (case map_of ds (blake P (ascii decision)) of None \<Rightarrow> 0 | Some vs \<Rightarrow> card vs))"

section \<open>The contract of voting\<close>

text \<open>
  A book of votes: casting a vote on an open subject either changes no vote or adds a voter that has
  not voted on the subject to one of its options, and closes the subject exactly when that option
  reaches the threshold. Whatever votes are cast, every voter has one vote per subject and a closed
  subject has exactly one option with enough votes.
\<close>

definition voted :: "('p \<Rightarrow> 'd \<Rightarrow> 'o set) \<Rightarrow> 'p \<Rightarrow> 'o set" where
  "voted vs p = (\<Union>d. vs p d)"

locale vote_book =
  fixes votes :: "'s \<Rightarrow> 'p \<Rightarrow> 'd \<Rightarrow> 'o set" and closed :: "'s \<Rightarrow> 'p set" and limit :: "'s \<Rightarrow> nat"
    and cast :: "'p \<Rightarrow> 'd \<Rightarrow> 'o \<Rightarrow> 's \<Rightarrow> 's" and ok :: "'s \<Rightarrow> bool"
  assumes cast_ok: "ok s \<Longrightarrow> ok (cast p d x s)"
    and cast_limit: "limit (cast p d x s) = limit s"
    and cast_step: "ok s \<Longrightarrow>
      (votes (cast p d x s) = votes s \<and> closed (cast p d x s) = closed s)
      \<or> (p \<notin> closed s \<and> x \<notin> voted (votes s) p
         \<and> votes (cast p d x s) = (votes s)(p := (votes s p)(d := insert x (votes s p d)))
         \<and> closed (cast p d x s) =
             (if limit s \<le> card (insert x (votes s p d)) then insert p (closed s) else closed s))"
begin

definition one_vote :: "'s \<Rightarrow> bool" where
  "one_vote s \<longleftrightarrow> (\<forall>p d d' x. x \<in> votes s p d \<longrightarrow> x \<in> votes s p d' \<longrightarrow> d = d')
     \<and> (\<forall>p d. finite (votes s p d))"

text \<open>Subjects that were closed from outside, \<open>R\<close>, need no votes.\<close>

definition decided :: "'p set \<Rightarrow> 's \<Rightarrow> bool" where
  "decided R s \<longleftrightarrow> (\<forall>p d. p \<notin> closed s \<longrightarrow> card (votes s p d) < max 1 (limit s))
     \<and> (\<forall>p\<in>closed s - R. \<exists>!d. max 1 (limit s) \<le> card (votes s p d))"

lemma cast_one_vote:
  assumes "ok s" "one_vote s"
  shows "one_vote (cast p d x s)"
  using cast_step [OF assms(1), of p d x]
proof
  assume "votes (cast p d x s) = votes s \<and> closed (cast p d x s) = closed s"
  then show ?thesis using assms(2) by (simp add: one_vote_def)
next
  assume a: "p \<notin> closed s \<and> x \<notin> voted (votes s) p
         \<and> votes (cast p d x s) = (votes s)(p := (votes s p)(d := insert x (votes s p d)))
         \<and> closed (cast p d x s) =
             (if limit s \<le> card (insert x (votes s p d)) then insert p (closed s) else closed s)"
  have "y \<in> votes (cast p d x s) p' d' \<longleftrightarrow> y \<in> votes s p' d' \<or> (p' = p \<and> d' = d \<and> y = x)" for y p' d'
    using a by auto
  moreover have "x \<notin> votes s p d'" for d' using a by (simp add: voted_def)
  moreover have "finite (votes (cast p d x s) p' d')" for p' d'
    using a assms(2) by (simp add: one_vote_def)
  ultimately show ?thesis using assms(2) unfolding one_vote_def by metis
qed

lemma cast_decided:
  assumes "ok s" "one_vote s" "decided R s"
  shows "decided R (cast p d x s)"
  using cast_step [OF assms(1), of p d x]
proof
  assume "votes (cast p d x s) = votes s \<and> closed (cast p d x s) = closed s"
  then show ?thesis using assms(3) by (simp add: decided_def cast_limit)
next
  let ?s = "cast p d x s" let ?m = "max 1 (limit s)"
  assume a: "p \<notin> closed s \<and> x \<notin> voted (votes s) p
         \<and> votes ?s = (votes s)(p := (votes s p)(d := insert x (votes s p d)))
         \<and> closed ?s = (if limit s \<le> card (insert x (votes s p d)) then insert p (closed s) else closed s)"
  have card: "card (insert x (votes s p d)) = Suc (card (votes s p d))"
    using a assms(2) by (auto simp: voted_def one_vote_def)
  have open_p: "card (votes s p d') < ?m" for d'
    using assms(3) a by (simp add: decided_def)
  have enough: "?m \<le> card (votes ?s p d') \<longleftrightarrow> d' = d \<and> limit s \<le> card (insert x (votes s p d))" for d'
    using open_p [of d'] a card by auto
  show ?thesis
    unfolding decided_def cast_limit
  proof (intro conjI allI impI ballI)
    fix p' d' assume "p' \<notin> closed ?s"
    then show "card (votes ?s p' d') < ?m"
      using assms(3) a enough [of d'] by (cases "p' = p") (auto simp: decided_def not_less split: if_splits)
  next
    fix p' assume "p' \<in> closed ?s - R"
    then show "\<exists>!d. ?m \<le> card (votes ?s p' d)"
      using assms(3) a enough by (cases "p' = p") (auto simp: decided_def split: if_splits)
  qed
qed

end

text \<open>The votes of a manager, and casting one.\<close>

definition votes_of :: "QuorumManager \<Rightarrow> Hash32 \<Rightarrow> Hash32 \<Rightarrow> bytes set" where
  "votes_of q p d =
     (case decisions q p of None \<Rightarrow> {} | Some ds \<Rightarrow> (case map_of ds d of None \<Rightarrow> {} | Some vs \<Rightarrow> vs))"

definition quorum_ok :: "QuorumManager \<Rightarrow> bool" where
  "quorum_ok q \<longleftrightarrow> (\<forall>p ds. decisions q p = Some ds \<longrightarrow> distinct (map fst ds))"

text \<open>\<open>observe\<close> on hashed prompts and decisions.\<close>

definition cast_vote :: "platform \<Rightarrow> Hash32 \<Rightarrow> Hash32 \<Rightarrow> bytes \<Rightarrow> QuorumManager \<Rightarrow> QuorumManager" where
  "cast_vote P p d x q =
     (if p \<in> verified q \<or> hex_encode P x \<in> denied q then q
      else let entry = (case decisions q p of None \<Rightarrow> [] | Some ds \<Rightarrow> ds)
           in if x \<in> voted (votes_of q) p then q\<lparr>decisions := (decisions q)(p \<mapsto> entry)\<rparr>
              else let vs = insert x (votes_of q p d);
                       q' = q\<lparr>decisions := (decisions q)(p \<mapsto> AList.update d vs entry)\<rparr>
                   in if threshold q \<le> card vs then q'\<lparr>verified := insert p (verified q)\<rparr> else q')"

lemma voted_entry:
  assumes "quorum_ok q"
  shows "(\<exists>(_, vs)\<in>set (case decisions q p of None \<Rightarrow> [] | Some ds \<Rightarrow> ds). x \<in> vs) \<longleftrightarrow> x \<in> voted (votes_of q) p"
proof (cases "decisions q p")
  case (Some ds)
  then have "distinct (map fst ds)" using assms by (simp add: quorum_ok_def)
  then have mem: "(d, vs) \<in> set ds \<longleftrightarrow> map_of ds d = Some vs" for d vs by simp
  have "x \<in> voted (votes_of q) p \<longleftrightarrow> (\<exists>d vs. map_of ds d = Some vs \<and> x \<in> vs)"
    using Some by (force simp: voted_def votes_of_def split: option.splits)
  also have "\<dots> \<longleftrightarrow> (\<exists>(_, vs)\<in>set ds. x \<in> vs)" by (auto simp flip: mem)
  finally show ?thesis using Some by simp
qed (simp add: voted_def votes_of_def)

lemma observe_cast:
  assumes "quorum_ok q"
  shows "snd (observe P x ev q) =
    cast_vote P (blake P (ascii (ev_prompt ev))) (blake P (ascii (ev_decision ev))) x q"
  using voted_entry [OF assms, of "blake P (ascii (ev_prompt ev))" x]
  by (auto simp: observe_def cast_vote_def Let_def votes_of_def split: option.splits)

lemma votes_of_verified [simp]: "votes_of (q\<lparr>verified := v\<rparr>) = votes_of q"
  by (simp add: votes_of_def fun_eq_iff)

lemma votes_of_update:
  "votes_of (q\<lparr>decisions := (decisions q)(p \<mapsto> AList.update d vs (case decisions q p of None \<Rightarrow> [] | Some ds \<Rightarrow> ds))\<rparr>)
     = (votes_of q)(p := (votes_of q p)(d := vs))"
  by (auto simp: votes_of_def fun_eq_iff update_conv' split: option.splits)

lemma votes_of_touch:
  "votes_of (q\<lparr>decisions := (decisions q)(p \<mapsto> (case decisions q p of None \<Rightarrow> [] | Some ds \<Rightarrow> ds))\<rparr>) = votes_of q"
  by (auto simp: votes_of_def fun_eq_iff split: option.splits)

interpretation votes: vote_book votes_of verified threshold "cast_vote P" quorum_ok for P
proof unfold_locales
  fix p d x q assume ok: "quorum_ok q"
  have "distinct (map fst (case decisions q p of None \<Rightarrow> [] | Some ds \<Rightarrow> ds))"
    using ok by (auto simp: quorum_ok_def split: option.split)
  then show "quorum_ok (cast_vote P p d x q)"
    using ok by (auto simp: cast_vote_def quorum_ok_def Let_def distinct_update)
  show "(votes_of (cast_vote P p d x q) = votes_of q \<and> verified (cast_vote P p d x q) = verified q)
      \<or> (p \<notin> verified q \<and> x \<notin> voted (votes_of q) p
         \<and> votes_of (cast_vote P p d x q) = (votes_of q)(p := (votes_of q p)(d := insert x (votes_of q p d)))
         \<and> verified (cast_vote P p d x q) =
             (if threshold q \<le> card (insert x (votes_of q p d)) then insert p (verified q) else verified q))"
    by (simp add: cast_vote_def Let_def votes_of_update votes_of_touch)
next
  fix p d x q show "threshold (cast_vote P p d x q) = threshold q"
    by (simp add: cast_vote_def Let_def)
qed

section \<open>Runs of a manager\<close>

text \<open>
  A run with threshold \<open>t\<close>: \<open>R\<close> are the prompts restored from the store, \<open>V\<close> the observed votes,
  \<open>N\<close> the nodes checked for equivocation with their hashes.
\<close>

inductive quorum_run ::
  "platform \<Rightarrow> nat \<Rightarrow> Hash32 set \<Rightarrow> (bytes \<times> AiEvidence) set \<Rightarrow> (DagNode \<times> Hash32) set \<Rightarrow> QuorumManager \<Rightarrow> bool"
  for P t where
  start: "quorum_run P t {} {} {} (quorum_new t)"
| vote: "quorum_run P t R V N q \<Longrightarrow> quorum_run P t R (insert (x, ev) V) N (snd (observe P x ev q))"
| check: "quorum_run P t R V N q \<Longrightarrow> quorum_run P t R V (insert (n, h) N) (snd (check_equivocation n h q))"
| restore: "quorum_run P t R V N q \<Longrightarrow> quorum_run P t (R \<union> H) V N (restore_verified H q)"

inductive_cases quorum_run_emptyE: "quorum_run P t R {} {} q"

lemma check_ticks_simps [simp]:
  "decisions (snd (check_ticks dh nh vc q)) = decisions q"
  "verified (snd (check_ticks dh nh vc q)) = verified q"
  "threshold (snd (check_ticks dh nh vc q)) = threshold q"
  by (induction vc arbitrary: q) (simp_all add: Let_def split: option.split prod.split)

lemma votes_of_decisions: "decisions q' = decisions q \<Longrightarrow> votes_of q' = votes_of q"
  by (simp add: votes_of_def fun_eq_iff)

lemma votes_of_new [simp]: "votes_of (quorum_new t) p d = {}"
  by (simp add: votes_of_def quorum_new_def)

text \<open>The votes that were cast.\<close>

definition cast_votes :: "platform \<Rightarrow> (bytes \<times> AiEvidence) set \<Rightarrow> Hash32 \<Rightarrow> Hash32 \<Rightarrow> bytes set" where
  "cast_votes P V p d =
     {x. \<exists>ev. (x, ev) \<in> V \<and> blake P (ascii (ev_prompt ev)) = p \<and> blake P (ascii (ev_decision ev)) = d}"

lemma votes_cong:
  assumes "votes_of q' = votes_of q" "verified q' = verified q" "threshold q' = threshold q"
  shows "votes.one_vote q' = votes.one_vote q" "votes.decided R q' = votes.decided R q"
  by (simp_all add: votes.one_vote_def votes.decided_def assms)

lemma quorum_run_votes:
  "quorum_run P t R V N q \<Longrightarrow> quorum_ok q \<and> threshold q = t \<and> votes.one_vote q \<and> votes.decided R q
     \<and> (\<forall>p d. votes_of q p d \<subseteq> cast_votes P V p d)"
proof (induction rule: quorum_run.induct)
  case start
  then show ?case
    by (simp add: quorum_ok_def votes.one_vote_def votes.decided_def) (simp add: quorum_new_def)
next
  case (vote R V N q x ev)
  let ?p = "blake P (ascii (ev_prompt ev))" let ?d = "blake P (ascii (ev_decision ev))"
  have ok: "quorum_ok q" "votes.one_vote q" "votes.decided R q" using vote.IH by simp_all
  have "votes_of (cast_vote P ?p ?d x q) p d \<subseteq> cast_votes P (insert (x, ev) V) p d" for p d
  proof -
    have "votes_of (cast_vote P ?p ?d x q) p d \<subseteq> votes_of q p d \<union> (if p = ?p \<and> d = ?d then {x} else {})"
      using votes.cast_step [OF ok(1), of P ?p ?d x] by (auto split: if_splits)
    moreover have "cast_votes P V p d \<union> (if p = ?p \<and> d = ?d then {x} else {}) \<subseteq> cast_votes P (insert (x, ev) V) p d"
      by (auto simp: cast_votes_def)
    ultimately show ?thesis using vote.IH by blast
  qed
  then show ?case
    unfolding observe_cast [OF ok(1)]
    using vote.IH votes.cast_ok [OF ok(1)] votes.cast_limit votes.cast_one_vote [OF ok(1,2)]
      votes.cast_decided [OF ok] by simp
next
  case (check R V N q n h)
  let ?q = "snd (check_equivocation n h q)"
  have eq: "decisions ?q = decisions q" "verified ?q = verified q" "threshold ?q = threshold q"
    by (simp_all add: check_equivocation_def)
  note same = votes_of_decisions [OF eq(1)]
  show ?case using check.IH unfolding quorum_ok_def same votes_cong [OF same eq(2,3)] eq .
next
  case (restore R V N q H)
  let ?q = "restore_verified H q"
  have eq: "decisions ?q = decisions q" "verified ?q = verified q \<union> H" "threshold ?q = threshold q"
    by (simp_all add: restore_verified_def)
  note same = votes_of_decisions [OF eq(1)]
  have "votes.decided R q" using restore.IH by blast
  then have "votes.decided (R \<union> H) ?q" unfolding votes.decided_def same eq by blast
  then show ?case using restore.IH unfolding quorum_ok_def votes.one_vote_def same eq by blast
qed

text \<open>
  C7: In every run, an origin has at most one vote per prompt, the counted votes were cast, a prompt
  is verified exactly when a decision has as many votes as the threshold (at least one), unless it
  was restored from the store, and then that decision is the only one.
\<close>

theorem quorum_agreement:
  assumes "quorum_run P t R V N q"
  shows "(\<forall>p d d' x. x \<in> votes_of q p d \<and> x \<in> votes_of q p d' \<longrightarrow> d = d')
    \<and> (\<forall>p d. votes_of q p d \<subseteq> cast_votes P V p d)
    \<and> (\<forall>p. p \<notin> R \<longrightarrow> (p \<in> verified q \<longleftrightarrow> (\<exists>d. max 1 t \<le> card (votes_of q p d)))
          \<and> (p \<in> verified q \<longrightarrow> (\<exists>!d. max 1 t \<le> card (votes_of q p d))))"
proof -
  have inv: "threshold q = t" "votes.one_vote q" "votes.decided R q" "\<forall>p d. votes_of q p d \<subseteq> cast_votes P V p d"
    using quorum_run_votes [OF assms] by simp_all
  have "\<exists>!d. max 1 t \<le> card (votes_of q p d)" if "p \<in> verified q" "p \<notin> R" for p
    using inv(1,3) that by (simp add: votes.decided_def)
  moreover have "p \<in> verified q" if "max 1 t \<le> card (votes_of q p d)" for p d
    using inv(1,3) that unfolding votes.decided_def by (metis not_less)
  moreover have "\<forall>p d d' x. x \<in> votes_of q p d \<and> x \<in> votes_of q p d' \<longrightarrow> d = d'"
    using inv(2) unfolding votes.one_vote_def by blast
  ultimately show ?thesis using inv(4) by (intro conjI allI impI) (assumption | blast)+
qed

text \<open>
  \<open>observe\<close> answers that a vote completes a quorum exactly when it adds a vote to an open prompt
  that makes the votes of the decision reach the threshold; the answer is given at most once per
  prompt, because the prompt is verified from then on.
\<close>

theorem observe_verdict:
  assumes "quorum_run P t R V N q" "observe P x ev q = (verdict, q')"
    and "p = blake P (ascii (ev_prompt ev))" "d = blake P (ascii (ev_decision ev))"
  shows "(verdict \<longleftrightarrow> p \<notin> verified q \<and> hex_encode P x \<notin> denied q \<and> (\<forall>d'. x \<notin> votes_of q p d')
            \<and> t \<le> Suc (card (votes_of q p d)))
    \<and> verified q' = (if verdict then insert p (verified q) else verified q)
    \<and> (p \<notin> verified q \<and> hex_encode P x \<notin> denied q \<longrightarrow> (\<exists>d'. x \<in> votes_of q' p d'))"
proof -
  have ok: "quorum_ok q" "threshold q = t" "votes.one_vote q" using quorum_run_votes [OF assms(1)] by simp_all
  have card: "x \<notin> voted (votes_of q) p \<Longrightarrow> card (insert x (votes_of q p d)) = Suc (card (votes_of q p d))"
    using ok(3) by (auto simp: voted_def votes.one_vote_def)
  have v: "verdict \<longleftrightarrow> p \<notin> verified q \<and> hex_encode P x \<notin> denied q \<and> x \<notin> voted (votes_of q) p
      \<and> threshold q \<le> card (insert x (votes_of q p d))"
    using assms(2-4) voted_entry [OF ok(1), of p x]
    by (auto simp: observe_def Let_def votes_of_def split: option.splits if_splits)
  have q': "q' = cast_vote P p d x q"
    using observe_cast [OF ok(1), of P x ev] assms(2-4) by simp
  have "verified q' = (if verdict then insert p (verified q) else verified q)"
    by (auto simp: q' v cast_vote_def Let_def)
  moreover have "\<exists>d'. x \<in> votes_of q' p d'" if "p \<notin> verified q" "hex_encode P x \<notin> denied q"
  proof (cases "x \<in> voted (votes_of q) p")
    case True
    then show ?thesis using that by (auto simp: q' cast_vote_def votes_of_touch voted_def)
  next
    case False
    then have "votes_of q' p d = insert x (votes_of q p d)"
      using that by (simp add: q' cast_vote_def Let_def votes_of_update)
    then show ?thesis by blast
  qed
  ultimately show ?thesis using v card ok(2) by (auto simp: voted_def)
qed

section \<open>Equivocation\<close>

text \<open>Two checked nodes claim one tick of one origin for different data.\<close>

definition conflict :: "(DagNode \<times> Hash32) set \<Rightarrow> string \<Rightarrow> u64 \<Rightarrow> Hash32 \<Rightarrow> Hash32 \<Rightarrow> bool" where
  "conflict N origin t h h' \<longleftrightarrow> (\<exists>n n'. (n, h) \<in> N \<and> (n', h') \<in> N \<and> (origin, t) \<in> set (vclock n)
     \<and> (origin, t) \<in> set (vclock n') \<and> data_hash n \<noteq> data_hash n')"

definition ticks_ok :: "(DagNode \<times> Hash32) set \<Rightarrow> QuorumManager \<Rightarrow> bool" where
  "ticks_ok N q \<longleftrightarrow>
     (\<forall>origin t dh h. observed_ticks q (origin, t) = Some (dh, h) \<longrightarrow>
        (\<exists>n. (n, h) \<in> N \<and> (origin, t) \<in> set (vclock n) \<and> data_hash n = dh))
     \<and> (\<forall>pr\<in>set (equivocation_proofs q). conflict N (proof_origin pr) (proof_tick pr) (hash_a pr) (hash_b pr))
     \<and> denied q = proof_origin ` set (equivocation_proofs q)"

lemma conflict_mono: "conflict N u t h h' \<Longrightarrow> N \<subseteq> N' \<Longrightarrow> conflict N' u t h h'"
  unfolding conflict_def by blast

lemma ticks_ok_mono: "ticks_ok N q \<Longrightarrow> N \<subseteq> N' \<Longrightarrow> ticks_ok N' q"
  unfolding ticks_ok_def by (meson conflict_mono subsetD)

lemma check_ticks_ok:
  assumes "(n, h) \<in> N" "set vc \<subseteq> set (vclock n)" "ticks_ok N q"
  shows "ticks_ok N (snd (check_ticks (data_hash n) h vc q))"
  using assms(2,3)
proof (induction vc arbitrary: q)
  case (Cons e vc)
  obtain u t where e: "e = (u, t)" by fastforce
  have mem: "(u, t) \<in> set (vclock n)" "set vc \<subseteq> set (vclock n)" using Cons.prems(1) e by auto
  consider "u \<in> denied q" | "u \<notin> denied q" "observed_ticks q (u, t) = None"
    | dh k where "u \<notin> denied q" "observed_ticks q (u, t) = Some (dh, k)"
    by (metis not_None_eq surj_pair)
  then show ?case
  proof cases
    case 2
    have "ticks_ok N (q\<lparr>observed_ticks := (observed_ticks q)((u, t) \<mapsto> (data_hash n, h))\<rparr>)"
      using Cons.prems(2) mem(1) assms(1) unfolding ticks_ok_def by auto
    then show ?thesis using Cons.IH mem(2) 2 e by simp
  next
    case 3
    obtain m where m: "(m, k) \<in> N" "(u, t) \<in> set (vclock m)" "data_hash m = dh"
      using Cons.prems(2) 3(2) unfolding ticks_ok_def by blast
    show ?thesis
    proof (cases "dh = data_hash n")
      case True
      then show ?thesis using Cons.IH mem(2) 3 e Cons.prems(2) by simp
    next
      case False
      then have "conflict N u t k h" using m mem(1) assms(1) unfolding conflict_def by blast
      then show ?thesis using Cons.prems(2) 3 e False by (simp add: ticks_ok_def Let_def)
    qed
  qed (use Cons.IH mem(2) e Cons.prems(2) in simp)
qed simp

lemma observe_ticks [simp]:
  "observed_ticks (snd (observe P x ev q)) = observed_ticks q"
  "equivocation_proofs (snd (observe P x ev q)) = equivocation_proofs q"
  "denied (snd (observe P x ev q)) = denied q"
  by (simp_all add: observe_def Let_def)

lemma quorum_run_ticks: "quorum_run P t R V N q \<Longrightarrow> ticks_ok N q"
proof (induction rule: quorum_run.induct)
  case (check R V N q n h)
  have "ticks_ok (insert (n, h) N) q" by (rule ticks_ok_mono [OF check.IH]) blast
  then show ?case unfolding check_equivocation_def by (intro check_ticks_ok) auto
qed (auto simp: ticks_ok_def quorum_new_def restore_verified_def)

text \<open>An origin that is not denied has all its ticks recorded, when clocks have one entry.\<close>

definition recorded :: "(DagNode \<times> Hash32) set \<Rightarrow> QuorumManager \<Rightarrow> bool" where
  "recorded N q \<longleftrightarrow> (\<forall>(n, h)\<in>N. \<forall>origin t. vclock n = [(origin, t)] \<and> origin \<notin> denied q \<longrightarrow>
     (\<exists>k. observed_ticks q (origin, t) = Some (data_hash n, k)))"

lemma recordedD:
  "recorded N q \<Longrightarrow> (n, h) \<in> N \<Longrightarrow> vclock n = [(u, tk)] \<Longrightarrow> u \<notin> denied q \<Longrightarrow>
   \<exists>k. observed_ticks q (u, tk) = Some (data_hash n, k)"
  unfolding recorded_def by blast

lemma recorded_other: "recorded N q \<Longrightarrow> observed_ticks q' = observed_ticks q \<Longrightarrow> denied q' = denied q \<Longrightarrow> recorded N q'"
  unfolding recorded_def by simp

lemma quorum_run_recorded:
  "quorum_run P t R V N q \<Longrightarrow> \<forall>(n, h)\<in>N. length (vclock n) = 1 \<Longrightarrow> recorded N q"
proof (induction rule: quorum_run.induct)
  case start
  show ?case by (simp add: recorded_def)
next
  case (check R V N q n h)
  then have rec: "recorded N q" and len: "length (vclock n) = 1" by auto
  obtain u tk where vc: "vclock n = [(u, tk)]"
    using len by (metis One_nat_def length_0_conv length_Suc_conv surj_pair)
  consider "u \<in> denied q" | "u \<notin> denied q" "observed_ticks q (u, tk) = None"
    | dh k where "u \<notin> denied q" "observed_ticks q (u, tk) = Some (dh, k)"
    by (metis not_None_eq surj_pair)
  then show ?case
  proof cases
    case 1
    then show ?thesis using rec vc by (auto simp: check_equivocation_def recorded_def)
  next
    case 2
    then show ?thesis using rec vc by (fastforce simp: check_equivocation_def recorded_def)
  next
    case 3
    then show ?thesis using rec vc by (auto simp: check_equivocation_def recorded_def Let_def)
  qed
next
  case (vote R V N q x ev)
  then have "recorded N q" by blast
  then show ?case by (rule recorded_other) simp_all
next
  case (restore R V N q H)
  then have "recorded N q" by blast
  then show ?case by (rule recorded_other) (simp_all add: restore_verified_def)
qed

text \<open>
  C15: Every collected proof of equivocation names two checked nodes that claim one tick of one
  origin for different data, the denied origins are those of the proofs, and when every clock has
  one entry an origin is denied exactly when two checked nodes of it conflict.
\<close>

theorem equivocation_exact:
  assumes "quorum_run P t R V N q"
  shows "(\<forall>pr\<in>set (equivocation_proofs q). conflict N (proof_origin pr) (proof_tick pr) (hash_a pr) (hash_b pr))
    \<and> denied q = proof_origin ` set (equivocation_proofs q)
    \<and> ((\<forall>(n, h)\<in>N. length (vclock n) = 1) \<longrightarrow> (\<forall>u. u \<in> denied q \<longleftrightarrow> (\<exists>tk h h'. conflict N u tk h h')))"
proof -
  have ok: "ticks_ok N q" by (rule quorum_run_ticks [OF assms])
  have "u \<in> denied q" if single: "\<forall>(n, h)\<in>N. length (vclock n) = 1" and c: "conflict N u tk h h'" for u tk h h'
  proof (rule ccontr)
    assume u: "u \<notin> denied q"
    obtain n n' where n: "(n, h) \<in> N" "(n', h') \<in> N" "(u, tk) \<in> set (vclock n)"
      "(u, tk) \<in> set (vclock n')" "data_hash n \<noteq> data_hash n'"
      using c unfolding conflict_def by blast
    have "length (vclock n) = 1" "length (vclock n') = 1" using single n(1,2) by fast+
    then have "vclock n = [(u, tk)]" "vclock n' = [(u, tk)]"
      using n(3,4) by (auto simp: length_Suc_conv)
    then show False
      using recordedD [OF quorum_run_recorded [OF assms single]] n(1,2,5) u by (metis option.inject prod.inject)
  qed
  note complete = this
  have proofs: "\<forall>pr\<in>set (equivocation_proofs q). conflict N (proof_origin pr) (proof_tick pr) (hash_a pr) (hash_b pr)"
    and denied: "denied q = proof_origin ` set (equivocation_proofs q)"
    using ok by (simp_all add: ticks_ok_def)
  have "\<exists>tk h h'. conflict N u tk h h'" if "u \<in> denied q" for u
    using that proofs unfolding denied by blast
  note sound = this
  show ?thesis
  proof (intro conjI impI allI)
    fix u assume "\<forall>(n, h)\<in>N. length (vclock n) = 1"
    then show "u \<in> denied q \<longleftrightarrow> (\<exists>tk h h'. conflict N u tk h h')" using sound complete by metis
  qed (fact proofs denied)+
qed

section \<open>What the deny list reaches\<close>

text \<open>
  A vote is compared with the deny list by the 64 digits of its origin, while the origins of
  the clocks a node builds have eight: denying such origins changes neither the answer to a vote nor
  the votes nor the verified prompts.
\<close>

theorem denial_ineffective:
  assumes "\<forall>b. length (hex_encode P b) = 2 * length b" "length x = 32" "\<forall>u\<in>denied q. length u = 8"
  shows "fst (observe P x ev q) = fst (observe P x ev (q\<lparr>denied := {}\<rparr>))
    \<and> votes_of (snd (observe P x ev q)) = votes_of (snd (observe P x ev (q\<lparr>denied := {}\<rparr>)))
    \<and> verified (snd (observe P x ev q)) = verified (snd (observe P x ev (q\<lparr>denied := {}\<rparr>)))"
proof -
  have "hex_encode P x \<notin> denied q" using assms by fastforce
  then have "observe P x ev (q\<lparr>denied := {}\<rparr>) =
      map_prod id (\<lambda>q. q\<lparr>denied := {}\<rparr>) (observe P x ev q)"
    by (cases q) (auto simp: observe_def Let_def)
  moreover have "votes_of (q'\<lparr>denied := {}\<rparr>) = votes_of q'" for q'
    by (rule votes_of_decisions) simp
  ultimately show ?thesis by simp
qed

text \<open>
  A node whose clock refers to a tick of another origin, as a causal clock does, gets that
  origin denied, although it published only one node at that tick.
\<close>

theorem causal_reference_denied:
  assumes "vclock n = [(b, t)]" "vclock m = [(a, s), (b, t)]" "a \<noteq> b" "data_hash n \<noteq> data_hash m"
  shows "b \<in> denied (snd (check_equivocation m h' (snd (check_equivocation n h (quorum_new k)))))"
  using assms by (simp add: check_equivocation_def quorum_new_def Let_def)

section \<open>Concrete runs\<close>

definition sample_evidence :: AiEvidence where
  "sample_evidence = \<lparr>ev_prompt = ''ask'', ev_decision = ''ok'', model_hash = replicate 32 0, timestamp = 0\<rparr>"

definition sample_vote :: QuorumManager where
  "sample_vote = snd (observe sample_platform [1] sample_evidence (quorum_new 1))"

lemma sample_vote_run: "quorum_run sample_platform 1 {} {([1], sample_evidence)} {} sample_vote"
  unfolding sample_vote_def by (rule quorum_run.vote [OF quorum_run.start])

lemma sample_vote_verified: "verified sample_vote = {blake sample_platform (ascii ''ask'')}"
  by (simp add: sample_vote_def observe_def quorum_new_def sample_evidence_def Let_def)

theorem quorum_agreement_witness:
  "\<exists>!d. 1 \<le> card (votes_of sample_vote (blake sample_platform (ascii ''ask'')) d)"
  using quorum_agreement [OF sample_vote_run] sample_vote_verified by auto

theorem observe_verdict_witness:
  "fst (observe sample_platform [1] sample_evidence (quorum_new 1))"
proof -
  obtain v q where q: "observe sample_platform [1] sample_evidence (quorum_new 1) = (v, q)" by fastforce
  show ?thesis
    using observe_verdict [OF quorum_run.start [of sample_platform 1] q refl refl] q
    by (simp add: quorum_new_def votes_of_def)
qed

definition sample_conflict :: QuorumManager where
  "sample_conflict = snd (check_equivocation (sample_node [] 2) [2] (snd (check_equivocation (sample_node [] 1) [1] (quorum_new 1))))"

lemma sample_conflict_run:
  "quorum_run sample_platform 1 {} {} {(sample_node [] 2, [2]), (sample_node [] 1, [1])} sample_conflict"
  unfolding sample_conflict_def by (rule quorum_run.check [OF quorum_run.check [OF quorum_run.start]])

theorem equivocation_exact_witness:
  "''n'' \<in> denied sample_conflict"
proof -
  have "conflict {(sample_node [] 2, [2]), (sample_node [] 1, [1])} ''n'' 1 [1] [2]"
    by (auto simp: conflict_def sample_node_def)
  moreover have "\<forall>(n, h)\<in>{(sample_node [] 2, [2]), (sample_node [] 1, [1])}. length (vclock n) = 1"
    by (simp add: sample_node_def)
  ultimately show ?thesis using equivocation_exact [OF sample_conflict_run] by blast
qed

theorem denial_ineffective_witness:
  "fst (observe sample_platform (replicate 32 1) sample_evidence (quorum_new 1\<lparr>denied := {''01010101''}\<rparr>))
   = fst (observe sample_platform (replicate 32 1) sample_evidence (quorum_new 1))"
proof -
  have "length (hex_encode sample_platform b) = 2 * length b" for b
    by (induction b) (simp_all add: sample_platform_def)
  then show ?thesis
    using denial_ineffective [of sample_platform "replicate 32 1" "quorum_new 1\<lparr>denied := {''01010101''}\<rparr>" sample_evidence]
    by (simp add: quorum_new_def)
qed

theorem causal_reference_denied_witness:
  "''b'' \<in> denied (snd (check_equivocation (sample_node [] 2\<lparr>vclock := [(''a'', 1), (''b'', 3)]\<rparr>) [2]
     (snd (check_equivocation (sample_node [] 1\<lparr>vclock := [(''b'', 3)]\<rparr>) [1] (quorum_new 2)))))"
  by (rule causal_reference_denied [of _ _ 3 _ "''a''" 1]) (simp_all add: sample_node_def)

end
