(* ===== verification/Actor.thy ===== *)
theory Actor
  imports Merkle_Engine Quorum
begin

text \<open>
  The CRDT actor (\<open>aimp_node/src/crdt/actor.rs\<close>): the only owner of the DAG engine, the quorum manager
  and the epochs. A message is handled to its end before the next one, so a run of the actor is a
  sequence of handled messages, each with the environment of its call. The reply channel is the
  returned reply; events are the ones handed to \<open>try_send\<close>, in order. The prometheus counters the
  handler touches are numbers.
\<close>

section \<open>The code\<close>

datatype CrdtMsg =
    Append (msg_data_hash: Hash32) (msg_signature: bytes) (msg_vclock: vector_clock) (msg_evidence: "AiEvidence option")
  | Merge (msg_nodes: "DagNode list")
  | GetRoot
  | GetDiff (msg_remote_heads: "Hash32 list")

datatype reply = HashReply Hash32 | CountReply nat | RootReply Hash32 | DiffReply "DagNode list"

record CrdtActor =
  engine :: MerkleCrdtEngine
  quorum :: QuorumManager
  epochs :: EpochManager
  log_tx :: bool
  mutation_count :: nat
  dag_size :: nat

text \<open>Recovery: load the stored nodes in batches, then keep the heads that are nobody's parent.\<close>

definition recover_batch :: "platform \<Rightarrow> MerkleCrdtEngine \<Rightarrow> (Hash32 \<times> DagNode) list \<Rightarrow> MerkleCrdtEngine" where
  "recover_batch P e batch =
     foldl (\<lambda>e (h, n). e\<lparr>arena := snd (arena_insert (vacant P) h n (arena e)), heads := insert h (heads e)\<rparr>) e batch"

definition all_parents :: "DagArena \<Rightarrow> Hash32 set" where
  "all_parents a = foldl (\<lambda>ps (_, n). ps \<union> set (parents n)) {} (get_all_iter a)"

definition recover :: "platform \<Rightarrow> call_env \<Rightarrow> MerkleCrdtEngine \<Rightarrow> MerkleCrdtEngine" where
  "recover P env e =
     (case store e of
        None \<Rightarrow> e
      | Some s \<Rightarrow>
          let e = foldl (recover_batch P) e (load_batched P (io_error env) 1024 s)
          in invalidate_root env (e\<lparr>heads := heads e - all_parents (arena e)\<rparr>))"

definition actor_new ::
  "platform \<Rightarrow> call_env \<Rightarrow> PersistentStore option \<Rightarrow> bool \<Rightarrow> nat \<Rightarrow> u64 \<Rightarrow> CrdtActor" where
  "actor_new P env s log t gc =
     \<lparr>engine = recover P env (with_gc_threshold s gc), quorum = quorum_new t, epochs = epochs_new,
      log_tx = log, mutation_count = 0, dag_size = 0\<rparr>"

definition emit :: "CrdtActor \<Rightarrow> SystemEvent \<Rightarrow> SystemEvent list" where
  "emit a ev = (if log_tx a then [ev] else [])"

definition equivocation_reason :: "platform \<Rightarrow> EquivocationProof \<Rightarrow> string" where
  "equivocation_reason P pr =
     ''EQUIVOCATION at tick '' @ decimal (unat (proof_tick pr)) @ '': nodes ''
       @ hex_encode P (take 4 (hash_a pr)) @ '' vs '' @ hex_encode P (take 4 (hash_b pr))"

definition handle_append ::
  "platform \<Rightarrow> call_env \<Rightarrow> Hash32 \<Rightarrow> bytes \<Rightarrow> vector_clock \<Rightarrow> AiEvidence option \<Rightarrow> CrdtActor
    \<Rightarrow> Hash32 \<times> SystemEvent list \<times> CrdtActor" where
  "handle_append P env dh sig vc ev a =
     (let gc_was_pending = mutations_since_gc (engine a) \<ge> usub_sat (gc_threshold (engine a)) 1;
          (h, e) = append_mutation P env dh sig vc ev (engine a);
          a = a\<lparr>engine := e\<rparr>;
          (evs, a) =
            (if gc_was_pending \<and> mutations_since_gc e = 0
             then let (root, e) = get_merkle_root P e
                  in (emit a (GarbageCollection 0 (arena_len (arena e))),
                      a\<lparr>engine := e, epochs := finalize_epoch root (epochs a)\<rparr>)
             else ([], a))
      in (h, evs, a\<lparr>mutation_count := mutation_count a + 1, dag_size := arena_len (arena (engine a))\<rparr>))"

definition merge_node ::
  "platform \<Rightarrow> call_env \<Rightarrow> nat \<times> SystemEvent list \<times> CrdtActor \<Rightarrow> DagNode \<Rightarrow> nat \<times> SystemEvent list \<times> CrdtActor" where
  "merge_node P env st n =
     (case st of (added, evs, a) \<Rightarrow>
        let h = compute_hash (blake P) n
        in if arena_contains (arena (engine a)) h then st
           else let (proof, q) = check_equivocation n h (quorum a);
                    ev1 = (case proof of None \<Rightarrow> []
                      | Some pr \<Rightarrow> emit a (SecurityDrop (proof_origin pr) (equivocation_reason P pr)));
                    (ev2, q) =
                      (case evidence n of
                         None \<Rightarrow> ([], q)
                       | Some ev \<Rightarrow>
                           let (reached, q) = observe P (take 32 (node_signature n)) ev q
                           in (if reached then emit a (EvAiInference (''[VERIFIED] '' @ ev_prompt ev) (ev_decision ev))
                               else [], q));
                    e = engine a;
                    e = e\<lparr>arena := snd (arena_insert (vacant P) h n (arena e))\<rparr>
                in (added + 1, evs @ ev1 @ ev2, a\<lparr>quorum := q, engine := persist P env h n e\<rparr>))"

definition recompute_heads :: "call_env \<Rightarrow> MerkleCrdtEngine \<Rightarrow> MerkleCrdtEngine" where
  "recompute_heads env e =
     (let has_children = all_parents (arena e)
      in invalidate_root env (e\<lparr>heads := foldl (\<lambda>hs (h, _). if h \<notin> has_children then insert h hs else hs) {}
           (get_all_iter (arena e))\<rparr>))"

definition handle_merge ::
  "platform \<Rightarrow> call_env \<Rightarrow> DagNode list \<Rightarrow> CrdtActor \<Rightarrow> nat \<times> SystemEvent list \<times> CrdtActor" where
  "handle_merge P env ns a =
     (let (added, evs, a) = foldl (merge_node P env) (0, [], a) ns;
          a = (if added > 0 then a\<lparr>engine := recompute_heads env (engine a)\<rparr> else a)
      in (added, evs, a\<lparr>mutation_count := mutation_count a + 1, dag_size := arena_len (arena (engine a))\<rparr>))"

definition handle :: "platform \<Rightarrow> call_env \<Rightarrow> CrdtMsg \<Rightarrow> CrdtActor \<Rightarrow> reply \<times> SystemEvent list \<times> CrdtActor" where
  "handle P env msg a =
     (case msg of
        Append dh sig vc ev \<Rightarrow> (let (h, evs, a) = handle_append P env dh sig vc ev a in (HashReply h, evs, a))
      | Merge ns \<Rightarrow> (let (added, evs, a) = handle_merge P env ns a in (CountReply added, evs, a))
      | GetRoot \<Rightarrow> (let (root, e) = get_merkle_root P (engine a) in (RootReply root, [], a\<lparr>engine := e\<rparr>))
      | GetDiff remote \<Rightarrow> (DiffReply (get_vdiff env (engine a) remote), [], a))"

section \<open>Heads\<close>

lemma all_parents_eq:
  assumes "arena_ok a"
  shows "all_parents a = Range (links a)"
proof -
  have "foldl (\<lambda>ps (_, n). ps \<union> set (parents n)) S xs = S \<union> (\<Union>(_, n)\<in>set xs. set (parents n))"
    for S and xs :: "(Hash32 \<times> DagNode) list"
    by (induction xs arbitrary: S) auto
  then show ?thesis using arena.set_entries [OF assms] by (auto simp: all_parents_def links_def)
qed

lemma recompute_heads_eq:
  assumes "arena_ok (arena e)"
  shows "recompute_heads env e = invalidate_root env (e\<lparr>heads := frontier (arena e)\<rparr>)"
proof -
  have "foldl (\<lambda>hs (h, _). if h \<notin> K then insert h hs else hs) S xs = S \<union> (fst ` set xs - K)"
    for S K and xs :: "(Hash32 \<times> DagNode) list"
    by (induction xs arbitrary: S) (auto split: if_splits)
  moreover have "fst ` set (get_all_iter (arena e)) = dom (get_by_hash (arena e))"
    using arena.set_entries [OF assms] by force
  ultimately show ?thesis
    by (simp add: recompute_heads_def all_parents_eq [OF assms] frontier_def)
qed

section \<open>Merging\<close>

text \<open>The nodes under their hashes, the first one under each hash.\<close>

definition hashed :: "platform \<Rightarrow> DagNode list \<Rightarrow> (Hash32 \<times> DagNode) list" where
  "hashed P ns = map (\<lambda>n. (compute_hash (blake P) n, n)) ns"

lemma merge_node_arena:
  "arena (engine (snd (snd (merge_node P env st n)))) =
     snd (arena_insert (vacant P) (compute_hash (blake P) n) n (arena (engine (snd (snd st)))))"
  by (auto simp: merge_node_def Let_def case_prod_beta arena_insert_def arena_contains_def split: option.split)

lemma merge_fold_arena:
  "arena (engine (snd (snd (foldl (merge_node P env) st ns)))) =
     arena.add_all (vacant P) (hashed P ns) (arena (engine (snd (snd st))))"
  by (induction ns arbitrary: st) (simp_all add: hashed_def arena.add_all_def merge_node_arena)

lemma merge_node_heads:
  "heads (engine (snd (snd (merge_node P env st n)))) = heads (engine (snd (snd st)))"
  "heads_soa (engine (snd (snd (merge_node P env st n)))) = heads_soa (engine (snd (snd st)))"
  "cached_root (engine (snd (snd (merge_node P env st n)))) = cached_root (engine (snd (snd st)))"
  by (simp_all add: merge_node_def Let_def case_prod_beta)

lemma merge_fold_heads:
  "heads (engine (snd (snd (foldl (merge_node P env) st ns)))) = heads (engine (snd (snd st)))"
  "heads_soa (engine (snd (snd (foldl (merge_node P env) st ns)))) = heads_soa (engine (snd (snd st)))"
  "cached_root (engine (snd (snd (foldl (merge_node P env) st ns)))) = cached_root (engine (snd (snd st)))"
  by (induction ns arbitrary: st) (simp_all add: merge_node_heads)

lemma merge_node_added:
  "fst (merge_node P env st n) =
     fst st + (if get_by_hash (arena (engine (snd (snd st)))) (compute_hash (blake P) n) = None then 1 else 0)"
  by (simp add: merge_node_def Let_def case_prod_beta arena_contains_iff)

lemma merge_fold_added:
  assumes "vacant_key (vacant P)" "arena_ok (arena (engine (snd (snd st))))"
  shows "fst (foldl (merge_node P env) st ns) + card (dom (get_by_hash (arena (engine (snd (snd st))))))
    = fst st + card (dom (get_by_hash (arena (engine (snd (snd (foldl (merge_node P env) st ns)))))))"
  using assms(2)
proof (induction ns arbitrary: st)
  case (Cons n ns)
  let ?st = "merge_node P env st n" let ?a = "arena (engine (snd (snd st)))"
  have "arena_ok (arena (engine (snd (snd ?st))))"
    using arena.ok_add [OF assms(1) Cons.prems] by (simp add: merge_node_arena)
  note IH = Cons.IH [OF this]
  have "card (dom (get_by_hash (arena (engine (snd (snd ?st)))))) + fst st = card (dom (get_by_hash ?a)) + fst ?st"
    using arena.lookup_add [OF assms(1) Cons.prems, of "compute_hash (blake P) n" n]
    by (auto simp: merge_node_arena merge_node_added card_insert_if)
  then show ?case using IH by simp
qed simp

lemma handle_merge_engine:
  assumes "vacant_key (vacant P)" "iter_ok env" "dag_ok P (engine a)"
    and "handle_merge P env ns a = (added, evs, a')"
  shows "dag_ok P (engine a')"
    and "get_by_hash (arena (engine a')) = map_of (hashed P ns) ++ get_by_hash (arena (engine a))"
    and "added = card (fst ` set (hashed P ns) - dom (get_by_hash (arena (engine a))))"
proof -
  let ?f = "foldl (merge_node P env) (0, [], a) ns"
  let ?e = "engine (snd (snd ?f))"
  have ok: "arena_ok (arena (engine a))" "engine_ok P (engine a)" "heads (engine a) = frontier (arena (engine a))"
    "\<forall>h n. get_by_hash (arena (engine a)) h = Some n \<longrightarrow> h = compute_hash (blake P) n"
    using assms(3) by (auto simp: dag_ok_def engine_ok_def)
  have eq: "arena ?e = arena.add_all (vacant P) (hashed P ns) (arena (engine a))"
    by (simp add: merge_fold_arena)
  have a': "arena_ok (arena ?e)" using arena.ok_add_all [OF assms(1) ok(1)] by (simp add: eq)
  have lk: "get_by_hash (arena ?e) = map_of (hashed P ns) ++ get_by_hash (arena (engine a))"
    using arena.lookup_add_all [OF assms(1) ok(1)] by (simp add: eq)
  have "added = fst ?f" and e': "engine a' = (if fst ?f > 0 then recompute_heads env ?e else ?e)"
    using assms(4) by (auto simp: handle_merge_def Let_def case_prod_beta)
  have ar: "arena (engine a') = arena ?e" by (simp add: e' recompute_heads_eq [OF a'])
  then show "get_by_hash (arena (engine a')) = map_of (hashed P ns) ++ get_by_hash (arena (engine a))"
    using lk by simp
  have dom: "dom (get_by_hash (arena ?e)) = fst ` set (hashed P ns) \<union> dom (get_by_hash (arena (engine a)))"
    by (auto simp: lk dom_map_of_conv_image_fst)
  have "fst ?f + card (dom (get_by_hash (arena (engine a)))) = card (dom (get_by_hash (arena ?e)))"
    using merge_fold_added [OF assms(1), of "(0, [], a)" env ns] ok(1) by simp
  also have "\<dots> = card (fst ` set (hashed P ns) - dom (get_by_hash (arena (engine a))))
      + card (dom (get_by_hash (arena (engine a))))"
    unfolding dom by (subst card_Un_disjoint [symmetric]) (auto intro: arg_cong [where f = card])
  finally show added: "added = card (fst ` set (hashed P ns) - dom (get_by_hash (arena (engine a))))"
    using \<open>added = fst ?f\<close> by simp
  have content: "\<forall>h n. get_by_hash (arena ?e) h = Some n \<longrightarrow> h = compute_hash (blake P) n"
    using ok(4) by (auto simp: lk map_add_Some_iff hashed_def dest!: map_of_SomeD)
  show "dag_ok P (engine a')"
  proof (cases "fst ?f > 0")
    case True
    have "engine_ok P (recompute_heads env ?e)"
      using engine_ok_invalidate [OF assms(2), of "?e\<lparr>heads := frontier (arena ?e)\<rparr>" P] a'
      by (simp add: recompute_heads_eq [OF a'])
    then show ?thesis using True content by (simp add: e' dag_ok_def recompute_heads_eq [OF a'])
  next
    case False
    then have "fst ` set (hashed P ns) \<subseteq> dom (get_by_hash (arena (engine a)))"
      using added \<open>added = fst ?f\<close> by auto
    then have same: "get_by_hash (arena ?e) = get_by_hash (arena (engine a))"
      unfolding lk by (intro ext) (auto simp: map_add_def dom_map_of_conv_image_fst [symmetric] split: option.split)
    then have "frontier (arena ?e) = heads (engine a)" by (simp add: ok(3) frontier_def links_def)
    then show ?thesis using False ok a' content
      by (simp add: e' dag_ok_def engine_ok_def merge_fold_heads)
  qed
qed

section \<open>Convergence\<close>

text \<open>The nodes a replica stores.\<close>

definition node_set :: "CrdtActor \<Rightarrow> DagNode set" where
  "node_set a = ran (get_by_hash (arena (engine a)))"

text \<open>A content-addressed store is determined by its nodes.\<close>

lemma dag_lookup_iff:
  "dag_ok P (engine a) \<Longrightarrow>
   get_by_hash (arena (engine a)) h = Some n \<longleftrightarrow> n \<in> node_set a \<and> h = compute_hash (blake P) n"
  by (auto simp: dag_ok_def node_set_def ran_def)

lemma merge_node_set:
  assumes "vacant_key (vacant P)" "iter_ok env" "dag_ok P (engine a)"
    and "handle_merge P env ns a = (added, evs, a')"
    and "inj_on (compute_hash (blake P)) (node_set a \<union> set ns)"
  shows "node_set a' = node_set a \<union> set ns"
proof -
  note lk = handle_merge_engine(2) [OF assms(1-4)]
  have new: "map_of (hashed P ns) h = Some n \<longleftrightarrow> n \<in> set ns \<and> h = compute_hash (blake P) n" for h n
  proof -
    have "\<exists>m\<in>set ns. map_of (hashed P ns) (compute_hash (blake P) n) = Some m
        \<and> compute_hash (blake P) n = compute_hash (blake P) m" if "n \<in> set ns" for n
    proof -
      have "map_of (hashed P ns) (compute_hash (blake P) n) \<noteq> None"
        using that unfolding map_of_eq_None_iff hashed_def by force
      then obtain m where m: "map_of (hashed P ns) (compute_hash (blake P) n) = Some m" by blast
      then have "(compute_hash (blake P) n, m) \<in> set (hashed P ns)" by (rule map_of_SomeD)
      then show ?thesis using m by (auto simp: hashed_def)
    qed
    then have "n \<in> set ns \<Longrightarrow> map_of (hashed P ns) (compute_hash (blake P) n) = Some n"
      using assms(5) by (metis UnCI inj_onD)
    then show ?thesis by (auto simp: hashed_def dest!: map_of_SomeD)
  qed
  have old: "get_by_hash (arena (engine a)) h = Some n \<longleftrightarrow> n \<in> node_set a \<and> h = compute_hash (blake P) n" for h n
    by (rule dag_lookup_iff [OF assms(3)])
  have "n \<in> node_set a' \<longleftrightarrow> n \<in> node_set a \<union> set ns" for n
  proof
    assume "n \<in> node_set a'"
    then show "n \<in> node_set a \<union> set ns"
      by (auto simp: node_set_def ran_def lk map_add_Some_iff new)
  next
    assume n: "n \<in> node_set a \<union> set ns"
    let ?h = "compute_hash (blake P) n"
    have "get_by_hash (arena (engine a)) ?h = Some n \<or>
        get_by_hash (arena (engine a)) ?h = None \<and> map_of (hashed P ns) ?h = Some n"
    proof (cases "get_by_hash (arena (engine a)) ?h")
      case None
      then show ?thesis using n old [of ?h n] new [of ?h n] by auto
    next
      case (Some m)
      then have "m \<in> node_set a" "?h = compute_hash (blake P) m" using old by blast+
      then have "m = n" using assms(5) n by (metis UnCI inj_onD)
      then show ?thesis using Some by simp
    qed
    then have "get_by_hash (arena (engine a')) ?h = Some n" by (auto simp: lk map_add_Some_iff)
    then show "n \<in> node_set a'" by (auto simp: node_set_def ran_def)
  qed
  then show ?thesis by blast
qed

text \<open>
  C2: Two replicas that hold the same nodes after merging, in whatever order, with whatever
  repetitions and from whatever states, have the same store, the same heads and the same Merkle root.
\<close>

theorem merge_converges:
  assumes "vacant_key (vacant P)" "iter_ok env" "iter_ok env'"
    and "dag_ok P (engine a)" "dag_ok P (engine b)"
    and "handle_merge P env ns a = (i, evs, a')" "handle_merge P env' ms b = (j, evs', b')"
    and "node_set a \<union> set ns = node_set b \<union> set ms"
    and "inj_on (compute_hash (blake P)) (node_set a \<union> set ns)"
  shows "get_by_hash (arena (engine a')) = get_by_hash (arena (engine b'))
    \<and> heads (engine a') = heads (engine b')
    \<and> fst (get_merkle_root P (engine a')) = fst (get_merkle_root P (engine b'))"
proof -
  have ok: "dag_ok P (engine a')" "dag_ok P (engine b')"
    using handle_merge_engine(1) assms(1-7) by blast+
  have "node_set a' = node_set b'"
    using merge_node_set [OF assms(1,2,4,6,9)] merge_node_set [OF assms(1,3,5,7)] assms(8,9) by simp
  then have "get_by_hash (arena (engine a')) h = get_by_hash (arena (engine b')) h" for h
    using dag_lookup_iff [OF ok(1), of h] dag_lookup_iff [OF ok(2), of h]
    by (cases "get_by_hash (arena (engine b')) h") (auto, metis not_None_eq)
  then have lk: "get_by_hash (arena (engine a')) = get_by_hash (arena (engine b'))" by (rule ext)
  then have "heads (engine a') = heads (engine b')"
    using ok by (simp add: dag_ok_def frontier_def links_def)
  then show ?thesis
    using lk ok get_merkle_root_correct(1) [of P "engine a'"] get_merkle_root_correct(1) [of P "engine b'"]
    by (simp add: dag_ok_def)
qed

text \<open>A path avoids a set or goes through it.\<close>

lemma path_split:
  assumes "(g, h) \<in> L\<^sup>*"
  shows "(g \<notin> R \<and> (g, h) \<in> (Restr L (- R))\<^sup>*) \<or> (\<exists>r\<in>R. (r, h) \<in> L\<^sup>*)"
  using assms
proof (induction rule: rtrancl_induct)
  case base
  then show ?case by auto
next
  case (step y z)
  show ?case
  proof (cases "\<exists>r\<in>R. (r, y) \<in> L\<^sup>*")
    case True
    then show ?thesis using step.hyps(2) by (meson rtrancl.rtrancl_into_rtrancl)
  next
    case False
    then have "g \<notin> R" "(g, y) \<in> (Restr L (- R))\<^sup>*" "y \<notin> R" using step.IH by auto
    then show ?thesis
      using step.hyps(2) by (cases "z \<in> R") (auto intro: rtrancl_into_rtrancl)
  qed
qed

text \<open>
  C9: Anti-entropy, node by node: of the nodes that can be reached from a head of the replica that
  answers, the peer has, after merging the delta, every one that no path from a head reaches beyond
  the history depth and that the peer holds already if it is an ancestor of a hash it announced. What
  lies deeper may be left out for ever (\<open>truncated_sync_is_final\<close>).
\<close>

theorem sync_completes:
  assumes "vacant_key (vacant P)" "iter_ok env" "iter_ok env'"
    and "dag_ok P (engine a)" "dag_ok P (engine b)"
    and "handle P env (GetDiff remote) a = (DiffReply delta, evs, a')"
    and "handle_merge P env' delta b = (added, evs', b')"
    and "g \<in> heads (engine a)" "(g, h) \<in> (links (arena (engine a)))\<^sup>*" "get_by_hash (arena (engine a)) h = Some n"
    and "\<forall>g\<in>heads (engine a). \<forall>k. (g, h) \<in> links (arena (engine a)) ^^ k \<longrightarrow> k \<le> 100"
    and "(\<exists>r\<in>set remote. (r, h) \<in> (links (arena (engine a)))\<^sup>*) \<longrightarrow> get_by_hash (arena (engine b)) h \<noteq> None"
  shows "get_by_hash (arena (engine b')) h \<noteq> None"
proof -
  let ?L = "links (arena (engine a))" let ?R = "set remote"
  have delta: "delta = get_vdiff env (engine a) remote" using assms(6) by (auto simp: handle_def)
  have fin: "finite (heads (engine a))" using assms(4) by (simp add: dag_ok_def engine_ok_def)
  from path_split [OF assms(9), of ?R]
  show ?thesis
  proof
    assume "\<exists>r\<in>?R. (r, h) \<in> ?L\<^sup>*"
    then have "get_by_hash (arena (engine b)) h \<noteq> None" using assms(12) by blast
    then show ?thesis
      using handle_merge_engine(2) [OF assms(1,3,5,7)] by auto
  next
    assume path: "g \<notin> ?R \<and> (g, h) \<in> (Restr ?L (- ?R))\<^sup>*"
    have "h \<in> vdiff_hashes env (engine a) ?R"
      by (rule vdiff_hashes_complete [OF assms(2) fin assms(11,8)]) (use path in simp_all)
    then have "n \<in> set delta" using assms(10) by (auto simp: delta set_get_vdiff)
    moreover have "h = compute_hash (blake P) n" using assms(4,10) by (simp add: dag_ok_def)
    ultimately have "h \<in> fst ` set (hashed P delta)" by (force simp: hashed_def)
    then have "h \<in> dom (map_of (hashed P delta))" by (simp add: dom_map_of_conv_image_fst)
    then show ?thesis using handle_merge_engine(2) [OF assms(1,3,5,7)] by auto
  qed
qed

section \<open>Runs of the actor\<close>

text \<open>The hash of an appended node is new; nothing is asked of the other messages.\<close>

definition fresh_for :: "platform \<Rightarrow> call_env \<Rightarrow> CrdtMsg \<Rightarrow> CrdtActor \<Rightarrow> bool" where
  "fresh_for P env m a = (case m of
     Append dh sig vc ev \<Rightarrow> fresh_hash (fst (append_mutation P env dh sig vc ev (engine a))) (arena (engine a))
   | _ \<Rightarrow> True)"

inductive actor_run :: "platform \<Rightarrow> CrdtActor \<Rightarrow> CrdtMsg list \<Rightarrow> CrdtActor \<Rightarrow> bool" for P a where
  idle: "actor_run P a [] a"
| handled: "actor_run P a ms b \<Longrightarrow> iter_ok env \<Longrightarrow> fresh_for P env m b \<Longrightarrow> handle P env m b = (r, evs, c)
    \<Longrightarrow> actor_run P a (ms @ [m]) c"

definition actor_ok :: "platform \<Rightarrow> nat \<Rightarrow> CrdtActor \<Rightarrow> bool" where
  "actor_ok P t a \<longleftrightarrow> dag_ok P (engine a) \<and> (\<exists>V N. quorum_run P t {} V N (quorum a))"

lemma merge_node_quorum:
  assumes "\<exists>V N. quorum_run P t {} V N (quorum (snd (snd st)))"
  shows "\<exists>V N. quorum_run P t {} V N (quorum (snd (snd (merge_node P env st n))))"
proof -
  obtain added evs a where st: "st = (added, evs, a)" by (metis surj_pair)
  obtain V N where q: "quorum_run P t {} V N (quorum a)" using assms st by auto
  let ?h = "compute_hash (blake P) n" let ?q = "snd (check_equivocation n ?h (quorum a))"
  have c: "quorum_run P t {} V (insert (n, ?h) N) ?q" by (rule quorum_run.check [OF q])
  have "quorum (snd (snd (merge_node P env st n))) \<in>
      {quorum a, ?q} \<union> {snd (observe P x ev ?q) | x ev. True}"
    by (auto simp: st merge_node_def Let_def case_prod_beta split: option.split)
  then consider "quorum (snd (snd (merge_node P env st n))) = quorum a"
    | "quorum (snd (snd (merge_node P env st n))) = ?q"
    | x ev where "quorum (snd (snd (merge_node P env st n))) = snd (observe P x ev ?q)" by blast
  then show ?thesis
  proof cases
    case 3
    then show ?thesis using quorum_run.vote [OF c] by metis
  qed (use q c in metis)+
qed

lemma merge_quorum:
  assumes "\<exists>V N. quorum_run P t {} V N (quorum a)" "handle_merge P env ns a = (added, evs, a')"
  shows "\<exists>V N. quorum_run P t {} V N (quorum a')"
proof -
  have "\<exists>V N. quorum_run P t {} V N (quorum (snd (snd (foldl (merge_node P env) st ns))))"
    if "\<exists>V N. quorum_run P t {} V N (quorum (snd (snd st)))" for st
    using that
  proof (induction ns arbitrary: st)
    case (Cons n ns)
    show ?case using Cons.IH [OF merge_node_quorum [OF Cons.prems]] by simp
  qed simp
  from this [of "(0, [], a)"] assms(1)
  have "\<exists>V N. quorum_run P t {} V N (quorum (snd (snd (foldl (merge_node P env) (0, [], a) ns))))" by simp
  moreover have "quorum a' = quorum (snd (snd (foldl (merge_node P env) (0, [], a) ns)))"
    using assms(2) by (auto simp: handle_merge_def Let_def case_prod_beta)
  ultimately show ?thesis by (simp only:)
qed

lemma appended_threshold [simp]: "gc_threshold (appended P env h n e) = gc_threshold e"
  by (simp add: appended_def Let_def)

lemma append_dag_ok:
  assumes "iter_ok env" "vacant_key (vacant P)" "dag_ok P e" "append_mutation P env dh sig vc ev e = (h, e')"
    and "fresh_hash h (arena e)"
  shows "dag_ok P e'"
proof -
  have fin: "finite (heads e)" using assms(3) by (simp add: dag_ok_def engine_ok_def)
  let ?n = "new_node env dh sig vc ev e"
  have h: "h = compute_hash (blake P) ?n" using assms(4) by (auto simp: append_mutation_eq Let_def)
  have "set (parents ?n) = heads e" using assms(1) fin by (simp add: new_node_def)
  note b = appended_dag_ok(1) [OF assms(1-3,5) this h]
  show ?thesis
    using assms(4) b compact_history_dag_ok [OF assms(1) b] h
    by (auto simp: append_mutation_eq Let_def split: if_splits)
qed

lemma get_merkle_root_dag_ok:
  assumes "dag_ok P e"
  shows "dag_ok P (snd (get_merkle_root P e))"
proof -
  have "engine_ok P e" using assms by (simp add: dag_ok_def)
  note r = get_merkle_root_correct [OF this]
  show ?thesis using assms r(2) by (simp add: dag_ok_def r(3,4))
qed

lemma handle_append_engine:
  assumes "append_mutation P env dh sig vc ev (engine a) = (h, e)"
    and "handle P env (Append dh sig vc ev) a = (r, evs, b)"
  shows "(engine b = e \<or> engine b = snd (get_merkle_root P e)) \<and> quorum b = quorum a"
  using assms by (auto simp: handle_def handle_append_def Let_def case_prod_beta split: if_splits)

lemma handle_ok:
  assumes "vacant_key (vacant P)" "iter_ok env" "fresh_for P env m a" "handle P env m a = (r, evs, b)"
    and "actor_ok P t a"
  shows "actor_ok P t b"
proof (cases m)
  case (Append dh sig vc ev)
  obtain h e where e: "append_mutation P env dh sig vc ev (engine a) = (h, e)" by fastforce
  have "dag_ok P e"
    using append_dag_ok [OF assms(2,1) _ e] assms(3,5) Append e by (simp add: actor_ok_def fresh_for_def)
  moreover have "engine b = e \<or> engine b = snd (get_merkle_root P e)" "quorum b = quorum a"
    using handle_append_engine [OF e] assms(4) Append by blast+
  ultimately show ?thesis using assms(5) get_merkle_root_dag_ok [of P e] by (auto simp: actor_ok_def)
next
  case (Merge ns)
  then obtain added evs' where "handle_merge P env ns a = (added, evs', b)"
    using assms(4) by (auto simp: handle_def Let_def split: prod.splits)
  then show ?thesis
    using assms(5) handle_merge_engine(1) [OF assms(1,2)] merge_quorum unfolding actor_ok_def by blast
next
  case GetRoot
  then have "engine b = snd (get_merkle_root P (engine a))" "quorum b = quorum a"
    using assms(4) by (auto simp: handle_def case_prod_beta)
  then show ?thesis using assms(5) get_merkle_root_dag_ok [of P "engine a"] by (simp add: actor_ok_def)
next
  case (GetDiff remote)
  then show ?thesis using assms(4,5) by (auto simp: handle_def actor_ok_def)
qed

lemma actor_run_ok:
  assumes "vacant_key (vacant P)" "actor_run P a ms b" "actor_ok P t a"
  shows "actor_ok P t b"
  using assms(2,3) by (induction rule: actor_run.induct) (auto intro: handle_ok [OF assms(1)])

lemma actor_ok_new:
  "actor_ok P t (actor_new P env None log t gc)"
  by (auto simp: actor_ok_def actor_new_def recover_def with_gc_threshold_def [of None gc]
      intro!: quorum_run.start dag_ok_new [of P None gc, unfolded with_gc_threshold_def])

text \<open>
  C5: However an actor without stored nodes is driven, by appends, merges of arbitrary nodes, root
  and delta requests in any order, every node is stored under its content hash, the heads are the
  nodes nobody refers to, a root request answers with the hash of the sorted heads, and a prompt is
  verified exactly when one decision has enough votes.
\<close>

theorem actor_run_invariant:
  assumes "vacant_key (vacant P)" "actor_run P (actor_new P env None log t gc) ms b"
  shows "(\<forall>h n. get_by_hash (arena (engine b)) h = Some n \<longrightarrow> h = compute_hash (blake P) n)
    \<and> heads (engine b) = frontier (arena (engine b))
    \<and> fst (handle P env' GetRoot b) = RootReply (root_of (blake P) (frontier (arena (engine b))))
    \<and> (\<forall>p. p \<in> verified (quorum b) \<longleftrightarrow> (\<exists>d. max 1 t \<le> card (votes_of (quorum b) p d)))"
proof -
  have ok: "actor_ok P t b" by (rule actor_run_ok [OF assms actor_ok_new])
  then obtain V N where q: "quorum_run P t {} V N (quorum b)" unfolding actor_ok_def by blast
  have d: "dag_ok P (engine b)" using ok by (simp add: actor_ok_def)
  have "votes.decided {} (quorum b)" "threshold (quorum b) = t" using quorum_run_votes [OF q] by simp_all
  then have "\<forall>p. p \<in> verified (quorum b) \<longleftrightarrow> (\<exists>d. max 1 t \<le> card (votes_of (quorum b) p d))"
    unfolding votes.decided_def by (metis Diff_empty not_less)
  moreover have "fst (handle P env' GetRoot b) = RootReply (root_of (blake P) (frontier (arena (engine b))))"
    using d get_merkle_root_correct(1) [of P "engine b"] by (simp add: handle_def dag_ok_def case_prod_beta)
  ultimately show ?thesis using d unfolding dag_ok_def by blast
qed

section \<open>Epochs\<close>

lemma unat_Suc_less:
  assumes "x < (y :: 'a::len word)"
  shows "unat (x + 1) = Suc (unat x)"
proof -
  have "Suc (unat x) \<le> unat y" using assms by (simp add: word_less_nat_alt)
  then have "Suc (unat x) < 2 ^ LENGTH('a)" using unsigned_less [of y] by (rule le_less_trans)
  then show ?thesis by (simp add: unat_word_ariths)
qed

text \<open>The count of an append, and when the actor takes the collection to be due.\<close>

lemma append_count:
  assumes "append_mutation P env dh sig vc ev e = (h, e')"
    and "0 < gc_threshold e" "mutations_since_gc e < gc_threshold e"
  shows "gc_threshold e' = gc_threshold e"
    and "mutations_since_gc e' = (if mutations_since_gc e + 1 < gc_threshold e then mutations_since_gc e + 1 else 0)"
    and "mutations_since_gc e + 1 \<noteq> 0"
    and "usub_sat (gc_threshold e) 1 \<le> mutations_since_gc e \<longleftrightarrow> \<not> mutations_since_gc e + 1 < gc_threshold e"
proof -
  have suc: "unat (mutations_since_gc e + 1) = Suc (unat (mutations_since_gc e))"
    by (rule unat_Suc_less [OF assms(3)])
  then show "mutations_since_gc e + 1 \<noteq> 0" by (simp flip: unat_eq_0)
  show "usub_sat (gc_threshold e) 1 \<le> mutations_since_gc e \<longleftrightarrow> \<not> mutations_since_gc e + 1 < gc_threshold e"
    using suc assms(2) by (auto simp: usub_sat_def word_less_nat_alt word_le_nat_alt unat_sub_if')
  define c where "c = appended P env h (new_node env dh sig vc ev e) e"
  have "mutations_since_gc c = mutations_since_gc e + 1" "gc_threshold c = gc_threshold e"
    by (simp_all add: c_def appended_def Let_def)
  moreover have "e' = c \<and> mutations_since_gc c < gc_threshold c
      \<or> e' = (compact_history env c)\<lparr>mutations_since_gc := 0\<rparr> \<and> \<not> mutations_since_gc c < gc_threshold c"
    using assms(1) by (auto simp: append_mutation_eq Let_def c_def not_less split: if_splits)
  ultimately show "gc_threshold e' = gc_threshold e"
    "mutations_since_gc e' = (if mutations_since_gc e + 1 < gc_threshold e then mutations_since_gc e + 1 else 0)"
    by auto
qed

text \<open>
  An append finalizes an epoch exactly when it reaches the pruning threshold: then the epoch
  advances by one with the root of the new heads, the count of mutations restarts and, when there is
  a log, one collection event is emitted; otherwise epochs and log are untouched. The count never
  reaches the threshold.
\<close>

theorem append_finalizes:
  assumes "iter_ok env" "vacant_key (vacant P)" "dag_ok P (engine a)" "fresh_for P env (Append dh sig vc ev) a"
    and "handle P env (Append dh sig vc ev) a = (r, evs, b)"
    and "0 < gc_threshold (engine a)" "mutations_since_gc (engine a) < gc_threshold (engine a)"
  shows "mutations_since_gc (engine b) < gc_threshold (engine b)
    \<and> (if mutations_since_gc (engine a) + 1 < gc_threshold (engine a)
       then epochs b = epochs a \<and> evs = []
         \<and> mutations_since_gc (engine b) = mutations_since_gc (engine a) + 1
       else epochs b = finalize_epoch (root_of (blake P) (heads (engine b))) (epochs a)
         \<and> length evs = (if log_tx a then 1 else 0) \<and> mutations_since_gc (engine b) = 0)"
proof -
  let ?e = "engine a"
  obtain h e where e: "append_mutation P env dh sig vc ev ?e = (h, e)" by fastforce
  note c = append_count [OF e assms(6,7)]
  have "dag_ok P e" using append_dag_ok [OF assms(1,2,3) e] assms(4) e by (simp add: fresh_for_def)
  then have root: "fst (get_merkle_root P e) = root_of (blake P) (heads e)"
    "heads (snd (get_merkle_root P e)) = heads e"
    using get_merkle_root_correct by (simp_all add: dag_ok_def)
  have keep: "mutations_since_gc (snd (get_merkle_root P e)) = mutations_since_gc e"
    "gc_threshold (snd (get_merkle_root P e)) = gc_threshold e"
    by (simp_all add: get_merkle_root_def Let_def split: option.split)
  show ?thesis
  proof (cases "mutations_since_gc ?e + 1 < gc_threshold ?e")
    case True
    then have "engine b = e" "epochs b = epochs a" "evs = []"
      using assms(5) e c by (auto simp: handle_def handle_append_def Let_def)
    then show ?thesis using True c by simp
  next
    case False
    then have "engine b = snd (get_merkle_root P e)" "epochs b = finalize_epoch (fst (get_merkle_root P e)) (epochs a)"
      "length evs = (if log_tx a then 1 else 0)"
      using assms(5) e c by (auto simp: handle_def handle_append_def Let_def case_prod_beta emit_def)
    then show ?thesis using False c keep root assms(6) by simp
  qed
qed

section \<open>Persistence\<close>

lemma recover_batch_simps:
  "arena (recover_batch P e batch) = arena.add_all (vacant P) batch (arena e)"
  "heads (recover_batch P e batch) = heads e \<union> fst ` set batch"
  unfolding recover_batch_def arena.add_all_def
  by (induction batch arbitrary: e) (auto simp: case_prod_beta)

lemma recover_fold_simps:
  "arena (foldl (recover_batch P) e bs) = arena.add_all (vacant P) (concat bs) (arena e)"
  "heads (foldl (recover_batch P) e bs) = heads e \<union> fst ` set (concat bs)"
  by (induction bs arbitrary: e) (auto simp: recover_batch_simps arena.add_all_def)

lemma map_of_functional:
  assumes "set xs = {(h, n). f h = Some n}"
  shows "map_of xs = f"
proof
  fix h
  show "map_of xs h = f h"
  proof (cases "map_of xs h")
    case None
    then have "\<forall>n. (h, n) \<notin> set xs" by (force simp: map_of_eq_None_iff)
    then show ?thesis using None assms by (cases "f h") auto
  next
    case (Some n)
    then have "(h, n) \<in> set xs" by (rule map_of_SomeD)
    then show ?thesis using Some assms by simp
  qed
qed

lemma recover_correct:
  assumes "vacant_key (vacant P)" "iter_ok env" "io_error env = None" "store_wf s"
    and "\<forall>h n. stored P s h = Some n \<longrightarrow> length h = 32 \<and> h = compute_hash (blake P) n"
  shows "dag_ok P (recover P env (with_gc_threshold (Some s) gc))"
    and "get_by_hash (arena (recover P env (with_gc_threshold (Some s) gc))) = stored P s"
proof -
  let ?start = "with_gc_threshold (Some s) gc"
  let ?rows = "concat (load_batched P None 1024 s)"
  let ?e = "foldl (recover_batch P) ?start (load_batched P None 1024 s)"
  let ?r = "recover P env ?start"
  have r: "?r = invalidate_root env (?e\<lparr>heads := heads ?e - all_parents (arena ?e)\<rparr>)"
    by (simp add: recover_def assms(3) Let_def with_gc_threshold_def)
  have rows: "set ?rows = {(h, n). stored P s h = Some n}"
    using set_load_batched [OF assms(4), of P 1024] assms(5) by blast
  have e0: "arena ?start = arena_new" "heads ?start = {}" by (simp_all add: with_gc_threshold_def)
  have ar: "arena ?e = arena.add_all (vacant P) ?rows arena_new" by (simp add: recover_fold_simps e0)
  have ok: "arena_ok (arena ?e)" unfolding ar by (rule arena.ok_add_all [OF assms(1) arena_ok_new])
  have lk: "get_by_hash (arena ?e) = stored P s"
    unfolding ar arena.lookup_add_all [OF assms(1) arena_ok_new] map_of_functional [OF rows] by simp
  then show "get_by_hash (arena ?r) = stored P s" by (simp add: r)
  have "heads ?e = dom (stored P s)" using rows by (force simp: recover_fold_simps e0)
  then have hd: "heads ?r = frontier (arena ?r)"
    by (simp add: r frontier_def lk all_parents_eq [OF ok])
  have "engine_ok P ?r"
    unfolding r using ok by (intro engine_ok_invalidate [OF assms(2)]) (simp_all add: recover_fold_simps e0)
  then show "dag_ok P ?r" using hd assms(5) by (simp add: dag_ok_def) (simp add: r lk)
qed

text \<open>Every stored node of the engine is in its store, under the same hash.\<close>

definition durable :: "platform \<Rightarrow> MerkleCrdtEngine \<Rightarrow> bool" where
  "durable P e \<longleftrightarrow> (\<exists>s. store e = Some s \<and> store_wf s \<and> get_by_hash (arena e) \<subseteq>\<^sub>m stored P s
     \<and> (\<forall>h n. stored P s h = Some n \<longrightarrow> h = compute_hash (blake P) n))"

text \<open>The libraries accept a node.\<close>

definition accepts :: "platform \<Rightarrow> DagNode \<Rightarrow> bool" where
  "accepts P n \<longleftrightarrow> (\<exists>b. to_vec P n = Inr b \<and> (\<forall>k x. encrypt P k x b \<noteq> None))"

lemma persist_stores:
  assumes "cipher_ok P" "codec_ok P" "accepts P n" "io_error env = None" "store e = Some s" "store_wf s"
  obtains s' where "store (persist P env h n e) = Some s'" "store_wf s'" "stored P s' = (stored P s)(h \<mapsto> n)"
proof -
  obtain b c where "to_vec P n = Inr b" "encrypt P (cipher s) (nonce_of h) b = Some c"
    using assms(3) by (metis accepts_def option.exhaust)
  then obtain s' where s': "save_node P None h n s = Inr s'" by (simp add: save_node_def Let_def)
  show ?thesis
  proof (rule that)
    show "store (persist P env h n e) = Some s'" using s' assms(4,5) by (simp add: persist_def)
    show "store_wf s'" using save_node_cases [OF s' assms(6)] by metis
    show "stored P s' = (stored P s)(h \<mapsto> n)" by (rule stored_save [OF assms(1,2) s' assms(6)])
  qed
qed

text \<open>Storing a node that the engine does not have, and persisting it, keeps the engine durable.\<close>

lemma durable_add:
  assumes "cipher_ok P" "codec_ok P" "accepts P n" "io_error env = None" "durable P e"
    and "get_by_hash (arena e) h = None" "h = compute_hash (blake P) n" "store e0 = store e"
    and "get_by_hash (arena e') \<subseteq>\<^sub>m (get_by_hash (arena e))(h \<mapsto> n)" "store e' = store (persist P env h n e0)"
  shows "durable P e'"
proof -
  obtain s where s: "store e = Some s" "store_wf s" "get_by_hash (arena e) \<subseteq>\<^sub>m stored P s"
    "\<forall>h n. stored P s h = Some n \<longrightarrow> h = compute_hash (blake P) n"
    using assms(5) unfolding durable_def by blast
  then have "store e0 = Some s" using assms(8) by simp
  then obtain s' where s': "store (persist P env h n e0) = Some s'" "store_wf s'"
    "stored P s' = (stored P s)(h \<mapsto> n)"
    using persist_stores [OF assms(1-4) _ s(2)] by metis
  have "get_by_hash (arena e') k = Some m \<Longrightarrow> stored P s' k = Some m" for k m
  proof -
    assume k: "get_by_hash (arena e') k = Some m"
    then have "((get_by_hash (arena e))(h \<mapsto> n)) k = Some m"
      using assms(9) unfolding map_le_def by (metis domI)
    moreover have "get_by_hash (arena e) k = Some m \<Longrightarrow> stored P s k = Some m"
      using s(3) unfolding map_le_def by (metis domI)
    ultimately show "stored P s' k = Some m" by (simp add: s'(3) split: if_splits)
  qed
  then have "get_by_hash (arena e') \<subseteq>\<^sub>m stored P s'" by (auto simp: map_le_def)
  moreover have "\<forall>k m. stored P s' k = Some m \<longrightarrow> k = compute_hash (blake P) m"
    using s(4) assms(7) by (simp add: s'(3))
  ultimately show ?thesis using s'(1,2) assms(10) by (auto simp: durable_def)
qed

lemma durable_cong:
  "durable P e \<Longrightarrow> store e' = store e \<Longrightarrow> get_by_hash (arena e') \<subseteq>\<^sub>m get_by_hash (arena e) \<Longrightarrow> durable P e'"
  unfolding durable_def by (metis map_le_trans)

lemma append_durable:
  assumes "cipher_ok P" "codec_ok P" "accepts P (new_node env dh sig vc ev e)" "io_error env = None" "vacant_key (vacant P)"
    and "dag_ok P e" "durable P e" "append_mutation P env dh sig vc ev e = (h, e')" "get_by_hash (arena e) h = None"
  shows "durable P e'"
proof -
  let ?n = "new_node env dh sig vc ev e"
  let ?start = "e\<lparr>heads := insert h (heads e - set (parents ?n))\<rparr>"
  let ?b = "appended P env h ?n e"
  have h: "h = compute_hash (blake P) ?n" using assms(8) by (auto simp: append_mutation_eq Let_def)
  have ok: "arena_ok (arena e)" using assms(6) by (simp add: dag_ok_def engine_ok_def)
  have "arena ?b = snd (arena_insert (vacant P) h ?n (arena e))" "store ?b = store (persist P env h ?n ?start)"
    by (simp_all add: appended_def Let_def)
  moreover have "get_by_hash (snd (arena_insert (vacant P) h ?n (arena e))) = (get_by_hash (arena e))(h \<mapsto> ?n)"
    using arena.lookup_add [OF assms(5) ok] assms(9) by simp
  ultimately have b: "durable P ?b" "arena_ok (arena ?b)"
    using durable_add [OF assms(1-4,7,9) h, of ?start ?b] arena.ok_add [OF assms(5) ok] by simp_all
  have "durable P (compact_history env ?b)"
    by (rule durable_cong [OF b(1)]) (simp_all add: compact_history_arena(1) [OF b(2)] map_le_def)
  moreover have "e' = ?b \<or> e' = (compact_history env ?b)\<lparr>mutations_since_gc := 0\<rparr>"
    using assms(8) by (auto simp: append_mutation_eq Let_def split: if_splits)
  ultimately show ?thesis using b(1) by (auto simp: durable_def)
qed

lemma merge_node_durable:
  assumes "cipher_ok P" "codec_ok P" "accepts P n" "io_error env = None" "vacant_key (vacant P)"
    and "arena_ok (arena (engine (snd (snd st))))" "durable P (engine (snd (snd st)))"
  shows "durable P (engine (snd (snd (merge_node P env st n))))"
proof -
  let ?e = "engine (snd (snd st))" let ?h = "compute_hash (blake P) n"
  show ?thesis
  proof (cases "get_by_hash (arena ?e) ?h")
    case (Some m)
    then show ?thesis using assms(7) by (simp add: merge_node_def Let_def case_prod_beta arena_contains_iff)
  next
    case None
    let ?start = "?e\<lparr>arena := snd (arena_insert (vacant P) ?h n (arena ?e))\<rparr>"
    have "engine (snd (snd (merge_node P env st n))) = persist P env ?h n ?start"
      using None by (simp add: merge_node_def Let_def case_prod_beta arena_contains_iff)
    then show ?thesis
      using durable_add [OF assms(1-4,7) None refl, of ?start "persist P env ?h n ?start"]
        arena.lookup_add [OF assms(5,6), of ?h n] None by simp
  qed
qed

lemma durable_root [simp]: "durable P (snd (get_merkle_root P e)) = durable P e"
  by (simp add: durable_def get_merkle_root_def Let_def split: option.split)

lemma merge_fold_durable:
  assumes "cipher_ok P" "codec_ok P" "\<forall>n\<in>set ns. accepts P n" "io_error env = None" "vacant_key (vacant P)"
    and "arena_ok (arena (engine (snd (snd st))))" "durable P (engine (snd (snd st)))"
  shows "durable P (engine (snd (snd (foldl (merge_node P env) st ns))))"
  using assms(6,7,3)
proof (induction ns arbitrary: st)
  case (Cons n ns)
  have "arena_ok (arena (engine (snd (snd (merge_node P env st n)))))"
    using arena.ok_add [OF assms(5) Cons.prems(1)] by (simp add: merge_node_arena)
  then have "durable P (engine (snd (snd (foldl (merge_node P env) (merge_node P env st n) ns))))"
    using merge_node_durable [OF assms(1,2) _ assms(4,5) Cons.prems(1,2), of n] Cons.prems(3)
    by (intro Cons.IH) simp_all
  then show ?case by simp
qed simp

lemma handle_merge_durable:
  assumes "cipher_ok P" "codec_ok P" "\<forall>n\<in>set ns. accepts P n" "io_error env = None" "vacant_key (vacant P)"
    and "arena_ok (arena (engine a))" "durable P (engine a)" "handle_merge P env ns a = (added, evs, b)"
  shows "durable P (engine b)"
proof -
  let ?f = "snd (snd (foldl (merge_node P env) (0, [], a) ns))"
  have "durable P (engine ?f)"
    by (rule merge_fold_durable [OF assms(1-5)]) (simp_all add: assms(6,7))
  moreover have "arena_ok (arena (engine ?f))"
    using arena.ok_add_all [OF assms(5,6)] by (simp add: merge_fold_arena)
  then have "durable P (recompute_heads env (engine ?f)) = durable P (engine ?f)"
    by (simp add: recompute_heads_eq durable_def)
  moreover have "engine b = engine ?f \<or> engine b = recompute_heads env (engine ?f)"
    using assms(8) by (auto simp: handle_merge_def Let_def case_prod_beta split: if_splits)
  ultimately show ?thesis by metis
qed

text \<open>The nodes that a message may add.\<close>

definition new_nodes :: "call_env \<Rightarrow> CrdtMsg \<Rightarrow> CrdtActor \<Rightarrow> DagNode set" where
  "new_nodes env m a = (case m of
     Append dh sig vc ev \<Rightarrow> {new_node env dh sig vc ev (engine a)} | Merge ns \<Rightarrow> set ns | _ \<Rightarrow> {})"

lemma handle_durable:
  assumes "cipher_ok P" "codec_ok P" "\<forall>n\<in>new_nodes env m a. accepts P n" "io_error env = None" "vacant_key (vacant P)"
    and "iter_ok env" "fresh_for P env m a" "handle P env m a = (r, evs, b)" "dag_ok P (engine a)"
    and "durable P (engine a)"
  shows "durable P (engine b)"
proof (cases m)
  case (Append dh sig vc ev)
  obtain h e where e: "append_mutation P env dh sig vc ev (engine a) = (h, e)" by fastforce
  have "get_by_hash (arena (engine a)) h = None"
    using assms(7) Append e by (simp add: fresh_for_def fresh_hash_def)
  then have "durable P e" 
    using append_durable [OF assms(1,2) _ assms(4,5,9,10) e] assms(3) Append by (simp add: new_nodes_def)
  moreover have "engine b = e \<or> engine b = snd (get_merkle_root P e)"
    using handle_append_engine [OF e] assms(8) Append by blast
  ultimately show ?thesis by (metis durable_root)
next
  case (Merge ns)
  have "arena_ok (arena (engine a))" using assms(9) by (simp add: dag_ok_def engine_ok_def)
  moreover obtain added evs' where "handle_merge P env ns a = (added, evs', b)"
    using assms(8) Merge by (auto simp: handle_def Let_def split: prod.splits)
  ultimately show ?thesis
    using handle_merge_durable [OF assms(1,2) _ assms(4,5) _ assms(10)] assms(3) Merge
    by (simp add: new_nodes_def)
next
  case GetRoot
  then have "engine b = snd (get_merkle_root P (engine a))"
    using assms(8) by (auto simp: handle_def case_prod_beta)
  then show ?thesis using assms(10) by simp
next
  case (GetDiff remote)
  then have "b = a" using assms(8) by (simp add: handle_def)
  then show ?thesis using assms(10) by simp
qed

text \<open>Runs in which no transaction of the store fails and the libraries accept the nodes.\<close>

inductive stable_run :: "platform \<Rightarrow> CrdtActor \<Rightarrow> CrdtActor \<Rightarrow> bool" for P a where
  idle: "stable_run P a a"
| handled: "stable_run P a b \<Longrightarrow> iter_ok env \<Longrightarrow> io_error env = None \<Longrightarrow> fresh_for P env m b
    \<Longrightarrow> \<forall>n\<in>new_nodes env m b. accepts P n \<Longrightarrow> handle P env m b = (r, evs, c) \<Longrightarrow> stable_run P a c"

lemma stable_run_durable:
  assumes "cipher_ok P" "codec_ok P" "vacant_key (vacant P)" "stable_run P a b"
    and "actor_ok P t a" "durable P (engine a)"
  shows "actor_ok P t b \<and> durable P (engine b)"
  using assms(4-6)
proof (induction rule: stable_run.induct)
  case (handled b env m r evs c)
  then have b: "actor_ok P t b" "durable P (engine b)" by blast+
  then have "dag_ok P (engine b)" by (simp add: actor_ok_def)
  then show ?case
    using handle_ok [OF assms(3) handled(2,4,6) b(1)]
      handle_durable [OF assms(1,2) handled(5,3) assms(3) handled(2,4,6) _ b(2)] by blast
qed simp

lemma durable_new: "durable P (with_gc_threshold (Some \<lparr>db = None, cipher = key\<rparr>) gc)"
  by (simp add: durable_def with_gc_threshold_def store_wf_def stored_eq)

lemma recover_empty:
  "iter_ok env \<Longrightarrow> durable P (recover P env (with_gc_threshold (Some \<lparr>db = None, cipher = key\<rparr>) gc))
   \<and> dag_ok P (recover P env (with_gc_threshold (Some \<lparr>db = None, cipher = key\<rparr>) gc))"
proof -
  assume env: "iter_ok env"
  let ?e = "with_gc_threshold (Some \<lparr>db = None, cipher = key\<rparr>) gc"
  have "recover P env ?e = invalidate_root env ?e"
    by (simp add: recover_def load_batched_def with_gc_threshold_def Let_def split: option.split)
  moreover have "engine_ok P (invalidate_root env ?e)"
    by (rule engine_ok_invalidate [OF env]) (simp_all add: with_gc_threshold_def)
  ultimately show ?thesis
    using dag_ok_new [of P "Some \<lparr>db = None, cipher = key\<rparr>" gc] durable_new [of P key gc]
    by (simp add: dag_ok_def durable_def)
qed

text \<open>
  C11: Crash recovery: start an actor on an empty store and drive it in any way without storage
  errors and with nodes that the codec and the cipher accept. An actor started on the store it leaves holds every node that the first one held, under
  the same hash, satisfies the invariant, and its heads are the stored nodes nobody refers to.
\<close>

theorem recovery_loses_nothing:
  assumes "cipher_ok P" "codec_ok P" "vacant_key (vacant P)" "digest32 (blake P)"
    and "iter_ok env" "iter_ok env'" "io_error env' = None"
    and "stable_run P (actor_new P env (Some \<lparr>db = None, cipher = key\<rparr>) log t gc) b"
    and "c = actor_new P env' (store (engine b)) log' t gc"
  shows "get_by_hash (arena (engine b)) \<subseteq>\<^sub>m get_by_hash (arena (engine c))
    \<and> dag_ok P (engine c) \<and> heads (engine c) = frontier (arena (engine c))"
proof -
  let ?a = "actor_new P env (Some \<lparr>db = None, cipher = key\<rparr>) log t gc"
  have "durable P (engine ?a)" "actor_ok P t ?a"
    using recover_empty [OF assms(5), of P key gc] by (auto simp: actor_new_def actor_ok_def intro: quorum_run.start)
  then have "durable P (engine b)" using stable_run_durable [OF assms(1-3,8)] by blast
  then obtain s where s: "store (engine b) = Some s" "store_wf s" "get_by_hash (arena (engine b)) \<subseteq>\<^sub>m stored P s"
    "\<forall>h n. stored P s h = Some n \<longrightarrow> h = compute_hash (blake P) n"
    unfolding durable_def by blast
  have "\<forall>h n. stored P s h = Some n \<longrightarrow> length h = 32 \<and> h = compute_hash (blake P) n"
    using s(4) assms(4) unfolding compute_hash_def digest32_def by metis
  note rec = recover_correct [OF assms(3,6,7) s(2) this, of gc]
  have "engine c = recover P env' (with_gc_threshold (Some s) gc)"
    using assms(9) s(1) by (simp add: actor_new_def)
  then show ?thesis using rec s(3) by (simp add: dag_ok_def)
qed

section \<open>Votes by merging\<close>

text \<open>
  The voter of merged evidence is the first half of the node's signature, not the author: two
  nodes of one author, at two ticks of its clock, with one prompt and one decision and signatures
  that start differently, verify a prompt for which two votes are needed.
\<close>

theorem quorum_by_one_node:
  assumes "quorum a = quorum_new 2" "vclock n = [(u, t)]" "vclock m = [(u, t')]" "t \<noteq> t'"
    and "evidence n = Some ev" "evidence m = Some ev'" "ev_prompt ev' = ev_prompt ev" "ev_decision ev' = ev_decision ev"
    and "take 32 (node_signature n) \<noteq> take 32 (node_signature m)"
    and "compute_hash (blake P) n \<noteq> compute_hash (blake P) m" "vacant_key (vacant P)" "arena_ok (arena (engine a))"
    and "get_by_hash (arena (engine a)) (compute_hash (blake P) n) = None"
    and "get_by_hash (arena (engine a)) (compute_hash (blake P) m) = None"
    and "handle_merge P env [n, m] a = (added, evs, b)"
  shows "is_verified P (quorum b) (ev_prompt ev) \<and> added = 2
    \<and> get_support_count P (quorum b) (ev_prompt ev) (ev_decision ev) = 2"
proof -
  let ?hn = "compute_hash (blake P) n" let ?hm = "compute_hash (blake P) m"
  let ?x = "take 32 (node_signature n)" let ?y = "take 32 (node_signature m)"
  let ?p = "blake P (ascii (ev_prompt ev))" let ?d = "blake P (ascii (ev_decision ev))"
  define q where "q = (quorum_new 2)\<lparr>observed_ticks := [(u, t) \<mapsto> (data_hash n, ?hn)]\<rparr>"
  have c: "check_equivocation n ?hn (quorum_new 2) = (None, q)"
    using assms(2) by (simp add: check_equivocation_def quorum_new_def q_def)
  define r where "r = q\<lparr>decisions := [?p \<mapsto> [(?d, {?x})]]\<rparr>"
  have r: "observe P ?x ev q = (False, r)" by (simp add: observe_def q_def r_def quorum_new_def Let_def)
  define s where "s = r\<lparr>observed_ticks := [(u, t) \<mapsto> (data_hash n, ?hn), (u, t') \<mapsto> (data_hash m, ?hm)]\<rparr>"
  have s: "check_equivocation m ?hm r = (None, s)"
    using assms(3,4) by (simp add: check_equivocation_def s_def r_def q_def quorum_new_def)
  have f: "fst (observe P ?y ev' s)" "?p \<in> verified (snd (observe P ?y ev' s))"
    "decisions (snd (observe P ?y ev' s)) = [?p \<mapsto> [(?d, {?y, ?x})]]"
    using assms(7-9) by (simp_all add: observe_def s_def r_def q_def quorum_new_def Let_def)
  let ?m = "merge_node P env (0, [], a) n"
  have m1: "quorum (snd (snd ?m)) = r" "fst ?m = 1"
    "get_by_hash (arena (engine (snd (snd ?m)))) ?hm = None"
    using assms(1,5,10,13,14) c r arena.lookup_add [OF assms(11,12), of ?hn n]
    by (simp_all add: merge_node_def arena_contains_iff Let_def case_prod_beta)
  have "quorum (snd (snd (merge_node P env ?m m))) = snd (observe P ?y ev' s)" "fst (merge_node P env ?m m) = 2"
    using assms(6) m1 s by (simp_all add: merge_node_def arena_contains_iff Let_def case_prod_beta)
  then have "quorum b = snd (observe P ?y ev' s)" "added = 2"
    using assms(15) by (auto simp: handle_merge_def Let_def case_prod_beta)
  then show ?thesis using f assms(9) by (auto simp: is_verified_def get_support_count_def)
qed

section \<open>Evaluations\<close>

abbreviation "sample_second \<equiv> compute_hash sample_hash (sample_node [] 2)"

definition idle_actor :: "nat \<Rightarrow> u64 \<Rightarrow> CrdtActor" where
  "idle_actor t gc = actor_new sample_platform sample_env None False t gc"

lemma sample_hashes: "sample_first \<noteq> sample_second" "sample_first \<noteq> compute_hash sample_hash (sample_node [] 2\<lparr>vclock := [(''n'', 2)]\<rparr>)"
  by code_simp+

lemma sample_platform_blake [simp]: "blake sample_platform = sample_hash"
  by (simp add: sample_platform_def)

lemma idle_actor_simps [simp]:
  "dag_ok sample_platform (engine (idle_actor t gc))" "get_by_hash (arena (engine (idle_actor t gc))) = Map.empty"
  "arena_ok (arena (engine (idle_actor t gc)))"
  "node_set (idle_actor t gc) = {}" "quorum (idle_actor t gc) = quorum_new t"
  "gc_threshold (engine (idle_actor t gc)) = gc" "mutations_since_gc (engine (idle_actor t gc)) = 0"
  using dag_ok_new [of sample_platform None gc]
  by (simp_all add: idle_actor_def actor_new_def recover_def with_gc_threshold_def node_set_def)

lemma sample_node_inject [simp]: "sample_node ps b = sample_node qs c \<longleftrightarrow> ps = qs \<and> b = c"
  by (auto simp: sample_node_def dest!: arg_cong [where f = parents] arg_cong [where f = data_hash])

theorem merge_converges_witness:
  "fst (get_merkle_root sample_platform (engine (snd (snd
      (handle_merge sample_platform sample_env [sample_node [] 1, sample_node [] 2] (idle_actor 2 1000))))))
   = fst (get_merkle_root sample_platform (engine (snd (snd
      (handle_merge sample_platform sample_env [sample_node [] 2, sample_node [] 1, sample_node [] 2] (idle_actor 3 9))))))"
proof -
  let ?a = "handle_merge sample_platform sample_env [sample_node [] 1, sample_node [] 2] (idle_actor 2 1000)"
  let ?b = "handle_merge sample_platform sample_env [sample_node [] 2, sample_node [] 1, sample_node [] 2] (idle_actor 3 9)"
  obtain i evs a j evs' b where "?a = (i, evs, a)" "?b = (j, evs', b)" by (metis surj_pair)
  then show ?thesis
    using merge_converges [OF sample_vacant sample_env_ok sample_env_ok idle_actor_simps(1) idle_actor_simps(1),
        where ns = "[sample_node [] 1, sample_node [] 2]"
          and ms = "[sample_node [] 2, sample_node [] 1, sample_node [] 2]"] sample_hashes
    by (simp add: insert_commute)
qed

theorem quorum_by_one_node_witness:
  "is_verified sample_platform (quorum (snd (snd (handle_merge sample_platform sample_env
     [sample_node [] 1, sample_node [] 2\<lparr>vclock := [(''n'', 2)]\<rparr>] (idle_actor 2 1000))))) ''ask''"
proof -
  let ?m = "sample_node [] 2\<lparr>vclock := [(''n'', 2)]\<rparr>"
  obtain i evs b where "handle_merge sample_platform sample_env [sample_node [] 1, ?m] (idle_actor 2 1000) = (i, evs, b)"
    by (metis surj_pair)
  then show ?thesis
    using quorum_by_one_node [of "idle_actor 2 1000" "sample_node [] 1" "''n''" 1 ?m 2 "the (evidence (sample_node [] 1))"
        "the (evidence ?m)" sample_platform sample_env i evs b] sample_hashes sample_vacant
    by (simp add: sample_node_def)
qed

text \<open>A replica that has merged one node.\<close>

definition sample_replica :: CrdtActor where
  "sample_replica = snd (snd (handle_merge sample_platform sample_env [sample_node [] 1] (idle_actor 2 1000)))"

lemma sample_replica_ok:
  "dag_ok sample_platform (engine sample_replica)"
  "get_by_hash (arena (engine sample_replica)) = [sample_first \<mapsto> sample_node [] 1]"
  "heads (engine sample_replica) = {sample_first}" "links (arena (engine sample_replica)) = {}"
proof -
  let ?m = "handle_merge sample_platform sample_env [sample_node [] 1] (idle_actor 2 1000)"
  have "?m = (fst ?m, fst (snd ?m), sample_replica)" by (simp add: sample_replica_def)
  note e = handle_merge_engine [OF sample_vacant sample_env_ok idle_actor_simps(1) this]
  show a: "dag_ok sample_platform (engine sample_replica)"
    "get_by_hash (arena (engine sample_replica)) = [sample_first \<mapsto> sample_node [] 1]"
    using e(1,2) by (simp_all add: hashed_def)
  show b: "links (arena (engine sample_replica)) = {}"
    by (auto simp: links_def a(2) sample_node_def split: if_splits)
  have "heads (engine sample_replica) = frontier (arena (engine sample_replica))" using a(1) unfolding dag_ok_def by blast
  then show "heads (engine sample_replica) = {sample_first}" by (simp add: frontier_def a(2) b)
qed

theorem sync_completes_witness:
  "\<exists>delta evs i evs' b. handle sample_platform sample_env (GetDiff []) sample_replica = (DiffReply delta, evs, sample_replica)
    \<and> handle_merge sample_platform sample_env delta (idle_actor 2 1000) = (i, evs', b)
    \<and> get_by_hash (arena (engine b)) sample_first \<noteq> None"
proof -
  let ?delta = "get_vdiff sample_env (engine sample_replica) []"
  obtain i evs b where b: "handle_merge sample_platform sample_env ?delta (idle_actor 2 1000) = (i, evs, b)"
    by (metis surj_pair)
  have d: "handle sample_platform sample_env (GetDiff []) sample_replica = (DiffReply ?delta, [], sample_replica)"
    by (simp add: handle_def)
  have "\<forall>g\<in>heads (engine sample_replica). \<forall>k. (g, sample_first) \<in> links (arena (engine sample_replica)) ^^ k \<longrightarrow> k \<le> 100"
  proof (intro ballI allI impI)
    fix g k assume "(g, sample_first) \<in> links (arena (engine sample_replica)) ^^ k"
    then show "k \<le> 100" by (cases k) (auto simp: sample_replica_ok(4))
  qed
  then have "get_by_hash (arena (engine b)) sample_first \<noteq> None"
    using sync_completes [OF sample_vacant sample_env_ok sample_env_ok sample_replica_ok(1) idle_actor_simps(1) d b]
      sample_replica_ok by simp
  then show ?thesis using b d by blast
qed

lemma sample_run:
  "actor_run sample_platform (actor_new sample_platform sample_env None False 2 1000) [Merge [sample_node [] 1]] sample_replica"
proof -
  let ?m = "Merge [sample_node [] 1]"
  have "snd (snd (handle sample_platform sample_env ?m (idle_actor 2 1000))) = sample_replica"
    by (simp add: handle_def Let_def sample_replica_def case_prod_beta)
  then obtain r evs where "handle sample_platform sample_env ?m (idle_actor 2 1000) = (r, evs, sample_replica)"
    by (metis prod.collapse)
  then show ?thesis
    using actor_run.handled [OF actor_run.idle sample_env_ok, of sample_platform ?m] 
    by (simp add: idle_actor_def fresh_for_def)
qed

theorem actor_run_invariant_witness:
  "heads (engine sample_replica) = frontier (arena (engine sample_replica))"
  using actor_run_invariant [OF sample_vacant sample_run, of sample_env] by (rule conjunct1 [OF conjunct2])

theorem append_finalizes_witness:
  "\<exists>r evs b. handle sample_platform sample_env (Append (replicate 32 7) (replicate 64 7) [] None) (idle_actor 2 1) = (r, evs, b)
    \<and> current_epoch (epochs b) = 1 \<and> mutations_since_gc (engine b) = 0"
proof -
  let ?m = "Append (replicate 32 7) (replicate 64 7) [] None"
  obtain r evs b where b: "handle sample_platform sample_env ?m (idle_actor 2 1) = (r, evs, b)" by (metis surj_pair)
  have "fresh_for sample_platform sample_env ?m (idle_actor 2 1)"
    by (simp add: fresh_for_def fresh_hash_def links_def)
  moreover have "current_epoch (epochs (idle_actor 2 1)) = 0"
    by (simp add: idle_actor_def actor_new_def epochs_new_def)
  ultimately show ?thesis
    using append_finalizes [OF sample_env_ok sample_vacant idle_actor_simps(1) _ b] b by (simp add: finalize_epoch_def)
qed

definition stored_actor :: CrdtActor where
  "stored_actor = actor_new sample_platform sample_env (Some empty_store) False 2 1000"

theorem recovery_loses_nothing_witness:
  "\<exists>r evs b. handle sample_platform sample_env (Merge [sample_node [] 1]) stored_actor = (r, evs, b)
    \<and> get_by_hash (arena (engine b)) sample_first = Some (sample_node [] 1)
    \<and> get_by_hash (arena (engine (actor_new sample_platform sample_env (store (engine b)) False 2 1000))) sample_first
      = Some (sample_node [] 1)"
proof -
  let ?m = "Merge [sample_node [] 1]"
  obtain r evs b where b: "handle sample_platform sample_env ?m stored_actor = (r, evs, b)" by (metis surj_pair)
  have empty: "dag_ok sample_platform (engine stored_actor)" "get_by_hash (arena (engine stored_actor)) = Map.empty"
    using recover_empty [of sample_env sample_platform "[1, 2, 3]" 1000]
    by (simp_all add: stored_actor_def actor_new_def empty_store_def)
       (simp add: recover_def load_batched_def with_gc_threshold_def Let_def sample_env_def)
  obtain i evs' where "handle_merge sample_platform sample_env [sample_node [] 1] stored_actor = (i, evs', b)"
    using b by (auto simp: handle_def Let_def split: prod.splits)
  then have here: "get_by_hash (arena (engine b)) sample_first = Some (sample_node [] 1)"
    using handle_merge_engine(2) [OF sample_vacant sample_env_ok empty(1)] empty(2) by (simp add: hashed_def)
  have io: "io_error sample_env = None" by (simp add: sample_env_def)
  have "accepts sample_platform (sample_node [] 1)"
    by (simp add: accepts_def sample_platform_def sample_encode_def Let_def) (simp add: sample_node_def)
  then have "stable_run sample_platform (actor_new sample_platform sample_env (Some \<lparr>db = None, cipher = [1, 2, 3]\<rparr>) False 2 1000) b"
    using stable_run.handled [OF stable_run.idle sample_env_ok io _ _ b] b
    by (simp add: fresh_for_def new_nodes_def stored_actor_def empty_store_def)
  from recovery_loses_nothing [OF sample_platform_ok sample_vacant _ sample_env_ok sample_env_ok io this refl]
  have "get_by_hash (arena (engine b)) \<subseteq>\<^sub>m
      get_by_hash (arena (engine (actor_new sample_platform sample_env (store (engine b)) False 2 1000)))"
    using digest32_sample by simp
  then show ?thesis using here b unfolding map_le_def by (metis domI)
qed

end
