(* ===== verification/Protocol.thy ===== *)
theory Protocol
  imports Dag_Node Node_Config
begin

text \<open>
  The wire protocol and the identities: messages and payloads (\<open>aimp_node/src/protocol/envelope.rs\<close>),
  the parser with its version guard (\<open>protocol/de_ser.rs\<close>), signing (\<open>crypto/identity.rs\<close>, the
  default backend) and verification (\<open>crypto/verifier.rs\<close>). Third-party code enters as the record
  \<open>wire\<close>: the MessagePack codec of each type, Ed25519 and X25519. A string is the list of its UTF-8
  bytes, read as characters.
\<close>

section \<open>Messages\<close>

datatype OpCode = Ping | SyncReq | SyncRes | Infer

record AimpData =
  data_v :: u8
  data_op :: OpCode
  data_ttl :: u8
  origin_pubkey :: bytes
  data_vclock :: vector_clock
  data_payload :: bytes

record AimpEnvelope =
  env_data :: AimpData
  env_signature :: bytes

datatype Payload =
    PingRoot Hash32
  | SyncRequest "Hash32 list"
  | SyncResponse "DagNode list"
  | InferPrompt string
  | Raw bytes

record wire =
  enc_data :: "AimpData \<Rightarrow> string + bytes"
  enc_envelope :: "AimpEnvelope \<Rightarrow> string + bytes"
  dec_envelope :: "bytes \<Rightarrow> string + AimpEnvelope"
  enc_heads :: "Hash32 list \<Rightarrow> string + bytes"
  dec_heads :: "bytes \<Rightarrow> string + Hash32 list"
  enc_nodes :: "DagNode list \<Rightarrow> string + bytes"
  dec_nodes :: "bytes \<Rightarrow> string + DagNode list"
  derive_key :: "bytes \<Rightarrow> bytes"
  sign_with :: "bytes \<Rightarrow> bytes \<Rightarrow> bytes"
  key_valid :: "bytes \<Rightarrow> bool"
  verify_with :: "bytes \<Rightarrow> bytes \<Rightarrow> bytes \<Rightarrow> bool"
  noise_public :: "bytes \<Rightarrow> bytes"

text \<open>\<open>String::from_utf8\<close>: the well-formed byte sequences of Unicode.\<close>

definition byte_in :: "u8 \<Rightarrow> u8 \<Rightarrow> u8 \<Rightarrow> bool" where
  "byte_in lo b hi \<longleftrightarrow> lo \<le> b \<and> b \<le> hi"

fun utf8_valid :: "bytes \<Rightarrow> bool" where
  "utf8_valid [] = True"
| "utf8_valid (b # bs) =
     (if b < 0x80 then utf8_valid bs
      else case bs of [] \<Rightarrow> False | c # bs \<Rightarrow>
        if byte_in 0xC2 b 0xDF then byte_in 0x80 c 0xBF \<and> utf8_valid bs
        else case bs of [] \<Rightarrow> False | d # bs \<Rightarrow>
          if byte_in 0xE0 b 0xEF
          then byte_in (if b = 0xE0 then 0xA0 else 0x80) c (if b = 0xED then 0x9F else 0xBF)
               \<and> byte_in 0x80 d 0xBF \<and> utf8_valid bs
          else case bs of [] \<Rightarrow> False | e # bs \<Rightarrow>
            byte_in 0xF0 b 0xF4 \<and> byte_in (if b = 0xF0 then 0x90 else 0x80) c (if b = 0xF4 then 0x8F else 0xBF)
            \<and> byte_in 0x80 d 0xBF \<and> byte_in 0x80 e 0xBF \<and> utf8_valid bs)"

definition from_utf8 :: "bytes \<Rightarrow> string option" where
  "from_utf8 bs = (if utf8_valid bs then Some (map (\<lambda>b. char_of (unat b)) bs) else None)"

definition payload_decode :: "wire \<Rightarrow> OpCode \<Rightarrow> bytes \<Rightarrow> Payload" where
  "payload_decode W op bs =
     (case op of
        Ping \<Rightarrow> if length bs = 32 then PingRoot bs else Raw bs
      | SyncReq \<Rightarrow> (case dec_heads W bs of Inr hs \<Rightarrow> SyncRequest hs | Inl _ \<Rightarrow> Raw bs)
      | SyncRes \<Rightarrow> (case dec_nodes W bs of Inr ns \<Rightarrow> SyncResponse ns | Inl _ \<Rightarrow> Raw bs)
      | Infer \<Rightarrow> (case from_utf8 bs of Some s \<Rightarrow> InferPrompt s | None \<Rightarrow> Raw bs))"

definition unwrap_or_default :: "string + bytes \<Rightarrow> bytes" where
  "unwrap_or_default r = (case r of Inr bs \<Rightarrow> bs | Inl _ \<Rightarrow> [])"

definition payload_encode :: "wire \<Rightarrow> Payload \<Rightarrow> bytes" where
  "payload_encode W p =
     (case p of
        PingRoot h \<Rightarrow> h
      | SyncRequest hs \<Rightarrow> unwrap_or_default (enc_heads W hs)
      | SyncResponse ns \<Rightarrow> unwrap_or_default (enc_nodes W ns)
      | InferPrompt s \<Rightarrow> ascii s
      | Raw bs \<Rightarrow> bs)"

section \<open>The parser\<close>

definition to_bytes :: "wire \<Rightarrow> AimpEnvelope \<Rightarrow> ParserError + bytes" where
  "to_bytes W e = (case enc_envelope W e of Inl m \<Rightarrow> Inl (EncodeFail m) | Inr bs \<Rightarrow> Inr bs)"

definition unsupported :: "u8 \<Rightarrow> string" where
  "unsupported v =
     ''Unsupported Protocol Version: '' @ decimal (unat v) @ '' (accepted: ''
       @ decimal (unat MIN_PROTOCOL_VERSION) @ ''-'' @ decimal (unat PROTOCOL_VERSION) @ '')''"

definition from_bytes :: "wire \<Rightarrow> bytes \<Rightarrow> ParserError + AimpEnvelope" where
  "from_bytes W bs =
     (if bs = [] then Inl InvalidSize
      else case dec_envelope W bs of
        Inl m \<Rightarrow> Inl (DecodeFail m)
      | Inr e \<Rightarrow>
          if data_v (env_data e) < MIN_PROTOCOL_VERSION \<or> data_v (env_data e) > PROTOCOL_VERSION
          then Inl (DecodeFail (unsupported (data_v (env_data e)))) else Inr e)"

section \<open>Identities\<close>

record Identity =
  signing_key :: bytes
  verifying_key :: bytes
  noise_static_secret :: bytes
  noise_static_public :: bytes

definition build_from :: "wire \<Rightarrow> bytes \<Rightarrow> Identity" where
  "build_from W key =
     \<lparr>signing_key = key, verifying_key = derive_key W key, noise_static_secret = key,
      noise_static_public = noise_public W key\<rparr>"

text \<open>The seed of a new identity is what the random number generator gave.\<close>

definition identity_new :: "wire \<Rightarrow> bytes \<Rightarrow> Identity" where
  "identity_new W random = build_from W random"

definition from_secret_bytes :: "wire \<Rightarrow> bytes \<Rightarrow> Identity" where
  "from_secret_bytes W secret = build_from W secret"

definition secret_bytes :: "Identity \<Rightarrow> bytes" where
  "secret_bytes i = signing_key i"

definition node_id :: "Identity \<Rightarrow> bytes" where
  "node_id i = verifying_key i"

definition sign :: "wire \<Rightarrow> Identity \<Rightarrow> AimpData \<Rightarrow> CryptoError + AimpEnvelope" where
  "sign W i d =
     (case enc_data W d of
        Inl _ \<Rightarrow> Inl SerializationError
      | Inr bs \<Rightarrow> Inr \<lparr>env_data = d, env_signature = sign_with W (signing_key i) bs\<rparr>)"

definition sign_bytes :: "wire \<Rightarrow> Identity \<Rightarrow> bytes \<Rightarrow> bytes" where
  "sign_bytes W i bs = sign_with W (signing_key i) bs"

definition verify :: "wire \<Rightarrow> AimpEnvelope \<Rightarrow> bool" where
  "verify W e =
     (if \<not> key_valid W (origin_pubkey (env_data e)) then False
      else case enc_data W (env_data e) of
        Inl _ \<Rightarrow> False
      | Inr bs \<Rightarrow> verify_with W (origin_pubkey (env_data e)) bs (env_signature e))"

definition batch_hash :: "blake3 \<Rightarrow> bytes list \<Rightarrow> Hash32 list" where
  "batch_hash B ps = map B ps"

section \<open>What the codecs and the signatures promise\<close>

text \<open>Decoding inverts encoding; a signature verifies under the key it was made for.\<close>

definition wire_ok :: "wire \<Rightarrow> bool" where
  "wire_ok W \<longleftrightarrow> (\<forall>e bs. enc_envelope W e = Inr bs \<longrightarrow> bs \<noteq> [] \<and> dec_envelope W bs = Inr e)
     \<and> (\<forall>hs bs. enc_heads W hs = Inr bs \<longrightarrow> dec_heads W bs = Inr hs)
     \<and> (\<forall>ns bs. enc_nodes W ns = Inr bs \<longrightarrow> dec_nodes W bs = Inr ns)
     \<and> (\<forall>k m. key_valid W (derive_key W k) \<and> verify_with W (derive_key W k) m (sign_with W k m))"

text \<open>A signature made with one key does not verify under the key of another seed.\<close>

definition unforgeable :: "wire \<Rightarrow> bool" where
  "unforgeable W \<longleftrightarrow> (\<forall>k k' m. derive_key W k \<noteq> derive_key W k' \<longrightarrow> \<not> verify_with W (derive_key W k) m (sign_with W k' m))"

lemma sign_verifies_iff:
  assumes "wire_ok W" "unforgeable W" "i = build_from W k" "sign W i d = Inr e" "origin_pubkey d = derive_key W k'"
  shows "verify W e \<longleftrightarrow> node_id i = origin_pubkey d"
proof -
  obtain bs where "enc_data W d = Inr bs" "e = \<lparr>env_data = d, env_signature = sign_with W k bs\<rparr>"
    using assms(3,4) by (auto simp: sign_def build_from_def split: sum.splits)
  then have "verify W e \<longleftrightarrow> verify_with W (derive_key W k') bs (sign_with W k bs)"
    using assms(1,5) by (simp add: verify_def wire_ok_def)
  moreover have "verify_with W (derive_key W k) bs (sign_with W k bs)" using assms(1) by (simp add: wire_ok_def)
  ultimately show ?thesis
    using assms(2,3,5) unfolding unforgeable_def by (metis Identity.select_convs(2) build_from_def node_id_def)
qed

lemma from_bytes_Inr:
  "from_bytes W bs = Inr e \<longleftrightarrow> bs \<noteq> [] \<and> dec_envelope W bs = Inr e \<and> data_v (env_data e) = 1"
proof -
  have "v < 1 \<or> v > 1 \<longleftrightarrow> v \<noteq> 1" for v :: u8 by (metis less_irrefl linorder_less_linear)
  then show ?thesis
    by (auto simp: from_bytes_def MIN_PROTOCOL_VERSION_def PROTOCOL_VERSION_def split: sum.splits if_splits)
qed

lemma secret_roundtrip: "secret_bytes (from_secret_bytes W s) = s" "from_secret_bytes W (secret_bytes (identity_new W s)) = identity_new W s"
  by (simp_all add: secret_bytes_def from_secret_bytes_def identity_new_def build_from_def)

text \<open>Text is UTF-8.\<close>

definition utf8 :: "string \<Rightarrow> bool" where
  "utf8 s \<longleftrightarrow> utf8_valid (ascii s)"

lemma from_utf8_ascii: "from_utf8 (ascii s) = (if utf8 s then Some s else None)"
proof -
  have "char_of (unat (of_char c :: u8)) = c" for c
  proof -
    have "(of_char c :: u8) = word_of_nat (of_char c)" by (rule of_nat_of_char [symmetric])
    then show ?thesis by (simp add: unat_of_nat)
  qed
  then have "map (\<lambda>b. char_of (unat b)) (ascii s) = s" by (simp add: ascii_def comp_def)
  then show ?thesis by (simp add: from_utf8_def utf8_def)
qed

text \<open>The payloads a node sends under an opcode.\<close>

definition payload_fits :: "wire \<Rightarrow> OpCode \<Rightarrow> Payload \<Rightarrow> bool" where
  "payload_fits W op p \<longleftrightarrow>
     (case p of
        PingRoot h \<Rightarrow> op = Ping \<and> length h = 32
      | SyncRequest hs \<Rightarrow> op = SyncReq \<and> enc_heads W hs \<notin> range Inl
      | SyncResponse ns \<Rightarrow> op = SyncRes \<and> enc_nodes W ns \<notin> range Inl
      | InferPrompt s \<Rightarrow> op = Infer \<and> utf8 s
      | Raw bs \<Rightarrow> False)"

text \<open>
  C18: Round trip of a message: a payload that was encoded for its opcode, put into a message of the
  current version by the identity it names as its origin, signed and serialized, is parsed back
  to the same envelope, passes the verification and decodes to the payload.
\<close>

theorem message_roundtrip:
  assumes "wire_ok W" "i = build_from W k" "payload_fits W (data_op d) p"
    and "data_v d = 1" "origin_pubkey d = node_id i" "data_payload d = payload_encode W p"
    and "sign W i d = Inr e" "to_bytes W e = Inr bs"
  shows "from_bytes W bs = Inr e \<and> verify W e
    \<and> payload_decode W (data_op (env_data e)) (data_payload (env_data e)) = p"
proof -
  obtain m where m: "enc_data W d = Inr m" "e = \<lparr>env_data = d, env_signature = sign_with W k m\<rparr>"
    using assms(2,7) by (auto simp: sign_def build_from_def split: sum.splits)
  have "enc_envelope W e = Inr bs" using assms(8) by (auto simp: to_bytes_def split: sum.splits)
  then have "from_bytes W bs = Inr e" using assms(1,4) m(2) by (simp add: from_bytes_Inr wire_ok_def)
  moreover have "verify W e"
    using assms(1,2,5) m by (simp add: verify_def wire_ok_def node_id_def build_from_def)
  moreover have "payload_decode W (data_op d) (payload_encode W p) = p"
    using assms(1,3) by (cases p)
      (auto simp: payload_fits_def payload_decode_def payload_encode_def unwrap_or_default_def from_utf8_ascii
        wire_ok_def split: sum.splits)
  ultimately show ?thesis using m(2) assms(6) by simp
qed

text \<open>What the parser rejects and how: nothing is an invalid size, bytes that are no envelope
  report the error of the codec, and an envelope is accepted exactly when its version is 1;
  otherwise the error names its version.\<close>

lemma parser_verdict:
  "from_bytes W bs =
    (if bs = [] then Inl InvalidSize
     else case dec_envelope W bs of
       Inl m \<Rightarrow> Inl (DecodeFail m)
     | Inr e \<Rightarrow> if unat (data_v (env_data e)) = 1 then Inr e
         else Inl (DecodeFail (''Unsupported Protocol Version: '' @ decimal (unat (data_v (env_data e)))
           @ '' (accepted: 1-1)'')))"
proof -
  have "v < 1 \<or> v > 1 \<longleftrightarrow> unat v \<noteq> 1" for v :: u8
    by (metis less_irrefl linorder_less_linear unat_1 unsigned_word_eqI)
  moreover have "decimal (unat (1 :: u8)) = ''1''" by (subst decimal.simps) code_simp
  ultimately show ?thesis
    by (simp add: from_bytes_def unsupported_def MIN_PROTOCOL_VERSION_def PROTOCOL_VERSION_def split: sum.splits)
qed

text \<open>
  Libraries to evaluate on: a codec for messages with an empty clock and an origin of one byte,
  and signatures that are the key.
\<close>

definition op_byte :: "OpCode \<Rightarrow> u8" where
  "op_byte op = (case op of Ping \<Rightarrow> 1 | SyncReq \<Rightarrow> 2 | SyncRes \<Rightarrow> 3 | Infer \<Rightarrow> 4)"

definition byte_op :: "u8 \<Rightarrow> OpCode" where
  "byte_op b = (if b = 1 then Ping else if b = 2 then SyncReq else if b = 3 then SyncRes else Infer)"

definition sample_enc_data :: "AimpData \<Rightarrow> string + bytes" where
  "sample_enc_data d =
     (case origin_pubkey d of
        [k] \<Rightarrow> if data_vclock d = [] then Inr (data_v d # op_byte (data_op d) # data_ttl d # k # data_payload d) else Inl ''clock''
      | _ \<Rightarrow> Inl ''origin'')"

definition sample_enc_envelope :: "AimpEnvelope \<Rightarrow> string + bytes" where
  "sample_enc_envelope e =
     (case (env_signature e, sample_enc_data (env_data e)) of ([s], Inr bs) \<Rightarrow> Inr (s # bs) | _ \<Rightarrow> Inl ''envelope'')"

definition sample_dec_envelope :: "bytes \<Rightarrow> string + AimpEnvelope" where
  "sample_dec_envelope bs =
     (case bs of
        s # v # op # t # k # p \<Rightarrow>
          Inr \<lparr>env_data = \<lparr>data_v = v, data_op = byte_op op, data_ttl = t, origin_pubkey = [k], data_vclock = [], data_payload = p\<rparr>,
               env_signature = [s]\<rparr>
      | _ \<Rightarrow> Inl ''short'')"

definition sample_wire :: wire where
  "sample_wire = \<lparr>enc_data = sample_enc_data, enc_envelope = sample_enc_envelope, dec_envelope = sample_dec_envelope,
     enc_heads = \<lambda>hs. if hs = [] then Inr [0] else Inl ''heads'', dec_heads = \<lambda>bs. Inr [],
     enc_nodes = \<lambda>ns. if ns = [sample_node [] 1] then Inr [1]
       else if ns = [sample_node [] 1, sample_node [] 2] then Inr [2] else Inl ''nodes'',
     dec_nodes = \<lambda>bs. if bs = [1] then Inr [sample_node [] 1] else Inr [sample_node [] 1, sample_node [] 2],
     derive_key = \<lambda>k. k, sign_with = \<lambda>k m. k, key_valid = \<lambda>k. True, verify_with = \<lambda>k m s. s = k,
     noise_public = \<lambda>k. k\<rparr>"

lemma sample_wire_ok: "wire_ok sample_wire" "unforgeable sample_wire"
proof -
  have "byte_op (op_byte op) = op" for op by (cases op) (simp_all add: byte_op_def op_byte_def)
  then have "sample_enc_envelope e = Inr bs \<Longrightarrow> bs \<noteq> [] \<and> sample_dec_envelope bs = Inr e" for e bs
    by (auto simp: sample_enc_envelope_def sample_enc_data_def sample_dec_envelope_def split: list.splits sum.splits if_splits)
  then show "wire_ok sample_wire" by (auto simp: wire_ok_def sample_wire_def split: if_splits)
  show "unforgeable sample_wire" by (simp add: unforgeable_def sample_wire_def)
qed

definition sample_data :: "u8 \<Rightarrow> u8 \<Rightarrow> AimpData" where
  "sample_data k t = \<lparr>data_v = 1, data_op = Infer, data_ttl = t, origin_pubkey = [k], data_vclock = [], data_payload = ascii ''flow''\<rparr>"

theorem message_roundtrip_witness:
  "\<exists>e bs. sign sample_wire (build_from sample_wire [7]) (sample_data 7 3) = Inr e \<and> to_bytes sample_wire e = Inr bs
    \<and> from_bytes sample_wire bs = Inr e \<and> payload_decode sample_wire Infer (data_payload (env_data e)) = InferPrompt ''flow''"
proof -
  let ?i = "build_from sample_wire [7]"
  obtain e bs where e: "sign sample_wire ?i (sample_data 7 3) = Inr e" "to_bytes sample_wire e = Inr bs" "env_data e = sample_data 7 3"
    by (simp add: sign_def to_bytes_def sample_wire_def sample_enc_data_def sample_enc_envelope_def sample_data_def build_from_def)
  have "utf8 ''flow''" by code_simp
  then have "from_bytes sample_wire bs = Inr e \<and> verify sample_wire e
    \<and> payload_decode sample_wire (data_op (env_data e)) (data_payload (env_data e)) = InferPrompt ''flow''"
    by (intro message_roundtrip [OF sample_wire_ok(1) refl _ _ _ _ e(1,2)])
       (simp_all add: payload_fits_def sample_data_def node_id_def build_from_def sample_wire_def payload_encode_def)
  then show ?thesis using e by (auto simp: sample_data_def)
qed

end
