(* ===== verification/Sessions.thy ===== *)
theory Sessions
  imports Protocol
begin

text \<open>
  Noise sessions (\<open>aimp_node/src/network/security.rs\<close>). The library \<open>snow\<close> enters as the record
  \<open>noise\<close>: handshake and transport states are types \<open>'h\<close> and \<open>'t\<close> of its own, and reading or
  writing a message gives the bytes put into the buffer, or nothing on an error, with the next state.
  An \<open>Instant\<close> is a number of nanoseconds; \<open>duration_since\<close> saturates at zero. The hash map of the
  sessions is an association list whose order stands for the order in which the map is iterated.
\<close>

section \<open>The code\<close>

record SocketAddr =
  addr_ip :: "u8 \<times> u8 \<times> u8 \<times> u8"
  addr_port :: u16

record ('h, 't) noise =
  initiator :: "bytes \<Rightarrow> 'h"
  responder :: "bytes \<Rightarrow> 'h"
  hs_write :: "'h \<Rightarrow> bytes \<Rightarrow> nat \<Rightarrow> bytes option \<times> 'h"
  hs_read :: "'h \<Rightarrow> bytes \<Rightarrow> nat \<Rightarrow> bytes option \<times> 'h"
  is_handshake_finished :: "'h \<Rightarrow> bool"
  into_transport_mode :: "'h \<Rightarrow> 't option"
  tr_write :: "'t \<Rightarrow> bytes \<Rightarrow> nat \<Rightarrow> bytes option \<times> 't"
  tr_read :: "'t \<Rightarrow> bytes \<Rightarrow> nat \<Rightarrow> bytes option \<times> 't"

datatype ('h, 't) SecureState = Handshaking 'h | Active 't | Invalid

record ('h, 't) SecureSession =
  session_state :: "('h, 't) SecureState"
  peer_addr :: SocketAddr
  last_used :: nat

type_synonym ('h, 't) sessions = "(SocketAddr \<times> ('h, 't) SecureSession) list"

definition new_initiator :: "('h, 't) noise \<Rightarrow> Identity \<Rightarrow> nat \<Rightarrow> SocketAddr \<Rightarrow> ('h, 't) SecureSession" where
  "new_initiator N i now p =
     \<lparr>session_state = Handshaking (initiator N (noise_static_secret i)), peer_addr = p, last_used = now\<rparr>"

definition new_responder :: "('h, 't) noise \<Rightarrow> Identity \<Rightarrow> nat \<Rightarrow> SocketAddr \<Rightarrow> ('h, 't) SecureSession" where
  "new_responder N i now p =
     \<lparr>session_state = Handshaking (responder N (noise_static_secret i)), peer_addr = p, last_used = now\<rparr>"

text \<open>\<open>min_by_key\<close>: the first of the least elements.\<close>

definition oldest :: "('h, 't) sessions \<Rightarrow> SocketAddr option" where
  "oldest ss =
     (case ss of
        [] \<Rightarrow> None
      | x # xs \<Rightarrow> Some (fst (foldl (\<lambda>m y. if last_used (snd y) < last_used (snd m) then y else m) x xs)))"

lemma oldest_least:
  assumes "ss \<noteq> []"
  shows "\<exists>p s. oldest ss = Some p \<and> (p, s) \<in> set ss \<and> (\<forall>(q, r)\<in>set ss. last_used s \<le> last_used r)"
proof -
  let ?least = "foldl (\<lambda>m y. if last_used (snd y) < last_used (snd m) then y else m)"
  have least: "?least x xs \<in> set (x # xs) \<and> (\<forall>y\<in>set (x # xs). last_used (snd (?least x xs)) \<le> last_used (snd y))"
    for x and xs :: "('h, 't) sessions"
  proof (induction xs arbitrary: x)
    case (Cons y xs)
    show ?case
    proof (cases "last_used (snd y) < last_used (snd x)")
      case True
      then show ?thesis using Cons.IH [of y] by auto
    next
      case False
      then show ?thesis using Cons.IH [of x] by (auto intro: order_trans)
    qed
  qed simp
  obtain x xs where ss: "ss = x # xs" using assms by (cases ss) auto
  obtain p s where m: "?least x xs = (p, s)" by fastforce
  then have "oldest ss = Some p" by (simp add: oldest_def ss)
  moreover have "(p, s) \<in> set ss" "\<forall>y\<in>set ss. last_used s \<le> last_used (snd y)"
    using least [of x xs] unfolding m ss by simp_all
  ultimately show ?thesis by (auto simp: case_prod_beta)
qed

text \<open>The loop that removes the oldest session while there are too many.\<close>

function evict_loop :: "('h, 't) sessions \<Rightarrow> ('h, 't) sessions" where
  "evict_loop ss =
     (if length ss > SESSION_MAX_COUNT
      then case oldest ss of None \<Rightarrow> ss | Some p \<Rightarrow> evict_loop (AList.delete p ss)
      else ss)"
  by pat_completeness auto
termination evict_loop
proof (relation "measure length")
  fix ss :: "('h, 't) sessions" and p
  assume "SESSION_MAX_COUNT < length ss" "oldest ss = Some p"
  then obtain s where "(p, s) \<in> set ss" using oldest_least [of ss] by fastforce
  then show "(AList.delete p ss, ss) \<in> measure length"
    by (auto simp: AList.delete_eq intro!: length_filter_less)
qed simp

declare evict_loop.simps [simp del]

definition evict_stale :: "nat \<Rightarrow> ('h, 't) sessions \<Rightarrow> ('h, 't) sessions" where
  "evict_stale now ss =
     evict_loop (filter (\<lambda>(_, s). now - last_used s < unat SESSION_TTL_SECS * 10 ^ 9
       \<and> (case session_state s of Invalid \<Rightarrow> False | _ \<Rightarrow> True)) ss)"

text \<open>
  \<open>entry(peer).or_insert_with(new)\<close> followed by the new time of use: the session and the map that
  holds it.
\<close>

definition use_session ::
  "nat \<Rightarrow> SocketAddr \<Rightarrow> ('h, 't) SecureSession \<Rightarrow> ('h, 't) sessions \<Rightarrow> ('h, 't) SecureSession" where
  "use_session used addr new ss = (case map_of ss addr of Some s \<Rightarrow> s | None \<Rightarrow> new)\<lparr>last_used := used\<rparr>"

text \<open>\<open>now\<close> and \<open>used\<close> are the two readings of the clock in a call.\<close>

definition wrap ::
  "('h, 't) noise \<Rightarrow> Identity \<Rightarrow> nat \<Rightarrow> nat \<Rightarrow> SocketAddr \<Rightarrow> bytes \<Rightarrow> ('h, 't) sessions
    \<Rightarrow> (bytes \<times> bool) \<times> ('h, 't) sessions" where
  "wrap N i now used addr payload ss =
     (let ss = evict_stale now ss;
          s = use_session used addr (new_initiator N i now addr) ss
      in case session_state s of
           Active t \<Rightarrow>
             (let (out, t) = tr_write N t payload (length payload + 16);
                  ss = AList.update addr (s\<lparr>session_state := Active t\<rparr>) ss
              in case out of Some buf \<Rightarrow> ((buf, False), ss) | None \<Rightarrow> (([], False), ss))
         | Handshaking h \<Rightarrow>
             (let (out, h) = hs_write N h [] 1024;
                  ss = AList.update addr (s\<lparr>session_state := Handshaking h\<rparr>) ss
              in case out of Some buf \<Rightarrow> ((buf, True), ss) | None \<Rightarrow> (([], True), ss))
         | Invalid \<Rightarrow> (([], False), AList.update addr s ss))"

definition unwrap ::
  "('h, 't) noise \<Rightarrow> Identity \<Rightarrow> nat \<Rightarrow> nat \<Rightarrow> SocketAddr \<Rightarrow> bytes \<Rightarrow> ('h, 't) sessions
    \<Rightarrow> bytes option \<times> ('h, 't) sessions" where
  "unwrap N i now used addr payload ss =
     (let ss = evict_stale now ss;
          s = use_session used addr (new_responder N i now addr) ss
      in case session_state s of
           Handshaking h \<Rightarrow>
             (let (out, h) = hs_read N h payload 1024
              in case out of
                   Some buf \<Rightarrow>
                     (Some buf,
                      AList.update addr (s\<lparr>session_state :=
                        (if is_handshake_finished N h
                         then (case into_transport_mode N h of Some t \<Rightarrow> Active t | None \<Rightarrow> Invalid)
                         else Handshaking h)\<rparr>) ss)
                 | None \<Rightarrow> (None, AList.update addr (s\<lparr>session_state := Handshaking h\<rparr>) ss))
         | Active t \<Rightarrow>
             (let (out, t) = tr_read N t payload (length payload)
              in (out, AList.update addr (s\<lparr>session_state := Active t\<rparr>) ss))
         | Invalid \<Rightarrow> (None, AList.update addr s ss))"

section \<open>Eviction\<close>

lemma evict_loop_subset: "set (evict_loop ss) \<subseteq> set ss"
proof (induction ss rule: evict_loop.induct)
  case (1 ss)
  show ?case
  proof (cases "length ss > SESSION_MAX_COUNT")
    case True
    have "set (AList.delete p ss) \<subseteq> set ss" for p by (auto simp: AList.delete_eq)
    then show ?thesis
      using True 1 unfolding evict_loop.simps [of ss] by (cases "oldest ss") (simp, force)
  qed (simp add: evict_loop.simps)
qed

lemma evict_loop_distinct: "distinct (map fst ss) \<Longrightarrow> distinct (map fst (evict_loop ss))"
proof (induction ss rule: evict_loop.induct)
  case (1 ss)
  then show ?case
    by (cases "length ss > SESSION_MAX_COUNT"; cases "oldest ss")
       (simp_all add: evict_loop.simps [of ss] AList.distinct_delete)
qed

lemma evict_loop_length: "length (evict_loop ss) = min (length ss) SESSION_MAX_COUNT" if "distinct (map fst ss)"
  using that
proof (induction ss rule: evict_loop.induct)
  case (1 ss)
  show ?case
  proof (cases "length ss > SESSION_MAX_COUNT")
    case True
    then obtain p s where p: "oldest ss = Some p" "(p, s) \<in> set ss" using oldest_least [of ss] by fastforce
    have "length (AList.delete p ss) = length ss - 1"
      using p(2) 1(2) length_remove1 [of p "map fst ss"]
      by (metis AList.delete_keys distinct_remove1_removeAll image_eqI length_map list.set_map fst_conv)
    then show ?thesis
      using True p(1) 1 by (subst evict_loop.simps) (simp add: AList.distinct_delete)
  qed (simp add: evict_loop.simps)
qed

text \<open>A session that the loop removes is no newer than any that it keeps.\<close>

lemma evict_loop_oldest:
  "distinct (map fst ss) \<Longrightarrow> x \<in> set ss \<Longrightarrow> x \<notin> set (evict_loop ss) \<Longrightarrow> y \<in> set (evict_loop ss)
   \<Longrightarrow> last_used (snd x) \<le> last_used (snd y)"
proof (induction ss rule: evict_loop.induct)
  case (1 ss)
  show ?case
  proof (cases "length ss > SESSION_MAX_COUNT")
    case True
    then obtain p s where p: "oldest ss = Some p" "(p, s) \<in> set ss" "\<forall>(q, r)\<in>set ss. last_used s \<le> last_used r"
      using oldest_least [of ss] by fastforce
    have e: "evict_loop ss = evict_loop (AList.delete p ss)" using True p(1) by (subst evict_loop.simps) simp
    show ?thesis
    proof (cases "x \<in> set (AList.delete p ss)")
      case True
      show ?thesis
        using 1(1) [OF \<open>length ss > SESSION_MAX_COUNT\<close> p(1)] 1(2-) True unfolding e by (simp add: AList.distinct_delete)
    next
      case False
      then have "x = (p, s)" using 1(2,3) p(2) by (auto simp: AList.delete_eq intro: eq_key_imp_eq_value)
      moreover have "y \<in> set ss" using 1(5) evict_loop_subset by blast
      ultimately show ?thesis using p(3) by (auto simp: case_prod_beta)
    qed
  next
    case False
    then show ?thesis using 1(3,4) by (simp add: evict_loop.simps)
  qed
qed

text \<open>A session that may stay: used within the time to live and not invalid.\<close>

definition live :: "nat \<Rightarrow> ('h, 't) SecureSession \<Rightarrow> bool" where
  "live now s \<longleftrightarrow> now - last_used s < 300 * 10 ^ 9 \<and> session_state s \<noteq> Invalid"

lemma evict_stale_eq: "evict_stale now (ss :: ('a, 'b) sessions) = evict_loop (filter (\<lambda>x. live now (snd x)) ss)"
proof -
  have "(case s of Invalid \<Rightarrow> False | _ \<Rightarrow> True) = (s \<noteq> Invalid)" for s :: "('a, 'b) SecureState" by (cases s) auto
  then show ?thesis by (simp add: evict_stale_def live_def SESSION_TTL_SECS_def case_prod_beta')
qed

text \<open>
  Eviction: what is left are live sessions that were there, at most 256 of them and all of them
  when they fit; and a live session that was removed is no newer than any that was left.
\<close>

theorem eviction_keeps_newest:
  assumes "distinct (map fst ss)"
  shows "set (evict_stale now ss) \<subseteq> {x \<in> set ss. live now (snd x)}
    \<and> length (evict_stale now ss) = min 256 (length (filter (\<lambda>x. live now (snd x)) ss))
    \<and> (\<forall>x\<in>set ss - set (evict_stale now ss). live now (snd x) \<longrightarrow>
         (\<forall>y\<in>set (evict_stale now ss). last_used (snd x) \<le> last_used (snd y)))"
proof -
  let ?ss = "filter (\<lambda>x. live now (snd x)) ss"
  have d: "distinct (map fst ?ss)" using assms by (rule distinct_map_filter)
  have "set (evict_stale now ss) \<subseteq> {x \<in> set ss. live now (snd x)}"
    using evict_loop_subset [of ?ss] by (auto simp: evict_stale_eq)
  moreover have "length (evict_stale now ss) = min 256 (length ?ss)"
    using evict_loop_length [OF d] by (simp add: evict_stale_eq SESSION_MAX_COUNT_def min.commute)
  moreover have "last_used (snd x) \<le> last_used (snd y)"
    if "x \<in> set ss - set (evict_stale now ss)" "live now (snd x)" "y \<in> set (evict_stale now ss)" for x y
    using evict_loop_oldest [OF d, of x y] that by (simp add: evict_stale_eq)
  ultimately show ?thesis by blast
qed

theorem eviction_keeps_newest_witness:
  "length (evict_stale 5 [(\<lparr>addr_ip = (10, 0, 0, 1), addr_port = 1\<rparr>,
     \<lparr>session_state = (Active 0 :: (nat, nat) SecureState), peer_addr = \<lparr>addr_ip = (10, 0, 0, 1), addr_port = 1\<rparr>, last_used = 3\<rparr>)]) = 1"
  using eviction_keeps_newest [of "[(\<lparr>addr_ip = (10, 0, 0, 1), addr_port = 1\<rparr>,
     \<lparr>session_state = (Active 0 :: (nat, nat) SecureState), peer_addr = \<lparr>addr_ip = (10, 0, 0, 1), addr_port = 1\<rparr>, last_used = 3\<rparr>)]" 5]
  by (simp add: live_def)

section \<open>Runs of the node\<close>

text \<open>
  What the node does with its sessions: the listener unwraps what arrives, from addresses other than
  the broadcast address, and the broadcast wraps for the broadcast address. Nothing else calls the
  session manager.
\<close>

inductive session_run ::
  "('h, 't) noise \<Rightarrow> Identity \<Rightarrow> SocketAddr \<Rightarrow> ('h, 't) sessions \<Rightarrow> bool" for N i bc where
  start: "session_run N i bc []"
| incoming: "session_run N i bc ss \<Longrightarrow> addr \<noteq> bc \<Longrightarrow> session_run N i bc (snd (unwrap N i now used addr bs ss))"
| outgoing: "session_run N i bc ss \<Longrightarrow> session_run N i bc (snd (wrap N i now used bc bs ss))"

text \<open>The handshake states of a responder that has read messages and written none.\<close>

inductive reads_only :: "('h, 't) noise \<Rightarrow> Identity \<Rightarrow> 'h \<Rightarrow> bool" for N i where
  opened: "reads_only N i (responder N (noise_static_secret i))"
| read: "reads_only N i h \<Longrightarrow> reads_only N i (snd (hs_read N h m 1024))"

text \<open>
  In the XX pattern the responder has to write the second of three messages, so it cannot finish by
  reading alone.
\<close>

definition responder_must_write :: "('h, 't) noise \<Rightarrow> Identity \<Rightarrow> bool" where
  "responder_must_write N i \<longleftrightarrow> (\<forall>h. reads_only N i h \<longrightarrow> \<not> is_handshake_finished N h)"

definition stuck :: "('h, 't) noise \<Rightarrow> Identity \<Rightarrow> SocketAddr \<Rightarrow> SocketAddr \<times> ('h, 't) SecureSession \<Rightarrow> bool" where
  "stuck N i bc x \<longleftrightarrow> (\<exists>h. session_state (snd x) = Handshaking h \<and> (fst x \<noteq> bc \<longrightarrow> reads_only N i h))"

lemma evict_stale_subset: "set (evict_stale now ss) \<subseteq> set ss"
  using evict_loop_subset [of "filter (\<lambda>x. live now (snd x)) ss"] by (auto simp: evict_stale_eq)

lemma update_subset: "set (AList.update k v xs) \<subseteq> insert (k, v) (set xs)"
  by (induction xs) auto

lemma use_session_stuck:
  assumes "\<forall>x\<in>set ss. stuck N i bc x" "stuck N i bc (addr, new)"
  shows "stuck N i bc (addr, use_session used addr new (evict_stale now ss))"
proof (cases "map_of (evict_stale now ss) addr")
  case (Some s)
  then have "(addr, s) \<in> set ss" using evict_stale_subset [of now ss] by (auto dest: map_of_SomeD)
  then have "stuck N i bc (addr, s)" using assms(1) by blast
  then show ?thesis using Some by (simp add: use_session_def stuck_def)
qed (use assms(2) in \<open>simp add: use_session_def stuck_def\<close>)

lemma session_run_stuck:
  assumes "session_run N i bc ss" "responder_must_write N i"
  shows "\<forall>x\<in>set ss. stuck N i bc x"
  using assms(1)
proof induction
  case (incoming ss addr now used bs)
  let ?e = "evict_stale now ss" let ?s = "use_session used addr (new_responder N i now addr) ?e"
  have "stuck N i bc (addr, new_responder N i now addr)"
    by (auto simp: stuck_def new_responder_def intro: reads_only.opened)
  then have "stuck N i bc (addr, ?s)" by (rule use_session_stuck [OF incoming.IH])
  then obtain h where h: "session_state ?s = Handshaking h" "reads_only N i h"
    using incoming.hyps(2) by (auto simp: stuck_def)
  let ?h = "snd (hs_read N h bs 1024)"
  have r: "reads_only N i ?h" using reads_only.read [OF h(2)] .
  then have "\<not> is_handshake_finished N ?h" using assms(2) by (simp add: responder_must_write_def)
  then have "snd (unwrap N i now used addr bs ss) = AList.update addr (?s\<lparr>session_state := Handshaking ?h\<rparr>) ?e"
    by (simp add: unwrap_def Let_def h(1) case_prod_beta split: option.split)
  then have "set (snd (unwrap N i now used addr bs ss)) \<subseteq> insert (addr, ?s\<lparr>session_state := Handshaking ?h\<rparr>) (set ?e)"
    by (simp add: update_subset)
  moreover have "stuck N i bc (addr, ?s\<lparr>session_state := Handshaking ?h\<rparr>)" using r by (simp add: stuck_def)
  ultimately show ?case using incoming.IH evict_stale_subset [of now ss] by blast
next
  case (outgoing ss now used bs)
  let ?e = "evict_stale now ss" let ?s = "use_session used bc (new_initiator N i now bc) ?e"
  have "stuck N i bc (bc, new_initiator N i now bc)" by (simp add: stuck_def new_initiator_def)
  then have "stuck N i bc (bc, ?s)" by (rule use_session_stuck [OF outgoing.IH])
  then obtain h where h: "session_state ?s = Handshaking h" by (auto simp: stuck_def)
  let ?h = "snd (hs_write N h [] 1024)"
  have "snd (wrap N i now used bc bs ss) = AList.update bc (?s\<lparr>session_state := Handshaking ?h\<rparr>) ?e"
    by (simp add: wrap_def Let_def h case_prod_beta split: option.split)
  then have "set (snd (wrap N i now used bc bs ss)) \<subseteq> insert (bc, ?s\<lparr>session_state := Handshaking ?h\<rparr>) (set ?e)"
    by (simp add: update_subset)
  moreover have "stuck N i bc (bc, ?s\<lparr>session_state := Handshaking ?h\<rparr>)" by (simp add: stuck_def)
  ultimately show ?case using outgoing.IH evict_stale_subset [of now ss] by blast
qed simp

lemma unwrap_reads:
  assumes "session_run N i bc ss" "responder_must_write N i" "addr \<noteq> bc"
  obtains h where "reads_only N i h" "fst (unwrap N i now used addr raw ss) = fst (hs_read N h raw 1024)"
proof -
  let ?s = "use_session used addr (new_responder N i now addr) (evict_stale now ss)"
  have "stuck N i bc (addr, new_responder N i now addr)"
    by (auto simp: stuck_def new_responder_def intro: reads_only.opened)
  then have "stuck N i bc (addr, ?s)" by (rule use_session_stuck [OF session_run_stuck [OF assms(1,2)]])
  then obtain h where "session_state ?s = Handshaking h" "reads_only N i h" using assms(3) by (auto simp: stuck_def)
  then show ?thesis
    by (intro that [of h]) (simp_all add: unwrap_def Let_def case_prod_beta split: option.split)
qed

lemma wrap_broadcast:
  assumes "session_run N i bc ss" "responder_must_write N i"
  obtains out h ss' where "\<And>p. wrap N i now used bc p ss = ((out, True), ss')"
    "out = (case fst (hs_write N h [] 1024) of Some b \<Rightarrow> b | None \<Rightarrow> [])"
proof -
  let ?s = "use_session used bc (new_initiator N i now bc) (evict_stale now ss)"
  have "stuck N i bc (bc, new_initiator N i now bc)" by (simp add: stuck_def new_initiator_def)
  then have "stuck N i bc (bc, ?s)" by (rule use_session_stuck [OF session_run_stuck [OF assms]])
  then obtain h where "session_state ?s = Handshaking h" by (auto simp: stuck_def)
  then show ?thesis
    by (intro that [of "case fst (hs_write N h [] 1024) of Some b \<Rightarrow> b | None \<Rightarrow> []"
          "AList.update bc (?s\<lparr>session_state := Handshaking (snd (hs_write N h [] 1024))\<rparr>) (evict_stale now ss)" h])
       (simp_all add: wrap_def Let_def case_prod_beta split: option.split)
qed

text \<open>
  The encrypted transport is never reached: whatever arrives and whatever is broadcast, every
  session of the node stays in its handshake, and what is sent for a broadcast is a handshake
  message or nothing, the same for every payload.
\<close>

theorem sessions_never_active:
  assumes "session_run N i bc ss" "responder_must_write N i"
  shows "(\<forall>(a, s)\<in>set ss. \<exists>h. session_state s = Handshaking h)
    \<and> snd (fst (wrap N i now used bc p ss)) \<and> wrap N i now used bc p ss = wrap N i now used bc q ss"
proof -
  obtain out ss' where w: "\<And>p. wrap N i now used bc p ss = ((out, True), ss')"
    by (rule wrap_broadcast [OF assms, of now used]) blast
  have "\<forall>(a, s)\<in>set ss. \<exists>h. session_state s = Handshaking h"
    using session_run_stuck [OF assms] by (auto simp: stuck_def)
  then show ?thesis by (simp add: w)
qed

text \<open>A handshake to evaluate on: the state counts the messages still to be read and written.\<close>

definition sample_noise :: "(nat \<times> nat, nat) noise" where
  "sample_noise = \<lparr>initiator = \<lambda>k. (1, 2), responder = \<lambda>k. (2, 1),
     hs_write = \<lambda>(r, w) p n. if w > 0 then (Some [0xAA], (r, w - 1)) else (None, (r, w)),
     hs_read = \<lambda>(r, w) m n. if r > 0 then (Some [], (r - 1, w)) else (None, (r, w)),
     is_handshake_finished = \<lambda>(r, w). r = 0 \<and> w = 0,
     into_transport_mode = \<lambda>h. Some 0,
     tr_write = \<lambda>t p n. (Some p, t), tr_read = \<lambda>t p n. (Some p, t)\<rparr>"

lemma sample_noise_ok: "responder_must_write sample_noise i"
proof -
  have "reads_only sample_noise i h \<Longrightarrow> snd h = 1" for h
    by (induction rule: reads_only.induct) (auto simp: sample_noise_def case_prod_beta)
  then show ?thesis by (auto simp: responder_must_write_def sample_noise_def case_prod_beta)
qed

theorem sessions_never_active_witness:
  "\<exists>ss. ss = snd (wrap sample_noise (build_from sample_wire [7]) 0 0 \<lparr>addr_ip = (255, 255, 255, 255), addr_port = 1337\<rparr> [1] [])
    \<and> ss \<noteq> [] \<and> (\<forall>(a, s)\<in>set ss. \<exists>h. session_state s = Handshaking h)"
proof -
  let ?i = "build_from sample_wire [7]" let ?bc = "\<lparr>addr_ip = (255, 255, 255, 255), addr_port = 1337\<rparr>"
  let ?ss = "snd (wrap sample_noise ?i 0 0 ?bc [1] [])"
  have "session_run sample_noise ?i ?bc ?ss" by (rule session_run.outgoing [OF session_run.start])
  from sessions_never_active [OF this sample_noise_ok]
  have "\<forall>(a, s)\<in>set ?ss. \<exists>h. session_state s = Handshaking h" by blast
  moreover have "?ss \<noteq> []"
    by (simp add: wrap_def evict_stale_def evict_loop.simps use_session_def new_initiator_def sample_noise_def)
  ultimately show ?thesis by blast
qed

end
