(* ===== verification/Gossip.thy ===== *)
theory Gossip
  imports Sessions
begin

text \<open>
  The gossip network (\<open>aimp_node/src/network/mod.rs\<close>): the duplicate filter, the token buckets, the
  circuit breaker, and the two operations that use them, one iteration of the listener and the
  broadcast. The socket is the datagram that arrives or is sent. The maps shared with other tasks
  are only used by these two operations. Arithmetic on \<open>u64\<close> wraps, as in a release build.
\<close>

section \<open>The code\<close>

record RateBucket =
  tokens :: u64
  last_refill :: nat

record GossipFilter =
  queue :: "bytes list"
  filter_set :: "bytes set"
  capacity :: nat

record ('h, 't) GossipNetwork =
  net_port :: u16
  gossip_filter :: GossipFilter
  net_log :: bool
  net_identity :: Identity
  peer_health :: "string \<Rightarrow> u32 option"
  security :: "('h, 't) sessions"
  rate_limits :: "string \<Rightarrow> RateBucket option"
  rate_limit :: u64
  rate_burst :: u64
  noise_needed :: bool

definition filter_new :: "nat \<Rightarrow> GossipFilter" where
  "filter_new c = \<lparr>queue = [], filter_set = {}, capacity = c\<rparr>"

definition filter_contains :: "bytes \<Rightarrow> GossipFilter \<Rightarrow> bool" where
  "filter_contains sig f \<longleftrightarrow> sig \<in> filter_set f"

definition filter_insert :: "bytes \<Rightarrow> GossipFilter \<Rightarrow> GossipFilter" where
  "filter_insert sig f =
     (if sig \<in> filter_set f then f
      else let f = (if length (queue f) \<ge> capacity f
                    then (case queue f of
                            [] \<Rightarrow> f
                          | old # rest \<Rightarrow> f\<lparr>queue := rest, filter_set := filter_set f - {old}\<rparr>)
                    else f)
           in f\<lparr>queue := queue f @ [sig], filter_set := insert sig (filter_set f)\<rparr>)"

definition network_new :: "u16 \<Rightarrow> Identity \<Rightarrow> bool \<Rightarrow> bool \<Rightarrow> u64 \<Rightarrow> u64 \<Rightarrow> ('h, 't) GossipNetwork" where
  "network_new p i log needed limit burst =
     \<lparr>net_port = p, gossip_filter = filter_new GOSSIP_LRU_SIZE, net_log = log, net_identity = i,
      peer_health = Map.empty, security = [], rate_limits = Map.empty, rate_limit = limit,
      rate_burst = burst, noise_needed = needed\<rparr>"

definition check_rate_limit ::
  "nat \<Rightarrow> string \<Rightarrow> ('h, 't) GossipNetwork \<Rightarrow> bool \<times> ('h, 't) GossipNetwork" where
  "check_rate_limit now ip n =
     (let bucket = (case rate_limits n ip of
            Some b \<Rightarrow> b | None \<Rightarrow> \<lparr>tokens = rate_burst n, last_refill = now\<rparr>);
          elapsed_ms = (word_of_nat ((now - last_refill bucket) div 10 ^ 6) :: u64);
          refill = elapsed_ms * rate_limit n div 1000;
          bucket = (if refill > 0
                    then \<lparr>tokens = min (tokens bucket + refill) (rate_burst n), last_refill = now\<rparr>
                    else bucket)
      in if tokens bucket > 0
         then (True, n\<lparr>rate_limits := (rate_limits n)(ip \<mapsto> bucket\<lparr>tokens := tokens bucket - 1\<rparr>)\<rparr>)
         else (False, n\<lparr>rate_limits := (rate_limits n)(ip \<mapsto> bucket)\<rparr>))"

definition ip_text :: "SocketAddr \<Rightarrow> string" where
  "ip_text a =
     (case addr_ip a of (p, q, r, s) \<Rightarrow>
        decimal (unat p) @ ''.'' @ decimal (unat q) @ ''.'' @ decimal (unat r) @ ''.'' @ decimal (unat s))"

definition count_failure :: "string \<Rightarrow> ('h, 't) GossipNetwork \<Rightarrow> ('h, 't) GossipNetwork" where
  "count_failure ip n =
     n\<lparr>peer_health := (peer_health n)(ip \<mapsto> (case peer_health n ip of None \<Rightarrow> 0 | Some c \<Rightarrow> c) + 1)\<rparr>"

definition net_drop :: "string \<Rightarrow> string \<Rightarrow> ('h, 't) GossipNetwork \<Rightarrow> SystemEvent list" where
  "net_drop ip why n = (if net_log n then [SecurityDrop ip why] else [])"

text \<open>The libraries, and the readings of the clock in an iteration: of the bucket and of the sessions.\<close>

record ('h, 't) net_env =
  net_wire :: wire
  net_noise :: "('h, 't) noise"
  bucket_now :: nat
  session_now :: nat
  session_used :: nat

text \<open>The checks on the bytes that the session layer hands on.\<close>

definition check_packet ::
  "wire \<Rightarrow> string \<Rightarrow> bytes \<Rightarrow> ('h, 't) GossipNetwork
    \<Rightarrow> AimpEnvelope option \<times> SystemEvent list \<times> ('h, 't) GossipNetwork" where
  "check_packet W ip plain n =
     (case from_bytes W plain of
        Inl _ \<Rightarrow> (None, [], count_failure ip n)
      | Inr e \<Rightarrow>
          if data_ttl (env_data e) = 0
          then (None, net_drop ip ''TTL exhausted on arrival'' n, count_failure ip n)
          else if filter_contains (env_signature e) (gossip_filter n) then (None, [], n)
          else if \<not> verify W e
          then (None, net_drop ip ''Circuit Breaker: Invalid Sig'' n, count_failure ip n)
          else (Some e, [], n\<lparr>gossip_filter := filter_insert (env_signature e) (gossip_filter n)\<rparr>))"

text \<open>One iteration of \<open>listen\<close> for a datagram: the envelope handed to the node, if any.\<close>

definition receive ::
  "('h, 't) net_env \<Rightarrow> SocketAddr \<Rightarrow> bytes \<Rightarrow> ('h, 't) GossipNetwork
    \<Rightarrow> AimpEnvelope option \<times> SystemEvent list \<times> ('h, 't) GossipNetwork" where
  "receive env addr raw n =
     (let ip = ip_text addr; (ok, n) = check_rate_limit (bucket_now env) ip n
      in if \<not> ok then (None, net_drop ip ''Rate limit exceeded'' n, n)
         else if (case peer_health n ip of Some c \<Rightarrow> c \<ge> PEER_FAILURE_THRESHOLD | None \<Rightarrow> False)
         then (None, [], n)
         else let (plain, ss) = unwrap (net_noise env) (net_identity n) (session_now env) (session_used env)
                    addr raw (security n);
                  n = n\<lparr>security := ss\<rparr>
              in case plain of
                   Some b \<Rightarrow> check_packet (net_wire env) ip b n
                 | None \<Rightarrow> if noise_needed n then (None, [], n) else check_packet (net_wire env) ip raw n)"

text \<open>
  \<open>broadcast\<close> up to the socket: its result, the datagram handed to the socket and the state. \<open>io\<close> is
  the error of the socket, if any.
\<close>

definition broadcast_addr :: "u16 \<Rightarrow> SocketAddr" where
  "broadcast_addr p = \<lparr>addr_ip = (255, 255, 255, 255), addr_port = p\<rparr>"

definition signed_bytes :: "wire \<Rightarrow> Identity \<Rightarrow> AimpData \<Rightarrow> (AimpEnvelope \<times> bytes) AimpResult" where
  "signed_bytes W i d =
     (case sign W i (d\<lparr>data_ttl := data_ttl d - 1\<rparr>) of
        Inl e \<Rightarrow> Inl (Crypto e)
      | Inr e \<Rightarrow> (case to_bytes W e of Inl m \<Rightarrow> Inl (Protocol m) | Inr bs \<Rightarrow> Inr (e, bs)))"

definition broadcast ::
  "('h, 't) net_env \<Rightarrow> string option \<Rightarrow> AimpData \<Rightarrow> ('h, 't) GossipNetwork
    \<Rightarrow> unit AimpResult \<times> bytes option \<times> ('h, 't) GossipNetwork" where
  "broadcast env io d n =
     (if data_ttl d = 0 then (Inr (), None, n)
      else case signed_bytes (net_wire env) (net_identity n) d of
        Inl e \<Rightarrow> (Inl e, None, n)
      | Inr (e, bs) \<Rightarrow>
          let n = n\<lparr>gossip_filter := filter_insert (env_signature e) (gossip_filter n)\<rparr>;
              ((out, _), ss) = wrap (net_noise env) (net_identity n) (session_now env) (session_used env)
                (broadcast_addr (net_port n)) bs (security n);
              n = n\<lparr>security := ss\<rparr>
          in if out = [] then (Inr (), None, n)
             else ((case io of None \<Rightarrow> Inr () | Some m \<Rightarrow> Inl (Network m)), Some out, n))"

section \<open>The duplicate filter\<close>

text \<open>The last \<open>c\<close> elements.\<close>

definition window :: "nat \<Rightarrow> 'a list \<Rightarrow> 'a list" where
  "window c xs = drop (length xs - c) xs"

lemma window_append: "0 < c \<Longrightarrow> window c (xs @ [x]) = (if length xs \<ge> c then tl (window c xs) else window c xs) @ [x]"
proof -
  assume c: "0 < c"
  then have "length xs \<ge> c \<Longrightarrow> Suc (length xs) - c = Suc (length xs - c)" by simp
  then show ?thesis using c by (auto simp: window_def tl_drop drop_Suc)
qed

lemma length_window: "length (window c xs) = min (length xs) c"
  by (simp add: window_def)

text \<open>
  The contract of a filter of recent items, as the network uses it: an item that is held changes
  nothing, a new one is put last, and the first one leaves when there is no room. Such a filter holds
  the window of the items that were new when they were put.
\<close>

locale recent_filter =
  fixes items :: "'s \<Rightarrow> 'a list" and holds :: "'a \<Rightarrow> 's \<Rightarrow> bool" and put :: "'a \<Rightarrow> 's \<Rightarrow> 's"
    and room :: "'s \<Rightarrow> nat" and ok :: "'s \<Rightarrow> bool"
  assumes ok_put: "ok s \<Longrightarrow> ok (put x s)"
    and room_pos: "ok s \<Longrightarrow> 0 < room s"
    and room_put: "room (put x s) = room s"
    and holds_iff: "ok s \<Longrightarrow> holds x s \<longleftrightarrow> x \<in> set (items s)"
    and put_old: "holds x s \<Longrightarrow> put x s = s"
    and put_new: "ok s \<Longrightarrow> \<not> holds x s \<Longrightarrow>
      items (put x s) = (if length (items s) \<ge> room s then tl (items s) else items s) @ [x]"
begin

definition recent :: "'a list \<Rightarrow> 's \<Rightarrow> bool" where
  "recent tr s \<longleftrightarrow> ok s \<and> items s = window (room s) tr"

definition news :: "'a \<Rightarrow> 's \<Rightarrow> 'a list" where
  "news x s = (if holds x s then [] else [x])"

lemma recent_put:
  assumes "recent tr s"
  shows "recent (tr @ news x s) (put x s)"
proof (cases "holds x s")
  case True
  then show ?thesis using assms by (simp add: news_def put_old)
next
  case False
  have s: "ok s" "items s = window (room s) tr" using assms by (simp_all add: recent_def)
  then have "(length (items s) \<ge> room s) = (length tr \<ge> room s)" by (simp add: length_window)
  then have "items (put x s) = window (room s) (tr @ [x])"
    using put_new [OF s(1) False] s(2) by (simp add: window_append [OF room_pos [OF s(1)]])
  then show ?thesis using False s(1) by (simp add: recent_def news_def ok_put room_put)
qed

lemma holds_recent: "recent tr s \<Longrightarrow> holds x s \<longleftrightarrow> x \<in> set (window (room s) tr)"
  by (simp add: recent_def holds_iff)

end

definition filter_wf :: "GossipFilter \<Rightarrow> bool" where
  "filter_wf f \<longleftrightarrow> 0 < capacity f \<and> distinct (queue f) \<and> filter_set f = set (queue f)"

lemma filter_insert_new:
  assumes "filter_wf f" "sig \<notin> filter_set f"
  shows "queue (filter_insert sig f) = (if length (queue f) \<ge> capacity f then tl (queue f) else queue f) @ [sig]"
    and "filter_wf (filter_insert sig f)"
proof -
  have f: "0 < capacity f" "distinct (queue f)" "filter_set f = set (queue f)"
    using assms(1) by (simp_all add: filter_wf_def)
  have "queue (filter_insert sig f) = (if length (queue f) \<ge> capacity f then tl (queue f) else queue f) @ [sig]
      \<and> filter_wf (filter_insert sig f)"
  proof (cases "length (queue f) \<ge> capacity f")
    case True
    then obtain old rest where q: "queue f = old # rest"
      using f(1) by (metis le_zero_eq list.exhaust list.size(3) not_gr_zero)
    then have i: "filter_insert sig f = f\<lparr>queue := rest @ [sig], filter_set := insert sig (filter_set f - {old})\<rparr>"
      using True assms(2) by (simp add: filter_insert_def)
    show ?thesis using True f(1,2) assms(2) unfolding i filter_wf_def f(3) q by auto
  next
    case False
    then have i: "filter_insert sig f = f\<lparr>queue := queue f @ [sig], filter_set := insert sig (filter_set f)\<rparr>"
      using assms(2) by (simp add: filter_insert_def)
    show ?thesis using False f(1,2) assms(2) unfolding i filter_wf_def f(3) by simp
  qed
  then show "queue (filter_insert sig f) = (if length (queue f) \<ge> capacity f then tl (queue f) else queue f) @ [sig]"
    "filter_wf (filter_insert sig f)" by blast+
qed

interpretation dedup: recent_filter queue filter_contains filter_insert capacity filter_wf
proof
  fix f :: GossipFilter and sig
  show "filter_wf f \<Longrightarrow> filter_wf (filter_insert sig f)"
    using filter_insert_new(2) by (cases "sig \<in> filter_set f") (simp_all add: filter_insert_def)
  show "capacity (filter_insert sig f) = capacity f"
    by (auto simp: filter_insert_def Let_def split: list.split)
  show "filter_contains sig f \<Longrightarrow> filter_insert sig f = f"
    by (simp add: filter_contains_def filter_insert_def)
  show "filter_wf f \<Longrightarrow> \<not> filter_contains sig f \<Longrightarrow> queue (filter_insert sig f) =
      (if length (queue f) \<ge> capacity f then tl (queue f) else queue f) @ [sig]"
    by (simp add: filter_contains_def filter_insert_new(1))
qed (simp_all add: filter_wf_def filter_contains_def)

section \<open>What an operation changes\<close>

text \<open>What no operation changes.\<close>

definition same_settings :: "('h, 't) GossipNetwork \<Rightarrow> ('h, 't) GossipNetwork \<Rightarrow> bool" where
  "same_settings n m \<longleftrightarrow> net_port m = net_port n \<and> net_identity m = net_identity n \<and> rate_limit m = rate_limit n
     \<and> rate_burst m = rate_burst n \<and> noise_needed m = noise_needed n \<and> net_log m = net_log n"

lemma same_settings_trans: "same_settings n m \<Longrightarrow> same_settings m l \<Longrightarrow> same_settings n l"
  by (simp add: same_settings_def)

lemma check_rate_limit_fields:
  assumes "check_rate_limit now ip n = (ok, n')"
  shows "same_settings n n'" "gossip_filter n' = gossip_filter n" "peer_health n' = peer_health n" "security n' = security n"
  using assms by (auto simp: check_rate_limit_def same_settings_def Let_def split: if_splits)

lemma check_packet_cases:
  assumes "check_packet W ip plain n = (e, evs, n')"
  obtains (delivered) x where "e = Some x" "from_bytes W plain = Inr x" "data_ttl (env_data x) \<noteq> 0"
      "\<not> filter_contains (env_signature x) (gossip_filter n)" "verify W x"
      "n' = n\<lparr>gossip_filter := filter_insert (env_signature x) (gossip_filter n)\<rparr>" "evs = []"
  | (duplicate) "e = None" "n' = n" "evs = []"
  | (failed) "e = None" "n' = count_failure ip n"
proof (cases "from_bytes W plain")
  case (Inl m)
  then show ?thesis using assms by (intro failed) (simp_all add: check_packet_def)
next
  case (Inr x)
  note r = assms [unfolded check_packet_def Inr sum.case]
  consider "data_ttl (env_data x) = 0"
    | "data_ttl (env_data x) \<noteq> 0" "filter_contains (env_signature x) (gossip_filter n)"
    | "data_ttl (env_data x) \<noteq> 0" "\<not> filter_contains (env_signature x) (gossip_filter n)" "\<not> verify W x"
    | "data_ttl (env_data x) \<noteq> 0" "\<not> filter_contains (env_signature x) (gossip_filter n)" "verify W x" by blast
  then show ?thesis
  proof cases
    case 1
    then show ?thesis using r by (intro failed) simp_all
  next
    case 2
    then show ?thesis using r by (intro duplicate) simp_all
  next
    case 3
    then show ?thesis using r by (intro failed) simp_all
  next
    case 4
    then show ?thesis using r Inr by (intro delivered [of x]) simp_all
  qed
qed

lemma check_packet_fields:
  assumes "check_packet W ip plain n = (e, evs, n')"
  shows "same_settings n n'" "security n' = security n" "rate_limits n' = rate_limits n"
  using assms by (cases rule: check_packet_cases; simp add: same_settings_def count_failure_def)+

text \<open>The ways an iteration of the listener can go.\<close>

lemma receive_cases:
  assumes "receive env addr raw n = (e, evs, n')"
  obtains (limited) m where "check_rate_limit (bucket_now env) (ip_text addr) n = (False, m)" "e = None" "n' = m"
  | (broken) m c where "check_rate_limit (bucket_now env) (ip_text addr) n = (True, m)" "e = None" "evs = []" "n' = m"
      "peer_health n (ip_text addr) = Some c" "5 \<le> c"
  | (secret) m ss where "check_rate_limit (bucket_now env) (ip_text addr) n = (True, m)" "e = None" "evs = []"
      "unwrap (net_noise env) (net_identity n) (session_now env) (session_used env) addr raw (security n) = (None, ss)"
      "noise_needed n" "n' = m\<lparr>security := ss\<rparr>"
  | (checked) m b ss plain where "check_rate_limit (bucket_now env) (ip_text addr) n = (True, m)"
      "\<forall>c. peer_health n (ip_text addr) = Some c \<longrightarrow> c < 5"
      "unwrap (net_noise env) (net_identity n) (session_now env) (session_used env) addr raw (security n) = (b, ss)"
      "b = None \<Longrightarrow> \<not> noise_needed n" "plain = (case b of None \<Rightarrow> raw | Some p \<Rightarrow> p)"
      "check_packet (net_wire env) (ip_text addr) plain (m\<lparr>security := ss\<rparr>) = (e, evs, n')"
proof -
  obtain ok m where m: "check_rate_limit (bucket_now env) (ip_text addr) n = (ok, m)" by fastforce
  note f = check_rate_limit_fields [OF m]
  obtain b ss where u: "unwrap (net_noise env) (net_identity n) (session_now env) (session_used env) addr raw (security n) = (b, ss)"
    by fastforce
  have id: "net_identity m = net_identity n" "noise_needed m = noise_needed n" using f(1) by (simp_all add: same_settings_def)
  let ?broken = "case peer_health n (ip_text addr) of Some c \<Rightarrow> c \<ge> PEER_FAILURE_THRESHOLD | None \<Rightarrow> False"
  let ?plain = "case b of None \<Rightarrow> raw | Some p \<Rightarrow> p"
  have r: "receive env addr raw n =
      (if \<not> ok then (None, net_drop (ip_text addr) ''Rate limit exceeded'' m, m)
       else if ?broken then (None, [], m)
       else if b = None \<and> noise_needed n then (None, [], m\<lparr>security := ss\<rparr>)
       else check_packet (net_wire env) (ip_text addr) ?plain (m\<lparr>security := ss\<rparr>))"
    using u by (simp add: receive_def Let_def m f(3,4) id split: option.split)
  show ?thesis
  proof (cases ok)
    case False
    then have "e = None" "n' = m" using assms r by simp_all
    then show ?thesis using m False by (intro limited [of m]) simp_all
  next
    case ok: True
    have m: "check_rate_limit (bucket_now env) (ip_text addr) n = (True, m)" using m ok by simp
    show ?thesis
    proof (cases ?broken)
      case True
      then obtain c where "peer_health n (ip_text addr) = Some c" "5 \<le> c"
        by (auto simp: PEER_FAILURE_THRESHOLD_def split: option.splits)
      moreover have "e = None" "evs = []" "n' = m" using assms r ok True by simp_all
      ultimately show ?thesis using m by (intro broken [of m c])
    next
      case False
      then have lt: "\<forall>c. peer_health n (ip_text addr) = Some c \<longrightarrow> c < 5"
        by (auto simp: PEER_FAILURE_THRESHOLD_def not_le)
      show ?thesis
      proof (cases "b = None \<and> noise_needed n")
        case True
        then have "e = None" "evs = []" "n' = m\<lparr>security := ss\<rparr>" using assms r ok False by simp_all
        moreover have "noise_needed n" "b = None" using True by simp_all
        ultimately show ?thesis using m u by (intro secret [of m ss]) simp_all
      next
        case plain: False
        then have "check_packet (net_wire env) (ip_text addr) ?plain (m\<lparr>security := ss\<rparr>) = (e, evs, n')"
          using assms unfolding r if_not_P [OF plain] using ok False by simp
        then show ?thesis by (rule checked [OF m lt u _ refl, rotated]) (use plain in simp)
      qed
    qed
  qed
qed

lemma receive_fields:
  assumes "receive env addr raw n = (e, evs, n')"
  shows "same_settings n n'"
    and "security n' = security n \<or> security n' =
      snd (unwrap (net_noise env) (net_identity n) (session_now env) (session_used env) addr raw (security n))"
    and "(e = None \<longrightarrow> gossip_filter n' = gossip_filter n) \<and> (\<forall>x. e = Some x \<longrightarrow>
      \<not> filter_contains (env_signature x) (gossip_filter n)
      \<and> gossip_filter n' = filter_insert (env_signature x) (gossip_filter n))"
    and "peer_health n' = peer_health n \<or> e = None \<and> peer_health n' = peer_health (count_failure (ip_text addr) n)
      \<and> (\<forall>c. peer_health n (ip_text addr) = Some c \<longrightarrow> c < 5)"
proof -
  have "same_settings n n' \<and> (security n' = security n \<or> security n' =
      snd (unwrap (net_noise env) (net_identity n) (session_now env) (session_used env) addr raw (security n)))
    \<and> ((e = None \<longrightarrow> gossip_filter n' = gossip_filter n) \<and> (\<forall>x. e = Some x \<longrightarrow>
      \<not> filter_contains (env_signature x) (gossip_filter n)
      \<and> gossip_filter n' = filter_insert (env_signature x) (gossip_filter n)))
    \<and> (peer_health n' = peer_health n \<or> e = None \<and> peer_health n' = peer_health (count_failure (ip_text addr) n)
      \<and> (\<forall>c. peer_health n (ip_text addr) = Some c \<longrightarrow> c < 5))"
    using assms
  proof (cases rule: receive_cases)
    case (checked m b ss plain)
    note f = check_rate_limit_fields [OF checked(1)]
    have "same_settings n (m\<lparr>security := ss\<rparr>)" using f(1) by (simp add: same_settings_def)
    then have s: "same_settings n n'" using check_packet_fields(1) [OF checked(6)] same_settings_trans by blast
    show ?thesis
      using checked(6)
    proof (cases rule: check_packet_cases)
      case failed
      then show ?thesis using s f checked(2,3) by (simp add: count_failure_def)
    qed (use s f checked(3) in simp_all)
  qed (auto dest: check_rate_limit_fields simp: same_settings_def)
  then show "same_settings n n'" "security n' = security n \<or> security n' =
      snd (unwrap (net_noise env) (net_identity n) (session_now env) (session_used env) addr raw (security n))"
    "(e = None \<longrightarrow> gossip_filter n' = gossip_filter n) \<and> (\<forall>x. e = Some x \<longrightarrow>
      \<not> filter_contains (env_signature x) (gossip_filter n)
      \<and> gossip_filter n' = filter_insert (env_signature x) (gossip_filter n))"
    "peer_health n' = peer_health n \<or> e = None \<and> peer_health n' = peer_health (count_failure (ip_text addr) n)
      \<and> (\<forall>c. peer_health n (ip_text addr) = Some c \<longrightarrow> c < 5)"
    by blast+
qed

section \<open>Runs\<close>

text \<open>
  A run of the network with the signatures that it accepted as new, in order: datagrams from other
  addresses than the broadcast address, and broadcasts.
\<close>

definition accepted :: "AimpEnvelope option \<Rightarrow> bytes list" where
  "accepted e = (case e of None \<Rightarrow> [] | Some x \<Rightarrow> [env_signature x])"

definition announced :: "('h, 't) net_env \<Rightarrow> AimpData \<Rightarrow> ('h, 't) GossipNetwork \<Rightarrow> bytes list" where
  "announced env d n =
     (if data_ttl d = 0 then []
      else case signed_bytes (net_wire env) (net_identity n) d of
        Inl _ \<Rightarrow> [] | Inr (e, _) \<Rightarrow> dedup.news (env_signature e) (gossip_filter n))"

inductive gossip_run ::
  "wire \<Rightarrow> ('h, 't) noise \<Rightarrow> ('h, 't) GossipNetwork \<Rightarrow> bytes list \<Rightarrow> ('h, 't) GossipNetwork \<Rightarrow> bool" for W N n0 where
  start: "gossip_run W N n0 [] n0"
| received: "gossip_run W N n0 tr n \<Longrightarrow> net_wire env = W \<Longrightarrow> net_noise env = N
    \<Longrightarrow> addr \<noteq> broadcast_addr (net_port n) \<Longrightarrow> receive env addr raw n = (e, evs, n')
    \<Longrightarrow> gossip_run W N n0 (tr @ accepted e) n'"
| sent: "gossip_run W N n0 tr n \<Longrightarrow> net_wire env = W \<Longrightarrow> net_noise env = N
    \<Longrightarrow> broadcast env io d n = (r, out, n') \<Longrightarrow> gossip_run W N n0 (tr @ announced env d n) n'"

lemma broadcast_cases:
  assumes "broadcast env io d n = (r, out, n')"
  obtains (silent) "n' = n" "announced env d n = []"
  | (sent) e :: AimpEnvelope and bs where "announced env d n = dedup.news (env_signature e) (gossip_filter n)"
      "n' = n\<lparr>gossip_filter := filter_insert (env_signature e) (gossip_filter n),
         security := snd (wrap (net_noise env) (net_identity n) (session_now env) (session_used env)
           (broadcast_addr (net_port n)) bs (security n))\<rparr>"
      "out = None \<or> out = Some (fst (fst (wrap (net_noise env) (net_identity n) (session_now env) (session_used env)
           (broadcast_addr (net_port n)) bs (security n))))"
proof (cases "data_ttl d = 0 \<or> (\<exists>m. signed_bytes (net_wire env) (net_identity n) d = Inl m)")
  case True
  then show ?thesis using assms by (intro silent) (auto simp: broadcast_def announced_def split: if_splits)
next
  case False
  then obtain e bs where e: "signed_bytes (net_wire env) (net_identity n) d = Inr (e, bs)"
    by (cases "signed_bytes (net_wire env) (net_identity n) d") auto
  have "announced env d n = dedup.news (env_signature e) (gossip_filter n)" using False e by (simp add: announced_def)
  then show ?thesis
    by (rule sent [of e bs]) (use assms False e in \<open>auto simp: broadcast_def Let_def case_prod_beta split: if_splits\<close>)
qed

lemma broadcast_fields:
  assumes "broadcast env io d n = (r, out, n')"
  shows "same_settings n n'" "peer_health n' = peer_health n"
    and "dedup.recent tr (gossip_filter n) \<Longrightarrow> dedup.recent (tr @ announced env d n) (gossip_filter n')"
    and "dedup.recent tr (gossip_filter n) \<Longrightarrow> capacity (gossip_filter n') = capacity (gossip_filter n)"
    and "security n' = security n \<or> (\<exists>bs. security n' = snd (wrap (net_noise env) (net_identity n) (session_now env)
      (session_used env) (broadcast_addr (net_port n)) bs (security n)))"
proof -
  show "same_settings n n'" "peer_health n' = peer_health n"
    "security n' = security n \<or> (\<exists>bs. security n' = snd (wrap (net_noise env) (net_identity n) (session_now env)
      (session_used env) (broadcast_addr (net_port n)) bs (security n)))"
    using assms by (cases rule: broadcast_cases; force simp: same_settings_def)+
  assume f: "dedup.recent tr (gossip_filter n)"
  show "dedup.recent (tr @ announced env d n) (gossip_filter n')"
    using assms f by (cases rule: broadcast_cases) (simp_all add: dedup.recent_put)
  show "capacity (gossip_filter n') = capacity (gossip_filter n)"
    using assms by (cases rule: broadcast_cases) (simp_all add: dedup.room_put)
qed

text \<open>The invariant of the runs.\<close>

definition net_ok :: "('h, 't) noise \<Rightarrow> bytes list \<Rightarrow> ('h, 't) GossipNetwork \<Rightarrow> bool" where
  "net_ok N tr n \<longleftrightarrow> dedup.recent tr (gossip_filter n) \<and> capacity (gossip_filter n) = 1000
     \<and> session_run N (net_identity n) (broadcast_addr (net_port n)) (security n)
     \<and> (\<forall>ip c. peer_health n ip = Some c \<longrightarrow> c \<le> 5)"

lemma count_failure_bound:
  assumes "\<forall>c. peer_health n ip = Some c \<longrightarrow> c < 5" "peer_health (count_failure ip n) ip = Some c"
  shows "c \<le> 5"
  using assms by (auto simp: count_failure_def split: option.splits intro: inc_le)

lemma gossip_run_ok:
  assumes "gossip_run W N n0 tr n" "net_ok N [] n0"
  shows "net_ok N tr n \<and> same_settings n0 n"
  using assms
proof (induction rule: gossip_run.induct)
  case start
  then show ?case by (simp add: same_settings_def)
next
  case (received tr n env addr raw e evs n')
  then have ok: "net_ok N tr n" "same_settings n0 n" by blast+
  note f = receive_fields [OF received.hyps(5)]
  have s: "net_identity n' = net_identity n" "net_port n' = net_port n" using f(1) by (simp_all add: same_settings_def)
  have "dedup.recent (tr @ accepted e) (gossip_filter n') \<and> capacity (gossip_filter n') = 1000"
    using f(3) ok(1) dedup.recent_put [of tr "gossip_filter n"]
    unfolding net_ok_def accepted_def by (cases e) (simp, metis dedup.news_def dedup.room_put option.simps(5))
  moreover have "session_run N (net_identity n) (broadcast_addr (net_port n)) (security n')"
    using f(2) ok(1) session_run.incoming received.hyps(3,4) unfolding net_ok_def by metis
  moreover have "\<forall>ip c. peer_health n' ip = Some c \<longrightarrow> c \<le> 5"
  proof (intro allI impI)
    fix ip c assume c: "peer_health n' ip = Some c"
    show "c \<le> 5"
    proof (cases "peer_health n' = peer_health n")
      case True
      then show ?thesis using c ok(1) by (simp add: net_ok_def)
    next
      case False
      then have h: "peer_health n' = peer_health (count_failure (ip_text addr) n)"
        "\<forall>c. peer_health n (ip_text addr) = Some c \<longrightarrow> c < 5" using f(4) by blast+
      show ?thesis
      proof (cases "ip = ip_text addr")
        case True
        then show ?thesis using count_failure_bound [OF h(2)] c h(1) by simp
      next
        case False
        then show ?thesis using c h(1) ok(1) by (simp add: count_failure_def net_ok_def)
      qed
    qed
  qed
  ultimately show ?case using f(1) ok(2) s same_settings_trans by (metis net_ok_def)
next
  case (sent tr n env io d r out n')
  then have ok: "net_ok N tr n" "same_settings n0 n" by blast+
  note f = broadcast_fields [OF sent.hyps(4)]
  have s: "net_identity n' = net_identity n" "net_port n' = net_port n" using f(1) by (simp_all add: same_settings_def)
  have "session_run N (net_identity n) (broadcast_addr (net_port n)) (security n')"
    using f(5) ok(1) session_run.outgoing sent.hyps(3) unfolding net_ok_def by metis
  then show ?case using f(1-4) ok s same_settings_trans unfolding net_ok_def by metis
qed

lemma net_ok_new: "net_ok N [] (network_new p i log needed limit burst)"
  by (auto simp: net_ok_def network_new_def filter_new_def dedup.recent_def filter_wf_def GOSSIP_LRU_SIZE_def window_def
      intro: session_run.start)

section \<open>What a run guarantees\<close>

text \<open>
  C14: The duplicate filter is the window of the last 1000 signatures that were accepted as new:
  however the network is driven, it contains exactly those, and what the listener delivers is none
  of them.
\<close>

theorem filter_is_window:
  assumes "gossip_run W N (network_new p i log needed limit burst) tr n"
  shows "(\<forall>sig. filter_contains sig (gossip_filter n) \<longleftrightarrow> sig \<in> set (window 1000 tr))
    \<and> (\<forall>env addr raw e evs n'. receive env addr raw n = (Some e, evs, n') \<longrightarrow> env_signature e \<notin> set (window 1000 tr))"
proof -
  have "net_ok N tr n" using gossip_run_ok [OF assms net_ok_new] by blast
  then have "filter_contains sig (gossip_filter n) \<longleftrightarrow> sig \<in> set (window 1000 tr)" for sig
    using dedup.holds_recent unfolding net_ok_def by fastforce
  then show ?thesis using receive_fields(3) by blast
qed

text \<open>
  The circuit breaker never closes again: an address has at most five failures, and after the
  fifth nothing that arrives from it is ever delivered, however the network is driven.
\<close>

theorem breaker_is_final:
  assumes "gossip_run W N (network_new p i log needed limit burst) tr n"
    and "peer_health n ip = Some 5" "gossip_run W N n tr' m" "ip_text addr = ip"
  shows "peer_health m ip = Some 5 \<and> fst (receive env addr raw m) = None
    \<and> (\<forall>ip' c. peer_health m ip' = Some c \<longrightarrow> c \<le> 5)"
proof -
  have n: "net_ok N tr n" using gossip_run_ok [OF assms(1) net_ok_new] by blast
  have "peer_health m ip = Some 5 \<and> (\<forall>ip' c. peer_health m ip' = Some c \<longrightarrow> c \<le> 5)"
    using assms(3)
  proof (induction rule: gossip_run.induct)
    case start
    then show ?case using assms(2) n by (simp add: net_ok_def)
  next
    case (received tr n env addr raw e evs n')
    then show ?case
      using receive_fields(4) [OF received.hyps(5)] count_failure_bound [of n "ip_text addr"]
      by (cases "ip = ip_text addr") (auto simp: count_failure_def split: if_splits)
  next
    case (sent tr n env io d r out n')
    then show ?case using broadcast_fields(2) [OF sent.hyps(4)] by simp
  qed
  moreover obtain e evs m' where r: "receive env addr raw m = (e, evs, m')" by (metis surj_pair)
  ultimately have "e = None" by (cases rule: receive_cases [OF r]) (use assms(4) in auto)
  then show ?thesis using r \<open>peer_health m ip = Some 5 \<and> _\<close> by simp
qed

text \<open>
  C22: With noise required, which is the default, the network delivers nothing that was encrypted:
  what the listener hands on was the clear payload of a handshake message, and when the peers send
  their handshake messages without a payload, as this node does, nothing is ever delivered and every
  handshake message that is read counts as a failure of its sender (a datagram that reaches the
  sessions is unreadable or counts).
\<close>

theorem noise_required_isolates:
  assumes "gossip_run W N (network_new p i log True limit burst) tr n" "responder_must_write N i"
    and "net_wire env = W" "net_noise env = N" "addr \<noteq> broadcast_addr p" "receive env addr raw n = (e, evs, n')"
  shows "(\<forall>x. e = Some x \<longrightarrow> (\<exists>h b. reads_only N i h \<and> fst (hs_read N h raw 1024) = Some b \<and> from_bytes W b = Inr x))
    \<and> ((\<forall>h. reads_only N i h \<longrightarrow> fst (hs_read N h raw 1024) \<in> {None, Some []}) \<longrightarrow>
        e = None \<and> (security n' \<noteq> security n \<longrightarrow> (\<exists>h. reads_only N i h \<and> fst (hs_read N h raw 1024) = None)
          \<or> peer_health n' = peer_health (count_failure (ip_text addr) n)))"
proof -
  have ok: "net_ok N tr n" "same_settings (network_new p i log True limit burst) n"
    using gossip_run_ok [OF assms(1) net_ok_new] by blast+
  then have set: "net_identity n = i" "net_port n = p" "noise_needed n"
    by (simp_all add: same_settings_def network_new_def)
  have "session_run N i (broadcast_addr p) (security n)" using ok(1) set by (simp add: net_ok_def)
  then obtain h where h: "reads_only N i h"
    and u: "fst (unwrap N i (session_now env) (session_used env) addr raw (security n)) = fst (hs_read N h raw 1024)"
    by (rule unwrap_reads [OF _ assms(2,5)])
  show ?thesis
    using assms(6)
  proof (cases rule: receive_cases)
    case (limited m)
    then show ?thesis using check_rate_limit_fields(4) [OF limited(1)] by simp
  next
    case (broken m c)
    then show ?thesis using check_rate_limit_fields(4) [OF broken(1)] by simp
  next
    case (secret m ss)
    then have "fst (hs_read N h raw 1024) = None" using u assms(4) set by simp
    then show ?thesis using secret(2) h by blast
  next
    case (checked m b ss plain)
    then have b: "b = fst (hs_read N h raw 1024)" using u assms(4) set by simp
    moreover have "b \<noteq> None" using checked(4) set(3) by blast
    ultimately obtain q where q: "fst (hs_read N h raw 1024) = Some q" "b = Some q" by auto
    then have p: "plain = q" using checked(5) by simp
    note c = checked(6) [unfolded p assms(3)]
    have "\<forall>x. e = Some x \<longrightarrow> from_bytes W q = Inr x" using c by (cases rule: check_packet_cases) auto
    moreover have "e = None \<and> peer_health n' = peer_health (count_failure (ip_text addr) n)" if "q = []"
      using c that check_rate_limit_fields(3) [OF checked(1)]
      by (auto simp: check_packet_def from_bytes_def count_failure_def)
    ultimately show ?thesis using h q(1) by auto
  qed
qed

section \<open>The token bucket\<close>

text \<open>The bucket after a call, on numbers: the tokens before and after the refill.\<close>

definition refilled :: "nat \<Rightarrow> nat \<Rightarrow> nat \<Rightarrow> nat \<Rightarrow> nat" where
  "refilled rate burst e k = (if e * rate div 1000 > 0 then min (k + e * rate div 1000) burst else k)"

lemma unat_min: "unat (min a b) = min (unat a) (unat b)"
  by (simp add: min_def word_le_nat_alt)

lemma check_rate_limit_nat:
  fixes n :: "('h, 't) GossipNetwork"
  assumes "check_rate_limit now ip n = (ok, n')"
    and "b = (case rate_limits n ip of Some b \<Rightarrow> b | None \<Rightarrow> \<lparr>tokens = rate_burst n, last_refill = now\<rparr>)"
    and "e = (now - last_refill b) div 10 ^ 6"
    and "e * unat (rate_limit n) + unat (rate_burst n) < 2 ^ 64" "unat (tokens b) \<le> unat (rate_burst n)"
    and "k = refilled (unat (rate_limit n)) (unat (rate_burst n)) e (unat (tokens b))"
  obtains b' where "ok \<longleftrightarrow> 0 < k" "rate_limits n' ip = Some b'" "unat (tokens b') = k - 1"
    "last_refill b' = (if 0 < e * unat (rate_limit n) div 1000 then now else last_refill b)"
proof -
  let ?R = "rate_limit n" let ?B = "rate_burst n"
  let ?refill = "(word_of_nat e :: u64) * ?R div 1000"
  have "unat ((word_of_nat e :: u64) * ?R) = e * unat ?R"
    using assms(4) by (simp add: unat_word_ariths unat_of_nat mod_mult_left_eq)
  then have refill: "unat ?refill = e * unat ?R div 1000"
    by (simp add: unat_div_distrib)
  have "e * unat ?R div 1000 \<le> e * unat ?R" by simp
  then have "unat (tokens b) + unat ?refill < 2 ^ 64" using assms(4,5) unfolding refill by linarith
  then have "unat (tokens b + ?refill) = unat (tokens b) + unat ?refill"
    by (simp only: unat_word_ariths(1)) simp
  then have min: "unat (min (tokens b + ?refill) ?B) = min (unat (tokens b) + e * unat ?R div 1000) (unat ?B)"
    by (simp add: unat_min refill)
  have pos: "0 < ?refill \<longleftrightarrow> 0 < e * unat ?R div 1000" by (simp add: word_less_nat_alt refill)
  define c where "c = (if ?refill > 0 then \<lparr>tokens = min (tokens b + ?refill) ?B, last_refill = now\<rparr> else b)"
  have c: "unat (tokens c) = k" "last_refill c = (if 0 < e * unat ?R div 1000 then now else last_refill b)"
    using min pos by (simp_all add: c_def assms(6) refilled_def)
  have r: "(ok, n') = (if tokens c > 0
       then (True, n\<lparr>rate_limits := (rate_limits n)(ip \<mapsto> c\<lparr>tokens := tokens c - 1\<rparr>)\<rparr>)
       else (False, n\<lparr>rate_limits := (rate_limits n)(ip \<mapsto> c)\<rparr>))"
    unfolding assms(1) [symmetric] check_rate_limit_def Let_def c_def assms(2,3) by simp
  have gt: "tokens c > 0 \<longleftrightarrow> 0 < k" using c(1) by (simp add: word_less_nat_alt)
  show ?thesis
  proof (cases "0 < k")
    case True
    then have "unat (tokens c - 1) = k - 1" using c(1) by (simp add: unat_sub_if')
    then show ?thesis using r gt True c(2) by (intro that [of "c\<lparr>tokens := tokens c - 1\<rparr>"]) simp_all
  next
    case False
    then show ?thesis using r gt c by (intro that [of c]) simp_all
  qed
qed

text \<open>The datagrams of one address that a sequence of calls lets through.\<close>

definition admit :: "string \<Rightarrow> nat \<times> ('h, 't) GossipNetwork \<Rightarrow> nat \<Rightarrow> nat \<times> ('h, 't) GossipNetwork" where
  "admit ip st now = (case check_rate_limit now ip (snd st) of (ok, n) \<Rightarrow> (if ok then Suc (fst st) else fst st, n))"

text \<open>
  After calls from \<open>t0\<close> to \<open>s\<close> of which \<open>k\<close> passed: the bucket, and the balance of what passed.
\<close>

definition balanced :: "string \<Rightarrow> nat \<Rightarrow> nat \<Rightarrow> nat \<Rightarrow> ('h, 't) GossipNetwork \<Rightarrow> bool" where
  "balanced ip t0 s k n \<longleftrightarrow> (\<exists>b. rate_limits n ip = Some b \<and> t0 \<le> last_refill b \<and> last_refill b \<le> s
     \<and> unat (tokens b) \<le> unat (rate_burst n)
     \<and> 1000 * (k + unat (tokens b)) \<le> 1000 * unat (rate_burst n) + unat (rate_limit n) * ((last_refill b - t0) div 10 ^ 6))"

lemma scaled_le:
  fixes m u v x y k :: nat
  shows "m \<le> u + x div 1000 \<Longrightarrow> 1000 * (k + m) \<le> 1000 * (k + u) + x"
    and "1000 * (m + u) \<le> 1000 * v + x \<Longrightarrow> x \<le> y \<Longrightarrow> m \<le> v + y div 1000"
proof -
  have "1000 * (x div 1000) \<le> x" by (rule times_div_less_eq_dividend)
  then show "m \<le> u + x div 1000 \<Longrightarrow> 1000 * (k + m) \<le> 1000 * (k + u) + x" by (simp add: algebra_simps)
  assume "1000 * (m + u) \<le> 1000 * v + x" "x \<le> y"
  then have "m * 1000 \<le> 1000 * v + y" by simp
  then have "m \<le> (1000 * v + y) div 1000" by (simp add: less_eq_div_iff_mult_less_eq)
  then show "m \<le> v + y div 1000" by simp
qed

lemma div_diff_add_le: "c \<le> b \<Longrightarrow> b \<le> a \<Longrightarrow> (a - b) div m + (b - c) div m \<le> (a - c) div (m :: nat)"
proof -
  assume "c \<le> b" "b \<le> a"
  then have "a - c = (a - b) + (b - c)" by simp
  then show ?thesis by (simp add: div_add1_eq [of "a - b" "b - c"])
qed

lemma admit_first:
  assumes "rate_limits n ip = None" "admit ip (0, n) t = (k, n')"
  shows "balanced ip t t k n' \<and> same_settings n n' \<and> (0 < rate_burst n \<longrightarrow> k = 1)"
proof -
  obtain ok where c: "check_rate_limit t ip n = (ok, n')" "k = (if ok then 1 else 0)"
    using assms(2) by (auto simp: admit_def split: prod.splits)
  have "unat (rate_burst n) < 2 ^ 64" using unsigned_less [of "rate_burst n"] by simp
  then obtain b where b: "ok \<longleftrightarrow> 0 < unat (rate_burst n)" "rate_limits n' ip = Some b"
    "unat (tokens b) = unat (rate_burst n) - 1" "last_refill b = t"
    using check_rate_limit_nat [OF c(1) refl refl _ _ refl] assms(1) by (auto simp: refilled_def)
  have s: "same_settings n n'" by (rule check_rate_limit_fields(1) [OF c(1)])
  then have "rate_burst n' = rate_burst n" by (simp add: same_settings_def)
  then show ?thesis using b c(2) s by (auto simp: balanced_def word_less_nat_alt)
qed

lemma admit_next:
  assumes "balanced ip t0 s k n" "s \<le> t" "admit ip (k, n) t = (k', n')"
    and "(t - t0) div 10 ^ 6 * unat (rate_limit n) + unat (rate_burst n) < 2 ^ 64"
  shows "balanced ip t0 t k' n'" "same_settings n n'"
    and "1000 \<le> (t - s) div 10 ^ 6 * unat (rate_limit n) \<Longrightarrow> 0 < rate_burst n \<Longrightarrow> k' = Suc k"
proof -
  let ?R = "unat (rate_limit n)" let ?B = "unat (rate_burst n)"
  obtain ok where c: "check_rate_limit t ip n = (ok, n')" "k' = (if ok then Suc k else k)"
    using assms(3) by (auto simp: admit_def split: prod.splits)
  obtain b where b: "rate_limits n ip = Some b" "t0 \<le> last_refill b" "last_refill b \<le> s" "unat (tokens b) \<le> ?B"
    "1000 * (k + unat (tokens b)) \<le> 1000 * ?B + ?R * ((last_refill b - t0) div 10 ^ 6)"
    using assms(1) unfolding balanced_def by blast
  let ?e = "(t - last_refill b) div 10 ^ 6" let ?k = "refilled ?R ?B ?e (unat (tokens b))"
  have le: "?e + (last_refill b - t0) div 10 ^ 6 \<le> (t - t0) div 10 ^ 6"
    by (rule div_diff_add_le) (use b(2,3) assms(2) in simp_all)
  then have "?e * ?R \<le> (t - t0) div 10 ^ 6 * ?R" by (simp add: mult_le_mono1)
  then have fit: "?e * ?R + ?B < 2 ^ 64" using assms(4) by linarith
  obtain b' where b': "ok \<longleftrightarrow> 0 < ?k" "rate_limits n' ip = Some b'" "unat (tokens b') = ?k - 1"
    "last_refill b' = (if 0 < ?e * ?R div 1000 then t else last_refill b)"
    by (rule check_rate_limit_nat [OF c(1), of b ?e ?k]) (use b(1,4) fit in simp_all)
  show s: "same_settings n n'" by (rule check_rate_limit_fields(1) [OF c(1)])
  then have eq: "rate_burst n' = rate_burst n" "rate_limit n' = rate_limit n" by (simp_all add: same_settings_def)
  have kb: "?k \<le> ?B" using b(4) by (simp add: refilled_def)
  have bal: "1000 * (k + ?k) \<le> 1000 * ?B + ?R * ((last_refill b' - t0) div 10 ^ 6)"
  proof (cases "0 < ?e * ?R div 1000")
    case True
    have "?k \<le> unat (tokens b) + ?e * ?R div 1000" using True by (simp add: refilled_def)
    then have "1000 * (k + ?k) \<le> 1000 * (k + unat (tokens b)) + ?e * ?R" by (rule scaled_le(1))
    also have "\<dots> \<le> 1000 * ?B + ?R * (?e + (last_refill b - t0) div 10 ^ 6)" using b(5) by (simp add: algebra_simps)
    also have "\<dots> \<le> 1000 * ?B + ?R * ((t - t0) div 10 ^ 6)" using le by (simp add: mult_le_mono2)
    finally show ?thesis using True b'(4) by simp
  qed (use b(5) b'(4) in \<open>simp add: refilled_def\<close>)
  have kk: "k' + (?k - 1) = k + ?k" using c(2) b'(1) by (cases ok) simp_all
  show "balanced ip t0 t k' n'"
    unfolding balanced_def eq
  proof (intro exI [of _ b'] conjI)
    show "t0 \<le> last_refill b'" "last_refill b' \<le> t" using b(2,3) b'(4) assms(2) by (simp_all split: if_split)
    show "unat (tokens b') \<le> ?B" using b'(3) kb by linarith
    show "1000 * (k' + unat (tokens b')) \<le> 1000 * ?B + ?R * ((last_refill b' - t0) div 10 ^ 6)"
      unfolding b'(3) kk by (rule bal)
  qed (fact b'(2))
  assume "1000 \<le> (t - s) div 10 ^ 6 * ?R" "0 < rate_burst n"
  moreover have "(t - s) div 10 ^ 6 \<le> ?e" using b(3) by (intro div_le_mono) simp
  then have "(t - s) div 10 ^ 6 * ?R \<le> ?e * ?R" by (rule mult_le_mono1)
  ultimately have "1000 \<le> ?e * ?R" "0 < ?B" by (blast intro: le_trans, simp add: word_less_nat_alt)
  then have "0 < ?e * ?R div 1000" "0 < ?B" by (simp_all add: div_greater_zero_iff)
  then have "0 < ?k" by (simp add: refilled_def)
  then show "k' = Suc k" using c(2) b'(1) by simp
qed

text \<open>The calls of one address at the times of a list, first contact included.\<close>

lemma admit_all:
  assumes "balanced ip t0 s k n" "sorted (s # ts)"
    and "(last (s # ts) - t0) div 10 ^ 6 * unat (rate_limit n) + unat (rate_burst n) < 2 ^ 64"
    and "foldl (admit ip) (k, n) ts = (k', n')"
  shows "balanced ip t0 (last (s # ts)) k' n' \<and> same_settings n n'
    \<and> (successively (\<lambda>s t. 1000 \<le> (t - s) div 10 ^ 6 * unat (rate_limit n)) (s # ts) \<and> 0 < rate_burst n
       \<longrightarrow> k' = k + length ts)"
  using assms
proof (induction ts arbitrary: s k n)
  case Nil
  then show ?case by (simp add: same_settings_def)
next
  case (Cons t ts)
  obtain j m where j: "admit ip (k, n) t = (j, m)" by fastforce
  have "t \<le> last (t # ts)" using Cons.prems(2) by (cases "ts = []") (auto simp: sorted_wrt_append)
  then have "(t - t0) div 10 ^ 6 * unat (rate_limit n) \<le> (last (t # ts) - t0) div 10 ^ 6 * unat (rate_limit n)"
    by (intro mult_le_mono1 div_le_mono diff_le_mono)
  then have fit: "(t - t0) div 10 ^ 6 * unat (rate_limit n) + unat (rate_burst n) < 2 ^ 64"
    using Cons.prems(3) unfolding last.simps(1) [of s] by (simp only: list.simps if_False le_less_trans [OF add_right_mono])
  have "s \<le> t" using Cons.prems(2) by simp
  note n = admit_next [OF Cons.prems(1) this j fit]
  have eq: "rate_limit m = rate_limit n" "rate_burst m = rate_burst n" using n(2) by (simp_all add: same_settings_def)
  have "balanced ip t0 (last (t # ts)) k' n' \<and> same_settings m n'
    \<and> (successively (\<lambda>s t. 1000 \<le> (t - s) div 10 ^ 6 * unat (rate_limit m)) (t # ts) \<and> 0 < rate_burst m
       \<longrightarrow> k' = j + length ts)"
    by (rule Cons.IH [OF n(1)]) (use Cons.prems(2-4) j eq in simp_all)
  then show ?case using n(2,3) same_settings_trans unfolding eq by auto
qed

text \<open>
  C19: Rate limiting: of the datagrams of an address that arrive from its first one to time \<open>last\<close>,
  at most the burst and what the rate yields in that time pass the bucket.
\<close>

theorem rate_bound:
  assumes "rate_limits n ip = None" "sorted (t # ts)"
    and "(last (t # ts) - t) div 10 ^ 6 * unat (rate_limit n) + unat (rate_burst n) < 2 ^ 64"
    and "foldl (admit ip) (0, n) (t # ts) = (k, n')"
  shows "k \<le> unat (rate_burst n) + (last (t # ts) - t) div 10 ^ 6 * unat (rate_limit n) div 1000"
proof -
  obtain j m where j: "admit ip (0, n) t = (j, m)" by fastforce
  have m: "balanced ip t t j m" "same_settings n m" using admit_first [OF assms(1) j] by blast+
  then have eq: "rate_limit m = rate_limit n" "rate_burst m = rate_burst n" by (simp_all add: same_settings_def)
  have b: "balanced ip t (last (t # ts)) k n'" "same_settings m n'"
    using admit_all [OF m(1) assms(2)] assms(3,4) j eq by auto
  have lim: "rate_limit n' = rate_limit n" "rate_burst n' = rate_burst n" using m(2) b(2) by (simp_all add: same_settings_def)
  obtain c :: RateBucket where c: "last_refill c \<le> last (t # ts)"
    "1000 * (k + unat (tokens c)) \<le> 1000 * unat (rate_burst n) + unat (rate_limit n) * ((last_refill c - t) div 10 ^ 6)"
    using b(1) unfolding balanced_def lim by blast
  have "unat (rate_limit n) * ((last_refill c - t) div 10 ^ 6) \<le> (last (t # ts) - t) div 10 ^ 6 * unat (rate_limit n)"
    using c(1) by (subst mult.commute) (intro mult_le_mono1 div_le_mono diff_le_mono)
  then show ?thesis by (rule scaled_le(2) [OF c(2)])
qed

text \<open>
  Rate limiting starves nobody: an address that leaves between its datagrams the time in which
  the rate yields a token passes the bucket every time, for ever.
\<close>

theorem paced_address_served:
  assumes "rate_limits n ip = None" "sorted (t # ts)" "0 < rate_burst n"
    and "(last (t # ts) - t) div 10 ^ 6 * unat (rate_limit n) + unat (rate_burst n) < 2 ^ 64"
    and "successively (\<lambda>s t. 1000 \<le> (t - s) div 10 ^ 6 * unat (rate_limit n)) (t # ts)"
  shows "fst (foldl (admit ip) (0, n) (t # ts)) = length (t # ts)"
proof -
  obtain j m where j: "admit ip (0, n) t = (j, m)" by fastforce
  have m: "balanced ip t t j m" "same_settings n m" "j = 1" using admit_first [OF assms(1) j] assms(3) by blast+
  then have eq: "rate_limit m = rate_limit n" "rate_burst m = rate_burst n" by (simp_all add: same_settings_def)
  obtain k n' where k: "foldl (admit ip) (j, m) ts = (k, n')" by fastforce
  then have "k = j + length ts" using admit_all [OF m(1) assms(2) _ k] assms(3-5) eq by simp
  then show ?thesis using j k m(3) by simp
qed

section \<open>Evaluations\<close>

text \<open>A network with noise switched off, and one datagram for it.\<close>

definition sample_net :: "bool \<Rightarrow> u64 \<Rightarrow> (nat \<times> nat, nat) GossipNetwork" where
  "sample_net needed burst = network_new 1337 (build_from sample_wire [7]) False needed 50 burst"

definition sample_net_env :: "nat \<Rightarrow> (nat \<times> nat, nat) net_env" where
  "sample_net_env t = \<lparr>net_wire = sample_wire, net_noise = sample_noise, bucket_now = t, session_now = t, session_used = t\<rparr>"

definition sample_peer :: SocketAddr where
  "sample_peer = \<lparr>addr_ip = (10, 0, 0, 9), addr_port = 1337\<rparr>"

lemma sample_peer_other [simp]: "sample_peer \<noteq> broadcast_addr p"
  by (simp add: sample_peer_def broadcast_addr_def)

theorem filter_is_window_witness:
  "\<exists>r out n. broadcast (sample_net_env 0) None (sample_data 7 3) (sample_net False 2) = (r, out, n)
    \<and> filter_contains [7] (gossip_filter n)"
proof -
  obtain r out n where b: "broadcast (sample_net_env 0) None (sample_data 7 3) (sample_net False 2) = (r, out, n)"
    by (metis surj_pair)
  have "announced (sample_net_env 0) (sample_data 7 3) (sample_net False 2) = [[7]]"
    by (simp add: announced_def sample_data_def sample_net_env_def sample_net_def network_new_def signed_bytes_def sign_def
        to_bytes_def sample_wire_def sample_enc_data_def sample_enc_envelope_def build_from_def dedup.news_def filter_contains_def
        filter_new_def)
  then have "gossip_run sample_wire sample_noise (network_new 1337 (build_from sample_wire [7]) False False 50 2) [[7]] n"
    using gossip_run.sent [OF gossip_run.start _ _ b] by (simp add: sample_net_env_def sample_net_def)
  from filter_is_window [OF this] show ?thesis using b by (auto simp: window_def)
qed

text \<open>A peer whose five datagrams were no envelopes.\<close>

definition sample_failures :: "(nat \<times> nat, nat) GossipNetwork" where
  "sample_failures = foldl (\<lambda>n m. snd (snd (receive (sample_net_env 0) sample_peer m n))) (sample_net False 9)
     [[], [], [], [], []]"

theorem rate_bound_witness:
  "fst (foldl (admit ''10.0.0.9'') (0, sample_net False 2) [0, 10 ^ 6, 2 * 10 ^ 6, 3 * 10 ^ 6]) \<le> 2"
proof -
  obtain k n' where k: "foldl (admit ''10.0.0.9'') (0, sample_net False 2) [0, 10 ^ 6, 2 * 10 ^ 6, 3 * 10 ^ 6] = (k, n')"
    by fastforce
  then show ?thesis
    using rate_bound [of "sample_net False 2" "''10.0.0.9''" 0 "[10 ^ 6, 2 * 10 ^ 6, 3 * 10 ^ 6]" k n']
    by (simp add: sample_net_def network_new_def)
qed

theorem paced_address_served_witness:
  "fst (foldl (admit ''10.0.0.9'') (0, sample_net False 2) [0, 20 * 10 ^ 6, 45 * 10 ^ 6, 65 * 10 ^ 6, 85 * 10 ^ 6]) = 5"
  using paced_address_served [of "sample_net False 2" "''10.0.0.9''" 0 "[20 * 10 ^ 6, 45 * 10 ^ 6, 65 * 10 ^ 6, 85 * 10 ^ 6]"]
  by (simp add: sample_net_def network_new_def word_less_nat_alt)

lemma sample_net_run:
  "gossip_run sample_wire sample_noise (sample_net needed burst) tr n \<Longrightarrow>
   \<exists>tr'. gossip_run sample_wire sample_noise (sample_net needed burst) tr' (snd (snd (receive (sample_net_env t) sample_peer raw n)))"
  using gossip_run.received [of sample_wire sample_noise "sample_net needed burst" tr n "sample_net_env t" sample_peer raw]
  by (metis prod.collapse net_env.select_convs(1,2) sample_net_env_def sample_peer_other)

lemma sample_failure:
  fixes n :: "(nat \<times> nat, nat) GossipNetwork"
  assumes "\<not> noise_needed n" "(case rate_limits n ip of Some b \<Rightarrow> b | None \<Rightarrow> \<lparr>tokens = rate_burst n, last_refill = 0\<rparr>) = \<lparr>tokens = k, last_refill = 0\<rparr>"
    and "0 < k" "(case peer_health n ip of Some c \<Rightarrow> c | None \<Rightarrow> 0) = c" "c < 5" "ip = ip_text sample_peer"
    and "m = snd (snd (receive (sample_net_env 0) sample_peer [] n))"
  shows "\<not> noise_needed m \<and> rate_limits m ip = Some \<lparr>tokens = k - 1, last_refill = 0\<rparr> \<and> peer_health m ip = Some (c + 1)"
proof -
  let ?n = "n\<lparr>rate_limits := (rate_limits n)(ip \<mapsto> \<lparr>tokens = k - 1, last_refill = 0\<rparr>)\<rparr>"
  have rate: "check_rate_limit 0 ip n = (True, ?n)"
    unfolding check_rate_limit_def Let_def using assms(2,3) by (simp add: word_less_nat_alt)
  obtain e evs where r: "receive (sample_net_env 0) sample_peer [] n = (e, evs, m)"
    using assms(7) by (metis prod.collapse)
  show ?thesis
    using r
  proof (cases rule: receive_cases)
    case (checked n' b ss plain)
    have "plain = []" using checked(3,5)
      by (auto simp: unwrap_def Let_def sample_net_env_def sample_noise_def split: SecureState.splits prod.splits option.splits if_splits)
    then have "m = count_failure ip (n'\<lparr>security := ss\<rparr>)"
      using checked(6) assms(6) by (simp add: check_packet_def from_bytes_def)
    moreover have "n' = ?n" using checked(1) rate assms(6) by (simp add: sample_net_env_def)
    ultimately show ?thesis using assms(1,4) by (simp add: count_failure_def)
  qed (use rate assms in \<open>auto simp: sample_net_env_def\<close>)
qed

theorem breaker_is_final_witness:
  "peer_health sample_failures (ip_text sample_peer) = Some 5
   \<and> fst (receive (sample_net_env 0) sample_peer [7, 1, 4, 3, 7] sample_failures) = None"
proof -
  let ?ip = "ip_text sample_peer" and ?r = "\<lambda>n. snd (snd (receive (sample_net_env 0) sample_peer [] n))"
  let ?n = "sample_net False 9"
  have a: "\<not> noise_needed (?r ?n) \<and> rate_limits (?r ?n) ?ip = Some \<lparr>tokens = 8, last_refill = 0\<rparr> \<and> peer_health (?r ?n) ?ip = Some 1"
    using sample_failure [of ?n ?ip 9 0 "?r ?n"] by (simp add: sample_net_def network_new_def)
  have b: "\<not> noise_needed (?r (?r ?n)) \<and> rate_limits (?r (?r ?n)) ?ip = Some \<lparr>tokens = 7, last_refill = 0\<rparr>
      \<and> peer_health (?r (?r ?n)) ?ip = Some 2"
    using sample_failure [of "?r ?n" ?ip 8 1 "?r (?r ?n)"] a by simp
  have c: "\<not> noise_needed (?r (?r (?r ?n))) \<and> rate_limits (?r (?r (?r ?n))) ?ip = Some \<lparr>tokens = 6, last_refill = 0\<rparr>
      \<and> peer_health (?r (?r (?r ?n))) ?ip = Some 3"
    using sample_failure [of "?r (?r ?n)" ?ip 7 2 "?r (?r (?r ?n))"] b by simp
  have d: "\<not> noise_needed (?r (?r (?r (?r ?n)))) \<and> rate_limits (?r (?r (?r (?r ?n)))) ?ip = Some \<lparr>tokens = 5, last_refill = 0\<rparr>
      \<and> peer_health (?r (?r (?r (?r ?n)))) ?ip = Some 4"
    using sample_failure [of "?r (?r (?r ?n))" ?ip 6 3 "?r (?r (?r (?r ?n)))"] c by simp
  have five: "peer_health sample_failures ?ip = Some 5"
    using sample_failure [of "?r (?r (?r (?r ?n)))" ?ip 5 4 "?r (?r (?r (?r (?r ?n))))"] d by (simp add: sample_failures_def)
  have "gossip_run sample_wire sample_noise ?n [] ?n" by (rule gossip_run.start)
  then obtain tr1 where "gossip_run sample_wire sample_noise ?n tr1 (?r ?n)" using sample_net_run by blast
  then obtain tr2 where "gossip_run sample_wire sample_noise ?n tr2 (?r (?r ?n))" using sample_net_run by blast
  then obtain tr3 where "gossip_run sample_wire sample_noise ?n tr3 (?r (?r (?r ?n)))" using sample_net_run by blast
  then obtain tr4 where "gossip_run sample_wire sample_noise ?n tr4 (?r (?r (?r (?r ?n))))" using sample_net_run by blast
  then obtain tr5 where "gossip_run sample_wire sample_noise ?n tr5 sample_failures"
    using sample_net_run unfolding sample_failures_def foldl_Cons foldl_Nil by blast
  then have "gossip_run sample_wire sample_noise (network_new 1337 (build_from sample_wire [7]) False False 50 9) tr5 sample_failures"
    by (simp add: sample_net_def)
  from breaker_is_final [OF this five gossip_run.start refl] show ?thesis using five by blast
qed

theorem noise_required_isolates_witness:
  "fst (receive (sample_net_env 0) sample_peer [7, 1, 4, 3, 7] (sample_net True 9)) = None"
proof -
  obtain e evs n' where r: "receive (sample_net_env 0) sample_peer [7, 1, 4, 3, 7] (sample_net True 9) = (e, evs, n')"
    by (metis surj_pair)
  have "fst (hs_read sample_noise h m 1024) \<in> {None, Some []}" for h m
    by (simp add: sample_noise_def case_prod_beta)
  then show ?thesis
    using noise_required_isolates [OF gossip_run.start sample_noise_ok _ _ sample_peer_other r [unfolded sample_net_def]] r
    by (simp add: sample_net_env_def)
qed

end
