(* ===== verification/Decision.thy ===== *)
theory Decision
  imports Store
begin

text \<open>
  The decision engine (\<open>aimp_node/src/decision_engine.rs\<close>): rules, their first match, and the
  dispatcher that reloads the rules file before an evaluation. The record \<open>text_lib\<close> has what is not
  written out: the JSON parser of rule files, and the two functions of the standard library that
  need the Unicode tables, lower case and the quoted form of a string. A trait object is a rule
  engine or any other implementation of the trait.
\<close>

section \<open>The code\<close>

record Decision =
  target_entity :: string
  dec_status :: string
  action_required :: bool

record DecisionRule =
  rule_keywords :: "string list"
  rule_target :: string
  rule_status :: string
  rule_action :: bool

record RuleEngine =
  rules :: "DecisionRule list"
  version :: string

record text_lib =
  parse_rules :: "string \<Rightarrow> DecisionRule list option"
  to_lowercase :: "string \<Rightarrow> string"
  debug_str :: "string \<Rightarrow> string"

datatype engine = Rules RuleEngine | Custom "string \<Rightarrow> Decision AimpResult" Hash32

text \<open>What is found at the path of the rules file.\<close>

datatype rules_file = Missing | Unreadable | Content string

definition hex2 :: "u8 \<Rightarrow> string" where
  "hex2 b = [hex_digit (unat b div 16), hex_digit (unat b mod 16)]"

definition rule_engine_new :: "DecisionRule list \<Rightarrow> string \<Rightarrow> RuleEngine" where
  "rule_engine_new rs v = \<lparr>rules = rs, version = v\<rparr>"

definition from_file :: "text_lib \<Rightarrow> blake3 \<Rightarrow> rules_file \<Rightarrow> RuleEngine option" where
  "from_file L B f =
     (case f of
        Content c \<Rightarrow>
          (case parse_rules L c of
             None \<Rightarrow> None
           | Some rs \<Rightarrow> Some (rule_engine_new rs (''rules.file.'' @ concat (map hex2 (take 4 (B (ascii c)))))))
      | _ \<Rightarrow> None)"

definition default_rules :: RuleEngine where
  "default_rules = rule_engine_new
     [\<lparr>rule_keywords = [''error'', ''failure'', ''fault'', ''critical'', ''danger''],
       rule_target = ''system_alert'', rule_status = ''CRITICAL'', rule_action = True\<rparr>,
      \<lparr>rule_keywords = [''valve'', ''pressure'', ''flow''],
       rule_target = ''hydraulic_system'', rule_status = ''WARNING'', rule_action = True\<rparr>,
      \<lparr>rule_keywords = [''north'', ''nord''],
       rule_target = ''sector_north'', rule_status = ''NORMAL'', rule_action = False\<rparr>,
      \<lparr>rule_keywords = [''south'', ''sud''],
       rule_target = ''sector_south'', rule_status = ''NORMAL'', rule_action = False\<rparr>]
     ''rules.v2.default''"

text \<open>\<open>str::contains\<close>.\<close>

fun contains_str :: "string \<Rightarrow> string \<Rightarrow> bool" where
  "contains_str s kw \<longleftrightarrow> take (length kw) s = kw \<or> (case s of [] \<Rightarrow> False | _ # s \<Rightarrow> contains_str s kw)"

declare contains_str.simps [simp del]

definition matches :: "string \<Rightarrow> DecisionRule \<Rightarrow> bool" where
  "matches lowered r \<longleftrightarrow> list_ex (contains_str lowered) (rule_keywords r)"

fun first_rule :: "string \<Rightarrow> DecisionRule list \<Rightarrow> Decision" where
  "first_rule lowered [] = \<lparr>target_entity = ''generic_entity'', dec_status = ''NORMAL'', action_required = False\<rparr>"
| "first_rule lowered (r # rs) =
     (if matches lowered r
      then \<lparr>target_entity = rule_target r, dec_status = rule_status r, action_required = rule_action r\<rparr>
      else first_rule lowered rs)"

definition rule_evaluate :: "text_lib \<Rightarrow> RuleEngine \<Rightarrow> string \<Rightarrow> Decision AimpResult" where
  "rule_evaluate L re prompt = Inr (first_rule (to_lowercase L prompt) (rules re))"

definition evaluate :: "text_lib \<Rightarrow> engine \<Rightarrow> string \<Rightarrow> Decision AimpResult" where
  "evaluate L e prompt = (case e of Rules re \<Rightarrow> rule_evaluate L re prompt | Custom f _ \<Rightarrow> f prompt)"

definition engine_hash :: "blake3 \<Rightarrow> engine \<Rightarrow> Hash32" where
  "engine_hash B e = (case e of Rules re \<Rightarrow> B (ascii (version re)) | Custom _ h \<Rightarrow> h)"

record DecisionDispatcher =
  disp_engine :: engine
  rules_path :: "string option"
  rules_hash :: "Hash32 option"
  disp_log :: bool

definition dispatcher_new :: "text_lib \<Rightarrow> blake3 \<Rightarrow> rules_file \<Rightarrow> bool \<Rightarrow> DecisionDispatcher" where
  "dispatcher_new L B f log =
     (case from_file L B f of
        Some re \<Rightarrow> \<lparr>disp_engine = Rules re, rules_path = Some ''aimp_rules.json'',
                    rules_hash = Some (engine_hash B (Rules re)), disp_log = log\<rparr>
      | None \<Rightarrow> \<lparr>disp_engine = Rules default_rules, rules_path = Some ''aimp_rules.json'',
                 rules_hash = None, disp_log = log\<rparr>)"

definition with_engine :: "engine \<Rightarrow> bool \<Rightarrow> DecisionDispatcher" where
  "with_engine e log = \<lparr>disp_engine = e, rules_path = None, rules_hash = None, disp_log = log\<rparr>"

definition reload_event :: SystemEvent where
  "reload_event = Status ''[DECISION] Rules hot-reloaded from aimp_rules.json''"

definition try_hot_reload ::
  "text_lib \<Rightarrow> blake3 \<Rightarrow> rules_file \<Rightarrow> DecisionDispatcher \<Rightarrow> SystemEvent list \<times> DecisionDispatcher" where
  "try_hot_reload L B f d =
     (if rules_path d = None \<or> f = Missing then ([], d)
      else case from_file L B f of
        None \<Rightarrow> ([], d)
      | Some re \<Rightarrow>
          let new_hash = engine_hash B (Rules re)
          in if rules_hash d = Some new_hash then ([], d)
             else (if disp_log d then [reload_event] else [],
                   d\<lparr>rules_hash := Some new_hash, disp_engine := Rules re\<rparr>))"

definition debug_decision :: "text_lib \<Rightarrow> Decision \<Rightarrow> string" where
  "debug_decision L x =
     ''Decision { target_entity: '' @ debug_str L (target_entity x) @ '', status: '' @ debug_str L (dec_status x)
       @ '', action_required: '' @ (if action_required x then ''true'' else ''false'') @ '' }''"

definition run_evaluation ::
  "text_lib \<Rightarrow> blake3 \<Rightarrow> rules_file \<Rightarrow> string \<Rightarrow> DecisionDispatcher
    \<Rightarrow> Decision AimpResult \<times> SystemEvent list \<times> DecisionDispatcher" where
  "run_evaluation L B f prompt d =
     (let (evs, d) = try_hot_reload L B f d
      in case evaluate L (disp_engine d) prompt of
           Inl e \<Rightarrow> (Inl e, evs, d)
         | Inr x \<Rightarrow> (Inr x, evs @ (if disp_log d then [EvAiInference prompt (debug_decision L x)] else []), d))"

section \<open>Rules\<close>

lemma contains_str_sublist: "contains_str s kw \<longleftrightarrow> (\<exists>a b. s = a @ kw @ b)"
proof
  show "contains_str s kw \<Longrightarrow> \<exists>a b. s = a @ kw @ b"
  proof (induction s)
    case Nil
    then show ?case by (auto simp: contains_str.simps [of "[]"])
  next
    case (Cons c s)
    then consider "take (length kw) (c # s) = kw" | "contains_str s kw" by (auto simp: contains_str.simps [of "c # s"])
    then show ?case
    proof cases
      case 1
      then show ?thesis by (metis append_Nil append_take_drop_id)
    next
      case 2
      then show ?thesis using Cons.IH by (metis append_Cons)
    qed
  qed
  assume "\<exists>a b. s = a @ kw @ b"
  then obtain a b where "s = a @ kw @ b" by blast
  then show "contains_str s kw"
  proof (induction a arbitrary: s)
    case Nil
    then show ?case by (simp add: contains_str.simps [of "kw @ b"])
  next
    case (Cons c a)
    then show ?case by (simp add: contains_str.simps [of "c # a @ kw @ b"])
  qed
qed

lemma first_rule_spec:
  "first_rule s rs =
    (case find (matches s) rs of
       None \<Rightarrow> \<lparr>target_entity = ''generic_entity'', dec_status = ''NORMAL'', action_required = False\<rparr>
     | Some r \<Rightarrow> \<lparr>target_entity = rule_target r, dec_status = rule_status r, action_required = rule_action r\<rparr>)"
  by (induction rs) auto

text \<open>Lower case has no ASCII capital.\<close>

definition ascii_upper :: "char \<Rightarrow> bool" where
  "ascii_upper c \<longleftrightarrow> (of_char c :: nat) \<in> {65..90}"

definition lower_ok :: "text_lib \<Rightarrow> bool" where
  "lower_ok L \<longleftrightarrow> (\<forall>s. \<forall>c\<in>set (to_lowercase L s). \<not> ascii_upper c)"

text \<open>
  A keyword with a capital letter never matches: the prompt is lowered and the keyword is not.
  A rule all of whose keywords have one is dead, and the engine decides as if it were not there.
\<close>

theorem capital_keywords_dead:
  assumes "lower_ok L" "\<forall>kw\<in>set (rule_keywords r). \<exists>c\<in>set kw. ascii_upper c"
  shows "rule_evaluate L \<lparr>rules = as @ r # bs, version = v\<rparr> prompt = rule_evaluate L \<lparr>rules = as @ bs, version = v\<rparr> prompt"
proof -
  let ?s = "to_lowercase L prompt"
  have "\<not> contains_str ?s kw" if "kw \<in> set (rule_keywords r)" for kw
  proof
    assume "contains_str ?s kw"
    then have "set kw \<subseteq> set ?s" by (auto simp: contains_str_sublist)
    then show False using assms that unfolding lower_ok_def by blast
  qed
  then have "\<not> matches ?s r" by (simp add: matches_def list_ex_iff)
  then have "first_rule ?s (as @ r # bs) = first_rule ?s (as @ bs)" by (induction as) simp_all
  then show ?thesis by (simp add: rule_evaluate_def)
qed

section \<open>Reloading\<close>

text \<open>The abstract dispatcher: the rules of the last valid file, or the ones before.\<close>

definition spec_rules :: "text_lib \<Rightarrow> RuleEngine \<Rightarrow> rules_file list \<Rightarrow> DecisionRule list" where
  "spec_rules L start fs =
     foldl (\<lambda>rs f. case f of Content c \<Rightarrow> (case parse_rules L c of Some rs' \<Rightarrow> rs' | None \<Rightarrow> rs) | _ \<Rightarrow> rs) (rules start) fs"

text \<open>The files seen in a sequence of evaluations, with no two valid ones under one version.\<close>

definition tags_distinct :: "text_lib \<Rightarrow> blake3 \<Rightarrow> rules_file set \<Rightarrow> bool" where
  "tags_distinct L B F \<longleftrightarrow> (\<forall>f\<in>F. \<forall>g\<in>F. \<forall>x y. from_file L B f = Some x \<longrightarrow> from_file L B g = Some y
     \<longrightarrow> B (ascii (version x)) = B (ascii (version y)) \<longrightarrow> rules x = rules y)"

definition evaluations ::
  "text_lib \<Rightarrow> blake3 \<Rightarrow> DecisionDispatcher \<Rightarrow> (rules_file \<times> string) list \<Rightarrow> DecisionDispatcher" where
  "evaluations L B d xs = foldl (\<lambda>d (f, prompt). snd (snd (run_evaluation L B f prompt d))) d xs"

text \<open>The dispatcher has the rules of the specification, and its hash is that of a file it has seen.\<close>

definition follows :: "text_lib \<Rightarrow> blake3 \<Rightarrow> rules_file set \<Rightarrow> DecisionRule list \<Rightarrow> DecisionDispatcher \<Rightarrow> bool" where
  "follows L B F rs d \<longleftrightarrow> (\<exists>re. disp_engine d = Rules re \<and> rules re = rs) \<and> rules_path d \<noteq> None
     \<and> (\<forall>h. rules_hash d = Some h \<longrightarrow> (\<exists>f\<in>F. \<exists>x. from_file L B f = Some x \<and> h = B (ascii (version x)) \<and> rules x = rs))"

lemma reload_follows:
  assumes "follows L B F rs d" "f \<in> F" "tags_distinct L B F"
  shows "follows L B F (spec_rules L \<lparr>rules = rs, version = v\<rparr> [f]) (snd (try_hot_reload L B f d))"
proof (cases "from_file L B f")
  case None
  then have "spec_rules L \<lparr>rules = rs, version = v\<rparr> [f] = rs"
    by (auto simp: spec_rules_def from_file_def split: rules_file.splits option.splits)
  moreover have "snd (try_hot_reload L B f d) = d" using None by (simp add: try_hot_reload_def)
  ultimately show ?thesis using assms(1) by simp
next
  case (Some re)
  then have f: "f \<noteq> Missing" "spec_rules L \<lparr>rules = rs, version = v\<rparr> [f] = rules re"
    by (auto simp: spec_rules_def from_file_def rule_engine_new_def split: rules_file.splits option.splits)
  have p: "rules_path d \<noteq> None" using assms(1) by (simp add: follows_def)
  show ?thesis
  proof (cases "rules_hash d = Some (engine_hash B (Rules re))")
    case True
    then obtain g x where g: "g \<in> F" "from_file L B g = Some x" "B (ascii (version re)) = B (ascii (version x))" "rules x = rs"
      using assms(1) by (auto simp: follows_def engine_hash_def)
    then have "rules re = rs" using assms(2,3) Some unfolding tags_distinct_def by metis
    then show ?thesis using True Some assms(1) f p by (simp add: try_hot_reload_def Let_def)
  next
    case False
    then have "snd (try_hot_reload L B f d) = d\<lparr>rules_hash := Some (engine_hash B (Rules re)), disp_engine := Rules re\<rparr>"
    proof -
      obtain path where "rules_path d = Some path" using p by blast
      then show ?thesis using False Some f(1) by (simp add: try_hot_reload_def Let_def)
    qed
    then show ?thesis using Some assms(2) p by (auto simp: follows_def f(2) engine_hash_def)
  qed
qed

lemma run_evaluation_dispatcher: "snd (snd (run_evaluation L B f prompt d)) = snd (try_hot_reload L B f d)"
  by (simp add: run_evaluation_def Let_def case_prod_beta split: sum.split)

lemma evaluations_follow:
  assumes "follows L B F (rules start) d" "fst ` set xs \<subseteq> F" "tags_distinct L B F"
  shows "follows L B F (spec_rules L start (map fst xs)) (evaluations L B d xs)"
  using assms(1,2)
proof (induction xs arbitrary: d start)
  case Nil
  then show ?case by (simp add: evaluations_def spec_rules_def)
next
  case (Cons x xs)
  obtain f prompt where x: "x = (f, prompt)" by fastforce
  let ?rs = "spec_rules L \<lparr>rules = rules start, version = []\<rparr> [f]"
  have "follows L B F ?rs (snd (try_hot_reload L B f d))"
    by (rule reload_follows [OF Cons.prems(1) _ assms(3)]) (use Cons.prems(2) x in simp)
  then have "follows L B F (spec_rules L \<lparr>rules = ?rs, version = []\<rparr> (map fst xs)) (evaluations L B (snd (try_hot_reload L B f d)) xs)"
    by (intro Cons.IH) (use Cons.prems(2) in simp_all)
  then show ?case by (simp add: x evaluations_def spec_rules_def run_evaluation_dispatcher)
qed

text \<open>
  C17: The dispatcher implements its specification: whatever happens to the rules file between the
  evaluations (created, changed, broken, removed), each evaluation decides by the rules of the last
  valid file seen, the default rules before the first, as long as no two of the valid files have
  the same version, which is the hash of the first four bytes of the hash of their content.
\<close>

theorem hot_reload_refines:
  assumes "tags_distinct L B (insert f0 (insert f (fst ` set xs)))"
    and "d = evaluations L B (dispatcher_new L B f0 log) xs"
  shows "fst (run_evaluation L B f prompt d) =
    Inr (first_rule (to_lowercase L prompt) (spec_rules L default_rules (f0 # map fst xs @ [f])))"
proof -
  let ?F = "insert f0 (insert f (fst ` set xs))"
  let ?start = "\<lparr>rules = spec_rules L default_rules [f0], version = []\<rparr>"
  have "follows L B ?F (rules ?start) (dispatcher_new L B f0 log)"
  proof (cases "from_file L B f0")
    case None
    then show ?thesis
      by (auto simp: follows_def dispatcher_new_def spec_rules_def from_file_def split: rules_file.splits option.splits)
  next
    case (Some re)
    then have "spec_rules L default_rules [f0] = rules re"
      by (auto simp: spec_rules_def from_file_def rule_engine_new_def split: rules_file.splits option.splits)
    then show ?thesis using Some by (auto simp: follows_def dispatcher_new_def engine_hash_def)
  qed
  then have "follows L B ?F (spec_rules L ?start (map fst (xs @ [(f, prompt)]))) (evaluations L B (dispatcher_new L B f0 log) (xs @ [(f, prompt)]))"
    by (rule evaluations_follow [OF _ _ assms(1)]) auto
  then obtain re where "disp_engine (snd (try_hot_reload L B f d)) = Rules re"
    "rules re = spec_rules L default_rules (f0 # map fst xs @ [f])"
    by (auto simp: follows_def evaluations_def assms(2) run_evaluation_dispatcher spec_rules_def)
  then show ?thesis
    by (simp add: run_evaluation_def Let_def case_prod_beta evaluate_def rule_evaluate_def split: sum.split)
qed

section \<open>Evaluations\<close>

text \<open>ASCII lower case, and two rule files.\<close>

definition sample_text :: text_lib where
  "sample_text = \<lparr>parse_rules = \<lambda>c.
       if c = ''A'' then Some [\<lparr>rule_keywords = [''Pump''], rule_target = ''p'', rule_status = ''WARNING'', rule_action = True\<rparr>]
       else if c = ''B'' then Some [\<lparr>rule_keywords = [''pump''], rule_target = ''p'', rule_status = ''WARNING'', rule_action = True\<rparr>]
       else None,
     to_lowercase = map (\<lambda>c. if ascii_upper c then char_of ((of_char c :: nat) + 32) else c),
     debug_str = \<lambda>s. s\<rparr>"

lemma sample_text_lower: "lower_ok sample_text"
proof -
  have "\<not> ascii_upper (char_of ((of_char c :: nat) + 32))" if "ascii_upper c" for c
    using that by (auto simp: ascii_upper_def)
  then show ?thesis by (auto simp: lower_ok_def sample_text_def)
qed

theorem capital_keywords_dead_witness:
  "rule_evaluate sample_text \<lparr>rules = the (parse_rules sample_text ''A''), version = ''v''\<rparr> ''Pump stalled''
   = rule_evaluate sample_text \<lparr>rules = [], version = ''v''\<rparr> ''Pump stalled''"
proof -
  let ?r = "\<lparr>rule_keywords = [''Pump''], rule_target = ''p'', rule_status = ''WARNING'', rule_action = True\<rparr>"
  have "\<forall>kw\<in>set (rule_keywords ?r). \<exists>c\<in>set kw. ascii_upper c"
    by (simp add: ascii_upper_def)
  from capital_keywords_dead [OF sample_text_lower this, of "[]" "[]" "''v''" "''Pump stalled''"]
  show ?thesis by (simp add: sample_text_def)
qed

theorem hot_reload_refines_witness:
  "fst (run_evaluation sample_text sample_hash (Content ''B'') ''Pump stalled'' (dispatcher_new sample_text sample_hash Missing False))
   = Inr \<lparr>target_entity = ''p'', dec_status = ''WARNING'', action_required = True\<rparr>"
proof -
  have "tags_distinct sample_text sample_hash {Missing, Content ''B''}"
    by (auto simp: tags_distinct_def from_file_def)
  then have "fst (run_evaluation sample_text sample_hash (Content ''B'') ''Pump stalled'' (dispatcher_new sample_text sample_hash Missing False))
      = Inr (first_rule (to_lowercase sample_text ''Pump stalled'') (spec_rules sample_text default_rules [Missing, Content ''B'']))"
    using hot_reload_refines [of sample_text sample_hash Missing "Content ''B''" "[]" _ False "''Pump stalled''"]
    by (simp add: evaluations_def)
  also have "first_rule (to_lowercase sample_text ''Pump stalled'') (spec_rules sample_text default_rules [Missing, Content ''B''])
      = \<lparr>target_entity = ''p'', dec_status = ''WARNING'', action_required = True\<rparr>"
    by code_simp
  finally show ?thesis .
qed

end
