(* ===== verification/Node.thy ===== *)
theory Node
  imports Actor Gossip Decision
begin

text \<open>
  The node (\<open>aimp_node/src/main.rs\<close>): how it starts, and what it does with an envelope that the
  network delivered. A handler runs to its end before the next one; the events are those handed to
  the log. The clock of the operating system, the JSON text of a decision and the random seed of the
  identity are parameters.
\<close>

section \<open>The code\<close>

record node_env =
  env_platform :: platform
  env_wire :: wire
  env_text :: text_lib
  json_decision :: "bool \<Rightarrow> string \<Rightarrow> string option"

text \<open>What the surroundings answer during one handler.\<close>

record handler_env =
  actor_env :: call_env
  rules_now :: rules_file
  unix_time :: u64

record NodeState =
  node_identity :: Identity
  node_actor :: CrdtActor
  node_decisions :: DecisionDispatcher
  node_clock :: u64

definition key_prefix :: "platform \<Rightarrow> Identity \<Rightarrow> string" where
  "key_prefix P i = take 8 (hex_encode P (node_id i))"

definition handle_sync ::
  "node_env \<Rightarrow> handler_env \<Rightarrow> AimpData \<Rightarrow> NodeState \<Rightarrow> SystemEvent list \<times> NodeState" where
  "handle_sync E H d st =
     (case payload_decode (env_wire E) (data_op d) (data_payload d) of
        SyncResponse ns \<Rightarrow>
          (let (new_count, evs, a) = handle_merge (env_platform E) (actor_env H) ns (node_actor st)
           in (evs @ (if new_count > 0 then [StateMerged new_count] else []), st\<lparr>node_actor := a\<rparr>))
      | _ \<Rightarrow> ([], st))"

text \<open>The mutation of an accepted inference.\<close>

definition infer_evidence :: "node_env \<Rightarrow> handler_env \<Rightarrow> string \<Rightarrow> string \<Rightarrow> DecisionDispatcher \<Rightarrow> AiEvidence" where
  "infer_evidence E H prompt js disp =
     \<lparr>ev_prompt = prompt, ev_decision = js, model_hash = engine_hash (blake (env_platform E)) (disp_engine disp),
      timestamp = unix_time H\<rparr>"

definition commit_inference ::
  "node_env \<Rightarrow> handler_env \<Rightarrow> AimpData \<Rightarrow> string \<Rightarrow> string \<Rightarrow> NodeState \<Rightarrow> SystemEvent list \<times> NodeState" where
  "commit_inference E H d prompt js st =
     (let P = env_platform E; dh = blake P (ascii js)
      in case sign (env_wire E) (node_identity st) d of
           Inl _ \<Rightarrow> ([Status ''[ERROR] Failed to sign mutation''], st)
         | Inr sig \<Rightarrow>
             let tick = node_clock st + 1;
                 author = key_prefix P (node_identity st);
                 (h, evs, a) = handle_append P (actor_env H) dh (env_signature sig) [(author, tick)]
                   (Some (infer_evidence E H prompt js (node_decisions st))) (node_actor st)
             in (evs @ [MutationCommitted (hex_encode P dh) author], st\<lparr>node_clock := tick, node_actor := a\<rparr>))"

definition handle_infer ::
  "node_env \<Rightarrow> handler_env \<Rightarrow> AimpData \<Rightarrow> NodeState \<Rightarrow> SystemEvent list \<times> NodeState" where
  "handle_infer E H d st =
     (case payload_decode (env_wire E) (data_op d) (data_payload d) of
        InferPrompt prompt \<Rightarrow>
          let (res, evs, disp) = run_evaluation (env_text E) (blake (env_platform E)) (rules_now H) prompt (node_decisions st);
              st = st\<lparr>node_decisions := disp\<rparr>;
              evs = EvAiInference prompt ''Pending...'' # evs
          in (case res of
                Inl _ \<Rightarrow> (evs, st)
              | Inr x \<Rightarrow>
                  (case json_decision E (action_required x) (dec_status x) of
                     None \<Rightarrow> (evs @ [Status ''[ERROR] Failed to serialize AI decision''], st)
                   | Some js \<Rightarrow> (let (evs', st) = commit_inference E H d prompt js st in (evs @ evs', st))))
      | _ \<Rightarrow> ([], st))"

text \<open>What the dispatch loop does with an envelope.\<close>

definition process :: "node_env \<Rightarrow> handler_env \<Rightarrow> AimpEnvelope \<Rightarrow> NodeState \<Rightarrow> SystemEvent list \<times> NodeState" where
  "process E H e st =
     (case data_op (env_data e) of
        SyncRes \<Rightarrow> handle_sync E H (env_data e) st
      | Infer \<Rightarrow> handle_infer E H (env_data e) st
      | _ \<Rightarrow> ([], st))"

text \<open>
  The start, with the random seed of the identity and what opening the database yields. A store that
  does not open leaves the node in memory.
\<close>

definition node_start ::
  "node_env \<Rightarrow> handler_env \<Rightarrow> AimpConfig \<Rightarrow> bytes \<Rightarrow> open_error + (bytes \<times> bytes) list option \<Rightarrow> NodeState" where
  "node_start E H cfg seed existing =
     (let i = identity_new (env_wire E) seed;
          s = (case store_open (env_platform E) existing (noise_static_secret i) of Inr s \<Rightarrow> Some s | Inl _ \<Rightarrow> None)
      in \<lparr>node_identity = i,
          node_actor = actor_new (env_platform E) (actor_env H) s True (quorum_threshold cfg) (gc_mutation_threshold cfg),
          node_decisions = dispatcher_new (env_text E) (blake (env_platform E)) (rules_now H) True,
          node_clock = 0\<rparr>)"

section \<open>Runs of the node\<close>

text \<open>The mutations that a node makes in a step: the change of its clock.\<close>

inductive node_run :: "node_env \<Rightarrow> NodeState \<Rightarrow> u64 list \<Rightarrow> NodeState \<Rightarrow> bool" for E st0 where
  started: "node_run E st0 [] st0"
| delivered: "node_run E st0 ticks st \<Longrightarrow> process E H e st = (evs, st')
    \<Longrightarrow> node_run E st0 (ticks @ (if node_clock st' = node_clock st then [] else [node_clock st'])) st'"
| asked: "node_run E st0 ticks st \<Longrightarrow> handle (env_platform E) env m (node_actor st) = (r, evs, a)
    \<Longrightarrow> m = GetRoot \<Longrightarrow> node_run E st0 ticks (st\<lparr>node_actor := a\<rparr>)"

lemma commit_inference_cases:
  assumes "commit_inference E H d prompt js st = (evs, st')"
  obtains (unsigned) "st' = st"
  | (committed) sig h evs' a where "sign (env_wire E) (node_identity st) d = Inr sig"
      "handle_append (env_platform E) (actor_env H) (blake (env_platform E) (ascii js)) (env_signature sig)
         [(key_prefix (env_platform E) (node_identity st), node_clock st + 1)]
         (Some (infer_evidence E H prompt js (node_decisions st))) (node_actor st) = (h, evs', a)"
      "st' = st\<lparr>node_clock := node_clock st + 1, node_actor := a\<rparr>"
proof (cases "sign (env_wire E) (node_identity st) d")
  case (Inl e)
  then show ?thesis using assms by (intro unsigned) (simp add: commit_inference_def Let_def)
next
  case (Inr sig)
  obtain h evs' a where a: "handle_append (env_platform E) (actor_env H) (blake (env_platform E) (ascii js)) (env_signature sig)
      [(key_prefix (env_platform E) (node_identity st), node_clock st + 1)]
      (Some (infer_evidence E H prompt js (node_decisions st))) (node_actor st) = (h, evs', a)"
    by (metis surj_pair)
  show ?thesis
    by (rule committed [OF Inr a]) (use assms Inr a in \<open>simp add: commit_inference_def Let_def\<close>)
qed

lemma process_cases:
  assumes "process E H e st = (evs, st')"
  obtains (idle) disp where "st' = st\<lparr>node_decisions := disp\<rparr>"
  | (merged) ns new_count evs' a where "handle_merge (env_platform E) (actor_env H) ns (node_actor st) = (new_count, evs', a)"
      "st' = st\<lparr>node_actor := a\<rparr>"
  | (committed) disp dh sig ev h evs' a where
      "handle_append (env_platform E) (actor_env H) dh sig
         [(key_prefix (env_platform E) (node_identity st), node_clock st + 1)] ev (node_actor st) = (h, evs', a)"
      "st' = st\<lparr>node_decisions := disp, node_clock := node_clock st + 1, node_actor := a\<rparr>"
proof -
  let ?d = "env_data e"
  consider "data_op ?d = SyncRes" | "data_op ?d = Infer" | "data_op ?d = Ping \<or> data_op ?d = SyncReq"
    by (cases "data_op ?d") auto
  then show ?thesis
  proof cases
    case 1
    show ?thesis
    proof (cases "payload_decode (env_wire E) (data_op ?d) (data_payload ?d)")
      case (SyncResponse ns)
      obtain new_count evs' a where a: "handle_merge (env_platform E) (actor_env H) ns (node_actor st) = (new_count, evs', a)"
        by (metis surj_pair)
      show ?thesis
        by (rule merged [OF a]) (use assms 1 SyncResponse a in \<open>simp add: process_def handle_sync_def\<close>)
    qed (rule idle [of "node_decisions st"]; use assms 1 in \<open>simp add: process_def handle_sync_def\<close>)+
  next
    case 2
    show ?thesis
    proof (cases "payload_decode (env_wire E) (data_op ?d) (data_payload ?d)")
      case (InferPrompt prompt)
      obtain res evs1 disp where r: "run_evaluation (env_text E) (blake (env_platform E)) (rules_now H) prompt (node_decisions st)
          = (res, evs1, disp)" by (metis surj_pair)
      note p = assms [unfolded process_def 2 OpCode.case handle_infer_def InferPrompt [unfolded 2] Payload.case r Let_def prod.case]
      show ?thesis
      proof (cases res)
        case (Inl m)
        then show ?thesis using p by (intro idle [of disp]) simp
      next
        case (Inr x)
        show ?thesis
        proof (cases "json_decision E (action_required x) (dec_status x)")
          case None
          then show ?thesis using p Inr by (intro idle [of disp]) simp
        next
          case (Some js)
          obtain evs2 st2 where c: "commit_inference E H ?d prompt js (st\<lparr>node_decisions := disp\<rparr>) = (evs2, st2)" by fastforce
          have st': "st' = st2" using p Inr Some c by simp
          show ?thesis
            using c
          proof (cases rule: commit_inference_cases)
            case unsigned
            then show ?thesis using st' by (intro idle [of disp]) simp
          next
            case (committed sig h evs' a)
            show ?thesis by (rule that(3)) (use committed(2,3) st' in simp_all)
          qed
        qed
      qed
    qed (rule idle [of "node_decisions st"]; use assms 2 in \<open>simp add: process_def handle_infer_def\<close>)+
  next
    case 3
    then have "st' = st" using assms by (auto simp: process_def)
    then show ?thesis by (intro idle [of "node_decisions st"]) simp
  qed
qed

lemma distinct_ticks:
  assumes "k < 2 ^ 64"
  shows "distinct (map (word_of_nat :: nat \<Rightarrow> u64) [1..<Suc k])"
proof -
  have "inj_on (word_of_nat :: nat \<Rightarrow> u64) {1..<Suc k}"
  proof (rule inj_onI)
    fix x y assume "x \<in> {1..<Suc k}" "y \<in> {1..<Suc k}" "(word_of_nat x :: u64) = word_of_nat y"
    then have "x < 2 ^ 64" "y < 2 ^ 64" "unat (word_of_nat x :: u64) = unat (word_of_nat y :: u64)" using assms by auto
    then show "x = y" by (simp add: unat_of_nat)
  qed
  then show ?thesis by (simp only: distinct_map distinct_upt set_upt simp_thms)
qed

text \<open>
  An honest node does not equivocate: the mutations of a node carry the ticks one, two, three and
  so on of its own clock, so no two of the first \<open>2 ^ 64 - 1\<close> share a tick.
\<close>

theorem own_ticks_increase:
  assumes "node_run E (node_start E H cfg seed existing) ticks st"
  shows "ticks = map word_of_nat [1..<Suc (length ticks)] \<and> node_clock st = word_of_nat (length ticks)
    \<and> (length ticks < 2 ^ 64 \<longrightarrow> distinct ticks)"
proof -
  have a: "ticks = map word_of_nat [1..<Suc (length ticks)] \<and> node_clock st = word_of_nat (length ticks)"
    using assms
  proof (induction rule: node_run.induct)
    case started
    then show ?case by (simp add: node_start_def Let_def)
  next
    case (delivered ticks st H e evs st')
    show ?case
      using delivered.hyps(2)
    proof (cases rule: process_cases)
      case (committed disp dh sig ev h evs' a)
      then have "node_clock st' = node_clock st + 1" by simp
      moreover have "x + 1 \<noteq> x" for x :: u64 by simp
      ultimately show ?thesis using delivered.IH by (simp add: add.commute)
    qed (use delivered.IH in simp_all)
  qed simp
  then show ?thesis using distinct_ticks by metis
qed

section \<open>Restarts\<close>

text \<open>Every row of the store is sealed with its key.\<close>

definition sealed :: "platform \<Rightarrow> bytes \<Rightarrow> PersistentStore option \<Rightarrow> bool" where
  "sealed P key s \<longleftrightarrow> (\<forall>x. s = Some x \<longrightarrow> cipher x = key
     \<and> (\<forall>t. db x = Some t \<longrightarrow> (\<forall>(h, v)\<in>set t. \<exists>nonce p. encrypt P key nonce p = Some v)))"

lemma bt_entry_subset: "set (bt_entry h c (\<lambda>_. c) t) \<subseteq> insert (h, c) (set t)"
  by (induction t) (auto split: if_splits)

lemma persist_sealed:
  assumes "sealed P key (store e)" "store e0 = store e"
  shows "sealed P key (store (persist P env h n e0))"
proof (cases "store e")
  case (Some x)
  show ?thesis
  proof (cases "save_node P (io_error env) h n x")
    case (Inr y)
    then obtain b c where c: "encrypt P (cipher x) (nonce_of h) b = Some c"
      "y = x\<lparr>db := Some (bt_entry h c (\<lambda>_. c) (case db x of None \<Rightarrow> [] | Some t \<Rightarrow> t))\<rparr>"
      by (auto simp: save_node_def Let_def split: sum.splits option.splits)
    have x: "cipher x = key" "\<forall>(k, v)\<in>set (case db x of None \<Rightarrow> [] | Some t \<Rightarrow> t). \<exists>nonce p. encrypt P key nonce p = Some v"
      using assms(1) Some by (cases "db x"; simp add: sealed_def)+
    have "\<forall>(k, v)\<in>set (bt_entry h c (\<lambda>_. c) (case db x of None \<Rightarrow> [] | Some t \<Rightarrow> t)). \<exists>nonce p. encrypt P key nonce p = Some v"
      using bt_entry_subset [of h c "case db x of None \<Rightarrow> [] | Some t \<Rightarrow> t"] x c(1) by fast
    then have "sealed P key (Some y)" using x(1) c(2) by (simp add: sealed_def)
    then show ?thesis using Inr Some assms(2) by (simp add: persist_def)
  qed (use Some assms in \<open>simp add: persist_def\<close>)
qed (use assms in \<open>simp add: persist_def\<close>)

lemma append_sealed:
  assumes "sealed P key (store (engine a))" "handle_append P env dh sig vc ev a = (h, evs, b)"
  shows "sealed P key (store (engine b))"
proof -
  obtain h' e where e: "append_mutation P env dh sig vc ev (engine a) = (h', e)" by fastforce
  let ?n = "new_node env dh sig vc ev (engine a)"
  have "sealed P key (store (appended P env h' ?n (engine a)))"
    unfolding appended_def Let_def by (simp, rule persist_sealed [OF assms(1)]) simp
  moreover have "store e = store (appended P env h' ?n (engine a))"
    using e by (auto simp: append_mutation_eq Let_def split: if_splits)
  moreover have "engine b = e \<or> engine b = snd (get_merkle_root P e)"
    using handle_append_engine [OF e, of _ evs b] assms(2) by (simp add: handle_def Let_def)
  moreover have "store (snd (get_merkle_root P e)) = store e"
    by (simp add: get_merkle_root_def Let_def split: option.split)
  ultimately show ?thesis by metis
qed

lemma merge_sealed:
  assumes "sealed P key (store (engine a))" "handle_merge P env ns a = (new_count, evs, b)"
  shows "sealed P key (store (engine b))"
proof -
  have step: "sealed P key (store (engine (snd (snd (merge_node P env st n)))))"
    if "sealed P key (store (engine (snd (snd st))))" for st n
    using that persist_sealed [OF that]
    by (auto simp: merge_node_def Let_def case_prod_beta)
  have "sealed P key (store (engine (snd (snd (foldl (merge_node P env) st ns)))))"
    if "sealed P key (store (engine (snd (snd st))))" for st
    using that by (induction ns arbitrary: st) (simp_all add: step)
  from this [of "(0, [], a)"] have "sealed P key (store (engine (snd (snd (foldl (merge_node P env) (0, [], a) ns)))))"
    using assms(1) by simp
  moreover have "store (engine b) = store (engine (snd (snd (foldl (merge_node P env) (0, [], a) ns))))"
    using assms(2) by (auto simp: handle_merge_def Let_def case_prod_beta recompute_heads_def split: if_splits)
  ultimately show ?thesis by simp
qed

lemma node_run_sealed:
  assumes "node_run E st0 ticks st" "sealed (env_platform E) key (store (engine (node_actor st0)))"
  shows "sealed (env_platform E) key (store (engine (node_actor st)))"
  using assms
proof (induction rule: node_run.induct)
  case (delivered ticks st H e evs st')
  then have s: "sealed (env_platform E) key (store (engine (node_actor st)))" by blast
  show ?case
    using delivered.hyps(2)
  proof (cases rule: process_cases)
    case (merged ns new_count evs' a)
    then show ?thesis using merge_sealed [OF s] by simp
  next
    case (committed disp dh sig ev h evs' a)
    then show ?thesis using append_sealed [OF s] by simp
  qed (use s in simp)
next
  case (asked ticks st env m r evs a)
  then have "engine a = snd (get_merkle_root (env_platform E) (engine (node_actor st)))"
    by (auto simp: handle_def case_prod_beta)
  then have "store (engine a) = store (engine (node_actor st))"
    by (simp add: get_merkle_root_def Let_def split: option.split)
  then show ?case using asked by simp
qed

lemma load_batched_foreign:
  assumes "\<forall>t. db s = Some t \<longrightarrow> (\<forall>row\<in>set t. decode_row P (cipher s) row = None)"
  shows "load_batched P io m s = []"
proof -
  have "foldl (batch_step P key m) ([], []) t = ([], [])" if "\<forall>row\<in>set t. decode_row P key row = None" for key t
    using that by (induction t) (simp_all add: batch_step_simps)
  then show ?thesis using assms by (simp add: load_batched_def split: option.split)
qed

lemma recover_nothing:
  assumes "load_batched P (io_error env) 1024 s = []"
  shows "get_by_hash (arena (recover P env (with_gc_threshold (Some s) gc))) = Map.empty"
    and "heads (recover P env (with_gc_threshold (Some s) gc)) = {}"
    and "store (recover P env (with_gc_threshold (Some s) gc)) = Some s"
  by (simp_all add: recover_def with_gc_threshold_def assms)

text \<open>What is encrypted with one key does not decrypt with another.\<close>

definition key_bound :: "platform \<Rightarrow> bool" where
  "key_bound P \<longleftrightarrow> (\<forall>k k' x y p c. k \<noteq> k' \<longrightarrow> encrypt P k x p = Some c \<longrightarrow> decrypt P k' y c = None)"

text \<open>
  C23: A restart forgets everything: every start makes a new identity, and the key of the store is
  derived from it. Whatever a node did, a node that is started on the database it left, with a seed
  that yields another key, has no nodes and no heads.
\<close>

theorem restart_forgets:
  assumes "key_bound (env_platform E)"
    and "hkdf (env_platform E) HKDF_SALT seed (ascii ''aimp-chacha20poly1305'') = Some key"
    and "hkdf (env_platform E) HKDF_SALT seed' (ascii ''aimp-chacha20poly1305'') = Some key'" "key \<noteq> key'"
    and "node_run E (node_start E H cfg seed (Inr None)) ticks st" "store (engine (node_actor st)) = Some s"
    and "st' = node_start E H' cfg' seed' (Inr (db s))"
  shows "get_by_hash (arena (engine (node_actor st'))) = Map.empty \<and> heads (engine (node_actor st')) = {}"
proof -
  let ?P = "env_platform E"
  have open1: "store_open ?P (Inr None) seed = Inr \<lparr>db = None, cipher = key\<rparr>"
    and open2: "store_open ?P (Inr (db s)) seed' = Inr \<lparr>db = db s, cipher = key'\<rparr>"
    using assms(2,3) by (simp_all add: store_open_def)
  have secret: "noise_static_secret (identity_new (env_wire E) x) = x" for x
    by (simp add: identity_new_def build_from_def)
  have "sealed ?P key (store (engine (node_actor (node_start E H cfg seed (Inr None)))))"
    using recover_nothing(3) [of ?P "actor_env H" "\<lparr>db = None, cipher = key\<rparr>"]
    by (simp add: node_start_def Let_def secret open1 actor_new_def load_batched_def sealed_def split: option.split)
  from node_run_sealed [OF assms(5) this]
  have "\<forall>t. db s = Some t \<longrightarrow> (\<forall>(h, v)\<in>set t. \<exists>nonce p. encrypt ?P key nonce p = Some v)"
    using assms(6) by (simp add: sealed_def)
  then have "\<forall>t. db s = Some t \<longrightarrow> (\<forall>row\<in>set t. decode_row ?P key' row = None)"
    using assms(1,4) unfolding key_bound_def by (fastforce simp: decode_row_def)
  then have "load_batched ?P (io_error (actor_env H')) 1024 \<lparr>db = db s, cipher = key'\<rparr> = []"
    by (intro load_batched_foreign) simp
  from recover_nothing(1,2) [OF this]
  show ?thesis by (simp add: assms(7) node_start_def Let_def secret open2 actor_new_def)
qed

section \<open>What a peer can do\<close>

text \<open>
  C24: Anyone can have an author denied: an envelope of any sender with two nodes that carry the
  same tick of an author and different data, whatever their signatures are, puts the author on the
  deny list, and both nodes are merged.
\<close>

theorem author_can_be_framed:
  assumes "data_op (env_data e) = SyncRes"
    and "payload_decode (env_wire E) SyncRes (data_payload (env_data e)) = SyncResponse [n, m]"
    and "vclock n = [(u, t)]" "vclock m = [(u, t)]" "data_hash n \<noteq> data_hash m"
    and "observed_ticks (quorum (node_actor st)) (u, t) = None"
    and "vacant_key (vacant (env_platform E))" "arena_ok (arena (engine (node_actor st)))"
    and "h = compute_hash (blake (env_platform E)) n" "h' = compute_hash (blake (env_platform E)) m" "h \<noteq> h'"
    and "get_by_hash (arena (engine (node_actor st))) h = None" "get_by_hash (arena (engine (node_actor st))) h' = None"
    and "process E H e st = (evs, st')"
  shows "u \<in> denied (quorum (node_actor st')) \<and> StateMerged 2 \<in> set evs"
proof -
  let ?P = "env_platform E" let ?a = "node_actor st" let ?q = "quorum ?a"
  let ?st1 = "merge_node ?P (actor_env H) (0, [], ?a) n"
  let ?st2 = "merge_node ?P (actor_env H) ?st1 m"
  let ?q1 = "snd (check_equivocation n h ?q)"
  have q1: "quorum (snd (snd ?st1)) = (case evidence n of None \<Rightarrow> ?q1
      | Some ev \<Rightarrow> snd (observe ?P (take 32 (node_signature n)) ev ?q1))"
    using assms(9,12) by (simp add: merge_node_def arena_contains_iff Let_def case_prod_beta split: option.split)
  have c1: "denied (quorum (snd (snd ?st1))) = denied ?q"
    "u \<notin> denied ?q \<Longrightarrow> observed_ticks (quorum (snd (snd ?st1))) (u, t) = Some (data_hash n, h)"
    using assms(3,6) by (simp_all add: q1 check_equivocation_def split: option.split)
  have new: "get_by_hash (arena (engine (snd (snd ?st1)))) h' = None"
    using arena.lookup_add [OF assms(7,8), of h n] assms(9,11-13) by (simp add: merge_node_arena)
  let ?q2 = "snd (check_equivocation m h' (quorum (snd (snd ?st1))))"
  have "quorum (snd (snd ?st2)) = (case evidence m of None \<Rightarrow> ?q2
      | Some ev \<Rightarrow> snd (observe ?P (take 32 (node_signature m)) ev ?q2))"
    using assms(10) new by (simp add: merge_node_def arena_contains_iff Let_def case_prod_beta split: option.split)
  moreover have "u \<in> denied ?q2"
    using c1 assms(4,5) by (cases "u \<in> denied ?q") (simp_all add: check_equivocation_def Let_def)
  ultimately have d: "u \<in> denied (quorum (snd (snd ?st2)))" by (simp split: option.split)
  have two: "fst ?st2 = 2"
    using merge_node_added [of ?P "actor_env H" ?st1 m] merge_node_added [of ?P "actor_env H" "(0, [], ?a)" n] new assms(9,10,12)
    by simp
  obtain new_count evs' b where b: "handle_merge ?P (actor_env H) [n, m] ?a = (new_count, evs', b)" by (metis surj_pair)
  then have "quorum b = quorum (snd (snd ?st2))" "new_count = 2"
    using two by (auto simp: handle_merge_def Let_def case_prod_beta)
  then show ?thesis
    using assms(1,2,14) b d by (auto simp: process_def handle_sync_def)
qed

section \<open>Evaluations\<close>

text \<open>A node on the sample libraries, with a cipher for keys of one byte that binds the key.\<close>

definition bound_platform :: platform where
  "bound_platform = sample_platform\<lparr>
     encrypt := \<lambda>k nonce p. if length k = 1 then Some (k @ nonce @ p) else None,
     decrypt := \<lambda>k nonce c. if length k = 1 \<and> take (Suc (length nonce)) c = k @ nonce
       then Some (drop (Suc (length nonce)) c) else None\<rparr>"

lemma bound_platform_ok: "key_bound bound_platform"
proof -
  have "take (Suc (length y)) (k @ x) = k' @ y \<Longrightarrow> length k = 1 \<Longrightarrow> length k' = 1 \<Longrightarrow> k = k'"
    for k k' x y :: bytes by (cases k; cases k') auto
  then show ?thesis by (auto simp: key_bound_def bound_platform_def)
qed

definition sample_node_env :: node_env where
  "sample_node_env = \<lparr>env_platform = bound_platform, env_wire = sample_wire, env_text = sample_text,
     json_decision = \<lambda>b s. Some s\<rparr>"

definition sample_handler :: handler_env where
  "sample_handler = \<lparr>actor_env = sample_env, rules_now = Missing, unix_time = 0\<rparr>"

abbreviation "started_node \<equiv> node_start sample_node_env sample_handler config_defaults [7] (Inr None)"

theorem own_ticks_increase_witness:
  "\<exists>evs st. process sample_node_env sample_handler \<lparr>env_data = sample_data 9 3, env_signature = [9]\<rparr> started_node = (evs, st)
    \<and> node_clock st = 1"
proof -
  let ?e = "\<lparr>env_data = sample_data 9 3, env_signature = [9]\<rparr>"
  obtain evs st where p: "process sample_node_env sample_handler ?e started_node = (evs, st)" by fastforce
  have "node_clock (snd (process sample_node_env sample_handler ?e started_node)) \<noteq> node_clock started_node"
  proof -
    have utf8: "utf8_valid (ascii ''flow'')" by code_simp
    show ?thesis
      using utf8 by (simp add: process_def handle_infer_def sample_data_def payload_decode_def from_utf8_def sample_node_env_def
          run_evaluation_def Let_def case_prod_beta node_start_def dispatcher_new_def try_hot_reload_def sample_handler_def
          from_file_def evaluate_def rule_evaluate_def commit_inference_def sign_def sample_wire_def sample_enc_data_def
          identity_new_def build_from_def)
  qed
  then have "node_run sample_node_env started_node [node_clock st] st"
    using node_run.delivered [OF node_run.started p] p by simp
  from own_ticks_increase [OF this] show ?thesis using p by auto
qed

text \<open>A delivered envelope with the nodes of the codec.\<close>

definition sample_sync :: "u8 \<Rightarrow> AimpEnvelope" where
  "sample_sync b = \<lparr>env_data = (sample_data 9 3)\<lparr>data_op := SyncRes, data_payload := [b]\<rparr>, env_signature = [9]\<rparr>"

lemma sample_sync_simps [simp]:
  "data_op (env_data (sample_sync b)) = SyncRes" "data_payload (env_data (sample_sync b)) = [b]"
  by (simp_all add: sample_sync_def)

lemma started_node_simps [simp]:
  "store (engine (node_actor started_node)) = Some \<lparr>db = None, cipher = [7]\<rparr>"
  "get_by_hash (arena (engine (node_actor started_node))) = Map.empty" "arena_ok (arena (engine (node_actor started_node)))"
  "quorum (node_actor started_node) = quorum_new 2"
  by (simp_all add: node_start_def Let_def identity_new_def build_from_def store_open_def sample_node_env_def bound_platform_def
      sample_platform_def actor_new_def recover_def with_gc_threshold_def load_batched_def config_defaults_def arena_ok_new
      split: option.split)

lemma bound_platform_vacant [simp]: "vacant_key (vacant bound_platform)" "blake bound_platform = sample_hash"
  using sample_vacant by (simp_all add: bound_platform_def)

lemma sample_node_env_simps [simp]:
  "env_platform sample_node_env = bound_platform" "env_wire sample_node_env = sample_wire"
  by (simp_all add: sample_node_env_def)

lemma sample_node_simps: "vclock (sample_node ps b) = [(''n'', 1)]" "data_hash (sample_node ps b) = replicate 32 b"
  by (simp_all add: sample_node_def)

theorem author_can_be_framed_witness:
  "''n'' \<in> denied (quorum (node_actor (snd (process sample_node_env sample_handler (sample_sync 2) started_node))))"
proof -
  obtain evs st where p: "process sample_node_env sample_handler (sample_sync 2) started_node = (evs, st)" by fastforce
  have "payload_decode (env_wire sample_node_env) SyncRes [2] = SyncResponse [sample_node [] 1, sample_node [] 2]"
    by (simp add: payload_decode_def sample_wire_def)
  then show ?thesis
    using author_can_be_framed [of "sample_sync 2" sample_node_env "sample_node [] 1" "sample_node [] 2" "''n''" 1 started_node
        sample_first sample_second sample_handler evs st] p sample_hashes(1)
    by (simp add: sample_node_simps quorum_new_def)
qed

theorem restart_forgets_witness:
  "\<exists>s. store (engine (node_actor (snd (process sample_node_env sample_handler (sample_sync 1) started_node)))) = Some s
    \<and> db s \<noteq> None
    \<and> get_by_hash (arena (engine (node_actor (node_start sample_node_env sample_handler config_defaults [8] (Inr (db s)))))) = Map.empty"
proof -
  let ?n = "sample_node [] 1" let ?h = "sample_first"
  obtain evs st where p: "process sample_node_env sample_handler (sample_sync 1) started_node = (evs, st)" by fastforce
  have pl: "payload_decode (env_wire sample_node_env) SyncRes [1] = SyncResponse [?n]"
    by (simp add: payload_decode_def sample_node_env_def sample_wire_def)
  have enc: "to_vec bound_platform ?n = Inr [1]"
    by (simp add: bound_platform_def sample_platform_def sample_encode_def Let_def) (simp add: sample_node_def)
  obtain s where s: "save_node bound_platform None ?h ?n \<lparr>db = None, cipher = [7]\<rparr> = Inr s" "db s \<noteq> None"
    by (simp add: save_node_def enc Let_def) (simp add: bound_platform_def)
  have "store (engine (snd (snd (merge_node bound_platform sample_env (0, [], node_actor started_node) ?n)))) = Some s"
    using s by (simp add: merge_node_def arena_contains_iff Let_def case_prod_beta persist_def sample_env_def)
  then have "store (engine (node_actor st)) = Some s"
    using p pl by (auto simp: process_def handle_sync_def sample_node_env_def sample_handler_def handle_merge_def Let_def
        case_prod_beta recompute_heads_def)
  moreover have "node_run sample_node_env started_node ([] @ (if node_clock st = node_clock started_node then [] else [node_clock st])) st"
    by (rule node_run.delivered [OF node_run.started p])
  ultimately have "get_by_hash (arena (engine (node_actor (node_start sample_node_env sample_handler config_defaults [8] (Inr (db s)))))) = Map.empty"
    using restart_forgets [of sample_node_env "[7]" "[7]" "[8]" "[8]"] bound_platform_ok
    by (simp add: sample_node_env_def) (simp add: bound_platform_def sample_platform_def)
  then show ?thesis using \<open>store (engine (node_actor st)) = Some s\<close> s(2) p by simp
qed

end
