(* ===== verification/Node_Tasks.thy ===== *)
theory Node_Tasks
  imports Node
begin

text \<open>
  The tasks of a node (\<open>aimp_node/src/main.rs\<close>, the dispatch loop and the handlers as they really run):
  the loop spawns a task for every envelope, and tasks interleave. A step of a task is what it does up
  to its next access to shared state: the log, the hash of the rules file, the decision engine, the
  clock or the actor. A task that waits for the answer of the actor is in the state \<open>Merging\<close> or
  \<open>Appending\<close>; the actor may serve the waiting tasks in any order, which covers every order that the
  channel can have. Each step has its own environment, so the rules file may change between any two.
\<close>

section \<open>The code\<close>

datatype task =
    Received AimpData
  | Merging "DagNode list"
  | Merged nat
  | Prompted AimpData string
  | Reloading AimpData string RuleEngine
  | Reloaded AimpData string
  | Decided AimpData string Decision
  | Ticked string string bytes u64
  | Appending Hash32 bytes vector_clock "AiEvidence option"
  | Appended Hash32
  | Finished

text \<open>
  One step of a task. \<open>Prompted\<close> and \<open>Reloading\<close> are the two halves of the hot reload, which locks the
  hash of the rules first and the engine later.
\<close>

definition step_received :: "node_env \<Rightarrow> AimpData \<Rightarrow> task \<times> SystemEvent list" where
  "step_received E d =
     (case data_op d of
        SyncRes \<Rightarrow>
          (case payload_decode (env_wire E) (data_op d) (data_payload d) of
             SyncResponse ns \<Rightarrow> (Merging ns, []) | _ \<Rightarrow> (Finished, []))
      | Infer \<Rightarrow>
          (case payload_decode (env_wire E) (data_op d) (data_payload d) of
             InferPrompt prompt \<Rightarrow> (Prompted d prompt, [EvAiInference prompt ''Pending...'']) | _ \<Rightarrow> (Finished, []))
      | _ \<Rightarrow> (Finished, []))"

definition step_prompted ::
  "node_env \<Rightarrow> rules_file \<Rightarrow> AimpData \<Rightarrow> string \<Rightarrow> DecisionDispatcher \<Rightarrow> task \<times> DecisionDispatcher" where
  "step_prompted E f d prompt disp =
     (if rules_path disp = None \<or> f = Missing then (Reloaded d prompt, disp)
      else case from_file (env_text E) (blake (env_platform E)) f of
        None \<Rightarrow> (Reloaded d prompt, disp)
      | Some re \<Rightarrow>
          let new_hash = engine_hash (blake (env_platform E)) (Rules re)
          in if rules_hash disp = Some new_hash then (Reloaded d prompt, disp)
             else (Reloading d prompt re, disp\<lparr>rules_hash := Some new_hash\<rparr>))"

definition step_decided ::
  "node_env \<Rightarrow> AimpData \<Rightarrow> string \<Rightarrow> Decision \<Rightarrow> NodeState \<Rightarrow> task \<times> SystemEvent list \<times> NodeState" where
  "step_decided E d prompt x n =
     (case json_decision E (action_required x) (dec_status x) of
        None \<Rightarrow> (Finished, [Status ''[ERROR] Failed to serialize AI decision''], n)
      | Some js \<Rightarrow>
          (case sign (env_wire E) (node_identity n) d of
             Inl _ \<Rightarrow> (Finished, [Status ''[ERROR] Failed to sign mutation''], n)
           | Inr sig \<Rightarrow> (Ticked prompt js (env_signature sig) (node_clock n + 1), [], n\<lparr>node_clock := node_clock n + 1\<rparr>)))"

definition step_ticked ::
  "node_env \<Rightarrow> handler_env \<Rightarrow> string \<Rightarrow> string \<Rightarrow> bytes \<Rightarrow> u64 \<Rightarrow> NodeState \<Rightarrow> task" where
  "step_ticked E H prompt js sig tick n =
     Appending (blake (env_platform E) (ascii js)) sig [(key_prefix (env_platform E) (node_identity n), tick)]
       (Some (infer_evidence E H prompt js (node_decisions n)))"

fun advance :: "node_env \<Rightarrow> handler_env \<Rightarrow> task \<Rightarrow> NodeState \<Rightarrow> task \<times> SystemEvent list \<times> NodeState" where
  "advance E H (Received d) n = (let (t, evs) = step_received E d in (t, evs, n))"
| "advance E H (Merging ns) n =
     (let (new_count, evs, a) = handle_merge (env_platform E) (actor_env H) ns (node_actor n)
      in (Merged new_count, evs, n\<lparr>node_actor := a\<rparr>))"
| "advance E H (Merged new_count) n = (Finished, if new_count > 0 then [StateMerged new_count] else [], n)"
| "advance E H (Prompted d prompt) n =
     (let (t, disp) = step_prompted E (rules_now H) d prompt (node_decisions n) in (t, [], n\<lparr>node_decisions := disp\<rparr>))"
| "advance E H (Reloading d prompt re) n =
     (Reloaded d prompt, if disp_log (node_decisions n) then [reload_event] else [],
      n\<lparr>node_decisions := (node_decisions n)\<lparr>disp_engine := Rules re\<rparr>\<rparr>)"
| "advance E H (Reloaded d prompt) n =
     (case evaluate (env_text E) (disp_engine (node_decisions n)) prompt of
        Inl _ \<Rightarrow> (Finished, [], n)
      | Inr x \<Rightarrow> (Decided d prompt x,
          if disp_log (node_decisions n) then [EvAiInference prompt (debug_decision (env_text E) x)] else [], n))"
| "advance E H (Decided d prompt x) n = step_decided E d prompt x n"
| "advance E H (Ticked prompt js sig tick) n = (step_ticked E H prompt js sig tick n, [], n)"
| "advance E H (Appending dh sig vc ev) n =
     (let (h, evs, a) = handle_append (env_platform E) (actor_env H) dh sig vc ev (node_actor n)
      in (Appended dh, evs, n\<lparr>node_actor := a\<rparr>))"
| "advance E H (Appended dh) n =
     (Finished, [MutationCommitted (hex_encode (env_platform E) dh) (key_prefix (env_platform E) (node_identity n))], n)"
| "advance E H Finished n = (Finished, [], n)"

record NodeTasks =
  tasks_node :: NodeState
  tasks :: "task list"

text \<open>The message that a waiting task has for the actor, with the environment in which it is handled.\<close>

definition sent :: "handler_env \<Rightarrow> task \<Rightarrow> (call_env \<times> CrdtMsg) list" where
  "sent H t =
     (case t of
        Merging ns \<Rightarrow> [(actor_env H, Merge ns)]
      | Appending dh sig vc ev \<Rightarrow> [(actor_env H, Append dh sig vc ev)]
      | _ \<Rightarrow> [])"

text \<open>The runs of the node, with the messages that the actor handled: any task may make the next step.\<close>

inductive tasks_run :: "node_env \<Rightarrow> NodeState \<Rightarrow> (call_env \<times> CrdtMsg) list \<Rightarrow> NodeTasks \<Rightarrow> bool" for E n0 where
  started: "tasks_run E n0 [] \<lparr>tasks_node = n0, tasks = []\<rparr>"
| spawned: "tasks_run E n0 ms \<lparr>tasks_node = n, tasks = ts\<rparr>
    \<Longrightarrow> tasks_run E n0 ms \<lparr>tasks_node = n, tasks = ts @ [Received d]\<rparr>"
| stepped: "tasks_run E n0 ms \<lparr>tasks_node = n, tasks = ts\<rparr> \<Longrightarrow> i < length ts \<Longrightarrow> advance E H (ts ! i) n = (t, evs, n')
    \<Longrightarrow> tasks_run E n0 (ms @ sent H (ts ! i)) \<lparr>tasks_node = n', tasks = ts[i := t]\<rparr>"
| asked: "tasks_run E n0 ms \<lparr>tasks_node = n, tasks = ts\<rparr> \<Longrightarrow> handle (env_platform E) env GetRoot (node_actor n) = (r, evs, a)
    \<Longrightarrow> tasks_run E n0 (ms @ [(env, GetRoot)]) \<lparr>tasks_node = n\<lparr>node_actor := a\<rparr>, tasks = ts\<rparr>"

section \<open>A task alone\<close>

text \<open>A task that runs without others, to its end.\<close>

primrec alone :: "nat \<Rightarrow> node_env \<Rightarrow> handler_env \<Rightarrow> task \<Rightarrow> NodeState \<Rightarrow> task \<times> SystemEvent list \<times> NodeState" where
  "alone 0 E H t n = (t, [], n)"
| "alone (Suc k) E H t n =
     (let (t, evs, n) = advance E H t n; (t, evs', n) = alone k E H t n in (t, evs @ evs', n))"

lemma alone_finished [simp]: "alone k E H Finished n = (Finished, [], n)"
  by (induction k) simp_all

lemma alone_add: "alone (j + k) E H t n =
  (let (t, evs, n) = alone j E H t n; (t, evs', n) = alone k E H t n in (t, evs @ evs', n))"
  by (induction j arbitrary: t n) (simp_all add: Let_def case_prod_beta)

lemma alone_decided:
  "json_decision E (action_required x) (dec_status x) = Some js \<Longrightarrow>
   alone (Suc (Suc (Suc (Suc k)))) E H (Decided d prompt x) n = (Finished, commit_inference E H d prompt js n)"
  by (simp add: step_decided_def step_ticked_def commit_inference_def infer_evidence_def Let_def case_prod_beta split: sum.split)

lemma alone_reloaded:
  "alone (Suc (Suc (Suc (Suc (Suc k))))) E H (Reloaded d prompt) n =
     (case evaluate (env_text E) (disp_engine (node_decisions n)) prompt of
        Inl _ \<Rightarrow> (Finished, [], n)
      | Inr x \<Rightarrow>
          let evs = (if disp_log (node_decisions n) then [EvAiInference prompt (debug_decision (env_text E) x)] else [])
          in case json_decision E (action_required x) (dec_status x) of
               None \<Rightarrow> (Finished, evs @ [Status ''[ERROR] Failed to serialize AI decision''], n)
             | Some js \<Rightarrow> (let (evs', n) = commit_inference E H d prompt js n in (Finished, evs @ evs', n)))"
proof (cases "evaluate (env_text E) (disp_engine (node_decisions n)) prompt")
  case (Inr x)
  show ?thesis
  proof (cases "json_decision E (action_required x) (dec_status x)")
    case None
    then show ?thesis using Inr by (simp add: step_decided_def)
  next
    case (Some js)
    show ?thesis
      by (subst alone.simps(2)) (simp add: Inr Some alone_decided [OF Some] Let_def case_prod_beta del: alone.simps)
  qed
qed simp

lemma alone_prompted:
  "alone 7 E H (Prompted d prompt) n =
     (let (evs, disp) = try_hot_reload (env_text E) (blake (env_platform E)) (rules_now H) (node_decisions n);
          (t, evs', n) = alone 5 E H (Reloaded d prompt) (n\<lparr>node_decisions := disp\<rparr>)
      in (t, evs @ evs', n))"
proof -
  have more: "alone 6 E H (Reloaded d prompt) m = alone 5 E H (Reloaded d prompt) m" for m
    using alone_reloaded [of 1 E H d prompt m] alone_reloaded [of 0 E H d prompt m] by (simp add: eval_nat_numeral del: alone.simps)
  have seven: "alone 7 E H t m = (let (t, evs, m) = advance E H t m; (t, evs', m) = alone 6 E H t m in (t, evs @ evs', m))"
    and six: "alone 6 E H t m = (let (t, evs, m) = advance E H t m; (t, evs', m) = alone 5 E H t m in (t, evs @ evs', m))" for t m
    using alone.simps(2) [of 6 E H t m] alone.simps(2) [of 5 E H t m] by simp_all
  show ?thesis
  proof (cases "rules_path (node_decisions n) = None \<or> rules_now H = Missing
      \<or> from_file (env_text E) (blake (env_platform E)) (rules_now H) = None")
    case True
    then show ?thesis
      by (subst seven) (auto simp: step_prompted_def try_hot_reload_def more Let_def split: option.splits)
  next
    case False
    then obtain path re where re: "rules_path (node_decisions n) = Some path" "rules_now H \<noteq> Missing"
      "from_file (env_text E) (blake (env_platform E)) (rules_now H) = Some re" by auto
    let ?h = "engine_hash (blake (env_platform E)) (Rules re)"
    show ?thesis
    proof (cases "rules_hash (node_decisions n) = Some ?h")
      case True
      then show ?thesis using re by (subst seven) (simp add: step_prompted_def try_hot_reload_def more Let_def)
    next
      case new: False
      show ?thesis using re new
        by (subst seven) (simp add: step_prompted_def try_hot_reload_def Let_def case_prod_beta six [of "Reloading d prompt re"])
    qed
  qed
qed

text \<open>
  The two views of the handlers agree: \<open>process\<close>, which runs a handler to its end, is the task that
  no other task interrupts. So what \<open>Node\<close> shows of \<open>process\<close> holds of such tasks.
\<close>

lemma alone_is_process:
  "alone 8 E H (Received (env_data e)) n = (Finished, process E H e n)"
proof -
  let ?d = "env_data e"
  have eight: "alone 8 E H t m = (let (t, evs, m) = advance E H t m; (t, evs', m) = alone 7 E H t m in (t, evs @ evs', m))" for t m
    using alone.simps(2) [of 7 E H t m] by simp
  consider "data_op ?d = SyncRes" | "data_op ?d = Infer" | "data_op ?d = Ping \<or> data_op ?d = SyncReq"
    by (cases "data_op ?d") auto
  then show ?thesis
  proof cases
    case 1
    have "alone 7 E H (Merging ns) n = (let (new_count, evs, a) = handle_merge (env_platform E) (actor_env H) ns (node_actor n)
        in (Finished, evs @ (if new_count > 0 then [StateMerged new_count] else []), n\<lparr>node_actor := a\<rparr>))" for ns
      by (simp add: eval_nat_numeral Let_def case_prod_beta)
    then show ?thesis using 1
      by (subst eight) (auto simp: step_received_def process_def handle_sync_def Let_def case_prod_beta split: Payload.split)
  next
    case 2
    show ?thesis
    proof (cases "payload_decode (env_wire E) (data_op ?d) (data_payload ?d)")
      case (InferPrompt prompt)
      have five: "alone 5 E H (Reloaded ?d prompt) m = alone (Suc (Suc (Suc (Suc (Suc 0))))) E H (Reloaded ?d prompt) m" for m
        by (simp add: eval_nat_numeral del: alone.simps)
      show ?thesis
        by (subst eight) (simp add: 2 InferPrompt [unfolded 2] step_received_def process_def handle_infer_def run_evaluation_def
            alone_prompted five alone_reloaded Let_def case_prod_beta del: alone.simps split: sum.split option.split)
    qed (use 2 in \<open>subst eight, simp add: step_received_def process_def handle_infer_def\<close>)+
  next
    case 3
    then show ?thesis by (subst eight) (auto simp: step_received_def process_def)
  qed
qed

section \<open>The actor serializes the tasks\<close>

fun actor_seq :: "platform \<Rightarrow> CrdtActor \<Rightarrow> (call_env \<times> CrdtMsg) list \<Rightarrow> CrdtActor" where
  "actor_seq P a [] = a"
| "actor_seq P a ((env, m) # ms) = actor_seq P (snd (snd (handle P env m a))) ms"

text \<open>The conditions of a run of the actor: iteration lists every element once, appended hashes are new.\<close>

fun seq_fresh :: "platform \<Rightarrow> CrdtActor \<Rightarrow> (call_env \<times> CrdtMsg) list \<Rightarrow> bool" where
  "seq_fresh P a [] \<longleftrightarrow> True"
| "seq_fresh P a ((env, m) # ms) \<longleftrightarrow> iter_ok env \<and> fresh_for P env m a \<and> seq_fresh P (snd (snd (handle P env m a))) ms"

lemma actor_seq_append: "actor_seq P a (ms @ ms') = actor_seq P (actor_seq P a ms) ms'"
  by (induction P a ms rule: actor_seq.induct) auto

lemma seq_fresh_run:
  assumes "actor_run P a0 ns a" "seq_fresh P a ms"
  shows "actor_run P a0 (ns @ map snd ms) (actor_seq P a ms)"
  using assms
proof (induction P a ms arbitrary: ns rule: actor_seq.induct)
  case (2 P a env m ms)
  obtain r evs b where h: "handle P env m a = (r, evs, b)" by (metis surj_pair)
  have "actor_run P a0 (ns @ [m]) b"
    using actor_run.handled [OF "2.prems"(1) _ _ h] "2.prems"(2) by simp
  then show ?case using "2.IH" [of "ns @ [m]"] "2.prems"(2) h by simp
qed simp

lemma advance_actor:
  assumes "advance E H t n = (t', evs, n')"
  shows "node_actor n' = actor_seq (env_platform E) (node_actor n) (sent H t) \<and> node_identity n' = node_identity n"
proof (cases t)
  case (Received d)
  then show ?thesis using assms by (simp add: sent_def case_prod_beta)
next
  case (Decided d prompt x)
  then show ?thesis using assms by (auto simp: step_decided_def sent_def split: option.splits sum.splits)
next
  case (Reloaded d prompt)
  then show ?thesis using assms by (auto simp: sent_def split: sum.splits)
qed (use assms in \<open>auto simp: sent_def handle_def case_prod_beta\<close>)

lemma tasks_run_actor:
  assumes "tasks_run E n0 ms st"
  shows "node_actor (tasks_node st) = actor_seq (env_platform E) (node_actor n0) ms
    \<and> node_identity (tasks_node st) = node_identity n0"
  using assms
proof (induction rule: tasks_run.induct)
  case (stepped ms n ts i H t evs n')
  then show ?case using advance_actor [OF stepped.hyps(3)] by (simp add: actor_seq_append)
next
  case (asked ms n ts env r evs a)
  then show ?case by (simp add: actor_seq_append)
qed simp_all

text \<open>
  C31: The tasks of a node cannot break the invariant of the actor: however they interleave, the state of
  the actor is that of a sequential run of the messages it handled, so every node is stored under its
  content hash, the heads are the nodes nobody refers to, and a root request answers with the hash
  of the sorted heads.
\<close>

theorem concurrent_actor_invariant:
  assumes "vacant_key (vacant (env_platform E))" "actor_ok (env_platform E) t (node_actor n0)"
    and "tasks_run E n0 ms st" "seq_fresh (env_platform E) (node_actor n0) ms"
  shows "actor_run (env_platform E) (node_actor n0) (map snd ms) (node_actor (tasks_node st))
    \<and> heads (engine (node_actor (tasks_node st))) = frontier (arena (engine (node_actor (tasks_node st))))
    \<and> (\<forall>h m. get_by_hash (arena (engine (node_actor (tasks_node st)))) h = Some m
         \<longrightarrow> h = compute_hash (blake (env_platform E)) m)
    \<and> fst (handle (env_platform E) env' GetRoot (node_actor (tasks_node st)))
      = RootReply (root_of (blake (env_platform E)) (frontier (arena (engine (node_actor (tasks_node st))))))"
proof -
  let ?P = "env_platform E" let ?a = "node_actor (tasks_node st)"
  have run: "actor_run ?P (node_actor n0) (map snd ms) ?a"
    using seq_fresh_run [OF actor_run.idle assms(4)] tasks_run_actor [OF assms(3)] by simp
  have "actor_ok ?P t ?a" by (rule actor_run_ok [OF assms(1) run assms(2)])
  then have d: "dag_ok ?P (engine ?a)" by (simp add: actor_ok_def)
  then have "fst (handle ?P env' GetRoot ?a) = RootReply (root_of (blake ?P) (frontier (arena (engine ?a))))"
    using get_merkle_root_correct(1) [of ?P "engine ?a"] by (simp add: handle_def dag_ok_def case_prod_beta)
  then show ?thesis using run d unfolding dag_ok_def by blast
qed

section \<open>The clock\<close>

text \<open>The ticks of the mutations that the actor was sent, and those that tasks still hold.\<close>

definition msg_ticks :: "CrdtMsg \<Rightarrow> u64 list" where
  "msg_ticks m = (case m of Append dh sig vc ev \<Rightarrow> map snd vc | _ \<Rightarrow> [])"

definition task_ticks :: "task \<Rightarrow> u64 list" where
  "task_ticks t = (case t of Ticked prompt js sig tick \<Rightarrow> [tick] | Appending dh sig vc ev \<Rightarrow> map snd vc | _ \<Rightarrow> [])"

abbreviation ticks_of :: "(call_env \<times> CrdtMsg) list \<Rightarrow> task list \<Rightarrow> u64 list" where
  "ticks_of ms ts \<equiv> concat (map (msg_ticks \<circ> snd) ms) @ concat (map task_ticks ts)"

lemma mset_concat_update:
  assumes "i < length ts"
  shows "mset (concat (map f (ts[i := t]))) + mset (f (ts ! i)) = mset (concat (map f ts)) + mset (f t)"
proof -
  have "map f ts = map f (take i ts) @ f (ts ! i) # map f (drop (Suc i) ts)"
    using arg_cong [OF id_take_nth_drop [OF assms], of "map f"] by simp
  moreover have "map f (ts[i := t]) = map f (take i ts) @ f t # map f (drop (Suc i) ts)"
    using assms by (simp add: upd_conv_take_nth_drop)
  ultimately show ?thesis by (simp add: add.assoc add.left_commute add.commute)
qed

lemma advance_ticks:
  assumes "advance E H t n = (t', evs, n')"
  obtains (kept) "node_clock n' = node_clock n"
      "mset (task_ticks t') + mset (concat (map (msg_ticks \<circ> snd) (sent H t))) = mset (task_ticks t)"
  | (taken) "node_clock n' = node_clock n + 1" "task_ticks t' = [node_clock n + 1]" "task_ticks t = []" "sent H t = []"
proof (cases t)
  case (Received d)
  then show ?thesis using assms
    by (intro kept) (auto simp: step_received_def sent_def task_ticks_def case_prod_beta split: OpCode.splits Payload.splits)
next
  case (Prompted d prompt)
  then show ?thesis using assms
    by (intro kept) (auto simp: step_prompted_def sent_def task_ticks_def Let_def split: if_splits option.splits prod.splits)
next
  case (Reloaded d prompt)
  then show ?thesis using assms by (intro kept) (auto simp: sent_def task_ticks_def split: sum.splits)
next
  case (Decided d prompt x)
  note a = assms [unfolded Decided advance.simps step_decided_def]
  show ?thesis
  proof (cases "json_decision E (action_required x) (dec_status x)")
    case (Some js)
    show ?thesis
    proof (cases "sign (env_wire E) (node_identity n) d")
      case (Inr e)
      then show ?thesis using a Some Decided by (intro taken) (auto simp: sent_def task_ticks_def)
    qed (use a Some Decided in \<open>intro kept; auto simp: sent_def task_ticks_def\<close>)
  qed (use a Decided in \<open>intro kept; auto simp: sent_def task_ticks_def\<close>)
next
  case (Ticked prompt js sig tick)
  then show ?thesis using assms by (intro kept) (auto simp: sent_def task_ticks_def step_ticked_def)
qed (use assms in \<open>intro kept; auto simp: sent_def task_ticks_def msg_ticks_def case_prod_beta\<close>)+

lemma tasks_run_ticks:
  assumes "tasks_run E n0 ms st" "node_clock n0 = 0"
  shows "\<exists>k. node_clock (tasks_node st) = word_of_nat k
    \<and> mset (ticks_of ms (tasks st)) = mset (map word_of_nat [1..<Suc k])"
  using assms(1)
proof (induction rule: tasks_run.induct)
  case started
  then show ?case using assms(2) by (intro exI [of _ 0]) simp
next
  case (spawned ms n ts d)
  then show ?case by (simp add: task_ticks_def)
next
  case (stepped ms n ts i H t evs n')
  from stepped.IH obtain k where k: "node_clock n = word_of_nat k"
    "mset (ticks_of ms ts) = mset (map word_of_nat [1..<Suc k])"
    unfolding NodeTasks.simps by blast
  note u = mset_concat_update [OF stepped.hyps(2), of task_ticks t]
  show ?case
    using stepped.hyps(3)
  proof (cases rule: advance_ticks)
    case kept
    have "mset (ticks_of (ms @ sent H (ts ! i)) (ts[i := t])) = mset (ticks_of ms ts)"
      using u by (simp add: kept(2) [symmetric] add.assoc add.left_commute add.commute)
    then show ?thesis unfolding NodeTasks.simps kept(1) using k by (intro exI [of _ k] conjI) (simp_all only:)
  next
    case taken
    have "mset (ticks_of (ms @ sent H (ts ! i)) (ts[i := t])) = mset (ticks_of ms ts) + {#word_of_nat (Suc k)#}"
      using u taken k(1) by (simp add: add.commute)
    then have "mset (ticks_of (ms @ sent H (ts ! i)) (ts[i := t])) = mset (map word_of_nat [1..<Suc (Suc k)])"
      unfolding k(2) by simp
    then show ?thesis unfolding NodeTasks.simps taken(1)
      by (intro exI [of _ "Suc k"] conjI) (simp add: k(1), simp only:)
  qed
next
  case (asked ms n ts env r evs a)
  then show ?case by (simp add: msg_ticks_def)
qed

text \<open>
  C32: No tick is lost and none is used twice, however the tasks interleave: the ticks of the mutations sent
  to the actor and of the tasks that still hold one are together the numbers from one to the clock.
\<close>

theorem ticks_accounted:
  assumes "tasks_run E n0 ms st" "node_clock n0 = 0"
  shows "\<exists>k. node_clock (tasks_node st) = word_of_nat k
    \<and> mset (ticks_of ms (tasks st)) = mset (map word_of_nat [1..<Suc k])
    \<and> (k < 2 ^ 64 \<longrightarrow> distinct (ticks_of ms (tasks st)))"
proof -
  obtain k where k: "node_clock (tasks_node st) = word_of_nat k"
    "mset (ticks_of ms (tasks st)) = mset (map word_of_nat [1..<Suc k])"
    using tasks_run_ticks [OF assms] by blast
  have "distinct (ticks_of ms (tasks st))" if "k < 2 ^ 64"
    using mset_eq_imp_distinct_iff [OF k(2)] distinct_ticks [OF that] by blast
  then show ?thesis using k by blast
qed

section \<open>Handlers end\<close>

text \<open>How many steps a task has at most before its end.\<close>

primrec steps_left :: "task \<Rightarrow> nat" where
  "steps_left (Received d) = 8"
| "steps_left (Merging ns) = 2"
| "steps_left (Merged k) = 1"
| "steps_left (Prompted d prompt) = 7"
| "steps_left (Reloading d prompt re) = 6"
| "steps_left (Reloaded d prompt) = 5"
| "steps_left (Decided d prompt x) = 4"
| "steps_left (Ticked prompt js sig tick) = 3"
| "steps_left (Appending dh sig vc ev) = 2"
| "steps_left (Appended dh) = 1"
| "steps_left Finished = 0"

lemma advance_steps_left:
  assumes "advance E H t n = (t', evs, n')" "t \<noteq> Finished"
  shows "steps_left t' < steps_left t"
proof (cases t)
  case (Received d)
  then show ?thesis using assms
    by (auto simp: step_received_def case_prod_beta split: OpCode.splits Payload.splits)
next
  case (Prompted d prompt)
  then show ?thesis using assms
    by (auto simp: step_prompted_def Let_def split: if_splits option.splits prod.splits)
next
  case (Decided d prompt x)
  then show ?thesis using assms by (auto simp: step_decided_def split: option.splits sum.splits)
next
  case (Reloaded d prompt)
  then show ?thesis using assms by (auto split: sum.splits)
next
  case (Ticked prompt js sig tick)
  then show ?thesis using assms by (auto simp: step_ticked_def)
qed (use assms in \<open>auto simp: case_prod_beta\<close>)

lemma sum_list_replaced:
  fixes f :: "'a \<Rightarrow> nat"
  assumes "i < length ts" "f t < f (ts ! i)"
  shows "sum_list (map f (ts[i := t])) < sum_list (map f ts)"
proof -
  have "sum_list (map f ts) = sum_list (map f (take i ts)) + f (ts ! i) + sum_list (map f (drop (Suc i) ts))"
    using arg_cong [OF id_take_nth_drop [OF assms(1)], of "\<lambda>xs. sum_list (map f xs)"] by simp
  then show ?thesis using assms by (simp add: upd_conv_take_nth_drop)
qed

lemma tasks_run_finishes:
  assumes "tasks_run E n0 ms \<lparr>tasks_node = n, tasks = ts\<rparr>"
  shows "\<exists>ms' n'. tasks_run E n0 (ms @ ms') \<lparr>tasks_node = n', tasks = replicate (length ts) Finished\<rparr>"
  using assms
proof (induction "sum_list (map steps_left ts)" arbitrary: ms n ts rule: less_induct)
  case less
  show ?case
  proof (cases "\<exists>i<length ts. ts ! i \<noteq> Finished")
    case True
    then obtain i where i: "i < length ts" "ts ! i \<noteq> Finished" by blast
    obtain t evs n' where a: "advance E undefined (ts ! i) n = (t, evs, n')" by (metis surj_pair)
    have less: "sum_list (map steps_left (ts[i := t])) < sum_list (map steps_left ts)"
      by (rule sum_list_replaced [OF i(1) advance_steps_left [OF a i(2)]])
    from less.hyps [OF this tasks_run.stepped [OF less.prems i(1) a]]
    obtain ms' m where "tasks_run E n0 ((ms @ sent undefined (ts ! i)) @ ms')
        \<lparr>tasks_node = m, tasks = replicate (length (ts[i := t])) Finished\<rparr>" by blast
    then show ?thesis by (intro exI [of _ "sent undefined (ts ! i) @ ms'"] exI [of _ m]) simp
  next
    case False
    then have "ts = replicate (length ts) Finished" by (metis in_set_conv_nth replicate_length_same)
    then show ?thesis using less.prems by (intro exI [of _ "[]"] exI [of _ n]) simp
  qed
qed

text \<open>
  Every handler ends: a task has at most eight steps, each step of a task brings it nearer to its end
  whatever the others do and whatever the surroundings answer, and from every state of the node there is
  a run in which all tasks have finished.
\<close>

theorem handlers_finish:
  assumes "tasks_run E n0 ms \<lparr>tasks_node = n, tasks = ts\<rparr>"
  shows "sum_list (map steps_left ts) \<le> 8 * length ts
    \<and> (\<forall>i H t evs n'. i < length ts \<and> ts ! i \<noteq> Finished \<and> advance E H (ts ! i) n = (t, evs, n')
         \<longrightarrow> sum_list (map steps_left (ts[i := t])) < sum_list (map steps_left ts))
    \<and> (\<exists>ms' n'. tasks_run E n0 (ms @ ms') \<lparr>tasks_node = n', tasks = replicate (length ts) Finished\<rparr>)"
proof (intro conjI allI impI)
  have "steps_left t \<le> 8" for t by (cases t) simp_all
  then show "sum_list (map steps_left ts) \<le> 8 * length ts"
    using sum_list_mono [of ts steps_left "\<lambda>_. 8"] by (simp add: sum_list_triv)
  show "sum_list (map steps_left (ts[i := t])) < sum_list (map steps_left ts)"
    if "i < length ts \<and> ts ! i \<noteq> Finished \<and> advance E H (ts ! i) n = (t, evs, n')" for i H t evs n'
    using sum_list_replaced [of i ts steps_left t] advance_steps_left [of E H "ts ! i" n t evs n'] that by blast
  show "\<exists>ms' n'. tasks_run E n0 (ms @ ms') \<lparr>tasks_node = n', tasks = replicate (length ts) Finished\<rparr>"
    by (rule tasks_run_finishes [OF assms])
qed

section \<open>Races\<close>

text \<open>What the actor does with a mutation, as far as the graph is concerned.\<close>

lemma handle_append_extends:
  assumes "iter_ok env" "vacant_key (vacant P)" "dag_ok P (engine a)"
    and "m = new_node env dh sig vc ev (engine a)" "h = compute_hash (blake P) m" "fresh_hash h (arena (engine a))"
    and "handle_append P env dh sig vc ev a = (g, evs, b)"
  shows "dag_ok P (engine b)" "heads (engine b) = {h}" "get_by_hash (arena (engine b)) h = Some m"
    "get_by_hash (arena (engine b)) \<subseteq>\<^sub>m (get_by_hash (arena (engine a)))(h \<mapsto> m)"
proof -
  obtain h' e where e: "append_mutation P env dh sig vc ev (engine a) = (h', e)" by fastforce
  then have h': "h' = h" using assms(4,5) by (auto simp: append_mutation_eq Let_def)
  note x = append_extends [OF assms(1-3) e [unfolded h'] assms(6)]
  have sub: "get_by_hash (arena e) \<subseteq>\<^sub>m (get_by_hash (arena (engine a)))(h \<mapsto> m)"
    using x assms(4) by (auto split: if_splits)
  have b: "engine b = e \<or> engine b = snd (get_merkle_root P e)"
    using handle_append_engine [OF e, of "HashReply g" evs b] assms(7) by (simp add: handle_def)
  have r: "arena (snd (get_merkle_root P e)) = arena e" "heads (snd (get_merkle_root P e)) = heads e"
    by (simp_all add: get_merkle_root_def Let_def split: option.split)
  show "dag_ok P (engine b)" using b x get_merkle_root_dag_ok [of P e] by metis
  show "heads (engine b) = {h}" using b x r by metis
  show "get_by_hash (arena (engine b)) h = Some m" using b x r assms(4) by metis
  show "get_by_hash (arena (engine b)) \<subseteq>\<^sub>m (get_by_hash (arena (engine a)))(h \<mapsto> m)" using b sub r by metis
qed

lemma fresh_extended:
  assumes "get_by_hash b \<subseteq>\<^sub>m (get_by_hash a)(h' \<mapsto> m)" "fresh_hash h a" "h \<noteq> h'" "h \<notin> set (parents m)"
  shows "fresh_hash h b"
proof -
  have old: "g = h' \<and> x = m \<or> get_by_hash a g = Some x" if "get_by_hash b g = Some x" for g x
    using that assms(1) unfolding map_le_def by (metis domI fun_upd_apply option.inject)
  have "get_by_hash b h = None"
    using old [of h] assms(2,3) by (cases "get_by_hash b h") (auto simp: fresh_hash_def)
  moreover have "h \<notin> Range (links b)"
    using old assms(2,4) unfolding fresh_hash_def links_def by blast
  ultimately show ?thesis by (simp add: fresh_hash_def)
qed

lemma iter_one:
  assumes "iter_ok env"
  shows "iter_order env {h} = [h]"
proof -
  have d: "set (iter_order env {h}) = {h}" "distinct (iter_order env {h})" using assms by simp_all
  then obtain x ys where x: "iter_order env {h} = x # ys" by (cases "iter_order env {h}") auto
  then have "x = h" using d by auto
  moreover have "ys = []" using d x by (cases ys) auto
  ultimately show ?thesis using x by simp
qed

text \<open>
  C33: The order of the ticks is not the order of the graph: of two accepted inferences that run together,
  the first to take a tick may be the second to reach the actor. There is an interleaving after which
  the node with the later tick is the only parent of the node with the earlier one.
\<close>

theorem ticks_can_swap:
  assumes "tasks_run E n0 ms \<lparr>tasks_node = n, tasks = ts\<rparr>"
    and "i < length ts" "j < length ts" "i \<noteq> j" "ts ! i = Decided d p x" "ts ! j = Decided d' p' x'"
    and "json_decision E (action_required x) (dec_status x) = Some js" "sign (env_wire E) (node_identity n) d = Inr e"
    and "json_decision E (action_required x') (dec_status x') = Some js'" "sign (env_wire E) (node_identity n) d' = Inr e'"
    and "vacant_key (vacant (env_platform E))" "iter_ok (actor_env H)" "iter_ok (actor_env H')"
    and "dag_ok (env_platform E) (engine (node_actor n))"
    and "u = key_prefix (env_platform E) (node_identity n)" "c = node_clock n" "B = blake (env_platform E)"
    and "m' = new_node (actor_env H') (B (ascii js')) (env_signature e') [(u, c + 2)]
      (Some (infer_evidence E H' p' js' (node_decisions n))) (engine (node_actor n))" "h' = compute_hash B m'"
    and "m = \<lparr>parents = [h'], node_signature = env_signature e, data_hash = B (ascii js), vclock = [(u, c + 1)],
      evidence = Some (infer_evidence E H p js (node_decisions n))\<rparr>" "h = compute_hash B m"
    and "fresh_hash h' (arena (engine (node_actor n)))" "fresh_hash h (arena (engine (node_actor n)))" "h \<noteq> h'"
  shows "\<exists>ms' n' ts'. tasks_run E n0 (ms @ ms') \<lparr>tasks_node = n', tasks = ts'\<rparr>
    \<and> ts' = ts[i := Appended (B (ascii js)), j := Appended (B (ascii js'))]
    \<and> heads (engine (node_actor n')) = {h} \<and> get_by_hash (arena (engine (node_actor n'))) h = Some m
    \<and> parents m = [h'] \<and> vclock m = [(u, c + 1)] \<and> vclock m' = [(u, c + 2)]"
proof -
  let ?P = "env_platform E" let ?ev = "Some (infer_evidence E H p js (node_decisions n))"
  let ?ev' = "Some (infer_evidence E H' p' js' (node_decisions n))"
  let ?n1 = "n\<lparr>node_clock := c + 1\<rparr>" let ?n2 = "n\<lparr>node_clock := c + 2\<rparr>"
  let ?s = "env_signature e" let ?s' = "env_signature e'"
  let ?t1 = "Ticked p js ?s (c + 1)" let ?t2 = "Ticked p' js' ?s' (c + 2)"
  let ?a1 = "Appending (B (ascii js)) ?s [(u, c + 1)] ?ev"
  let ?a2 = "Appending (B (ascii js')) ?s' [(u, c + 2)] ?ev'"
  have r1: "tasks_run E n0 ms \<lparr>tasks_node = ?n1, tasks = ts[i := ?t1]\<rparr>"
    using tasks_run.stepped [OF assms(1,2), of H ?t1 "[]" ?n1] assms(5,7,8,16) by (simp add: step_decided_def sent_def)
  have "advance E H' (ts[i := ?t1] ! j) ?n1 = (?t2, [], ?n2)"
    using assms(4,6,9,10) by (simp add: step_decided_def)
  from tasks_run.stepped [OF r1 _ this]
  have r2: "tasks_run E n0 ms \<lparr>tasks_node = ?n2, tasks = ts[i := ?t1, j := ?t2]\<rparr>"
    using assms(3,4,6) by (simp add: sent_def)
  have "advance E H (ts[i := ?t1, j := ?t2] ! i) ?n2 = (?a1, [], ?n2)"
    using assms(2,4,15,17) by (simp add: step_ticked_def infer_evidence_def key_prefix_def)
  from tasks_run.stepped [OF r2 _ this]
  have r3: "tasks_run E n0 ms \<lparr>tasks_node = ?n2, tasks = ts[i := ?a1, j := ?t2]\<rparr>"
    using assms(2-4) by (simp add: sent_def list_update_swap [of i j])
  have "advance E H' (ts[i := ?a1, j := ?t2] ! j) ?n2 = (?a2, [], ?n2)"
    using assms(3,15,17) by (simp add: step_ticked_def infer_evidence_def key_prefix_def)
  from tasks_run.stepped [OF r3 _ this]
  have r4: "tasks_run E n0 ms \<lparr>tasks_node = ?n2, tasks = ts[i := ?a1, j := ?a2]\<rparr>"
    using assms(3) by (simp add: sent_def)
  obtain g' evs' a' where a': "handle_append ?P (actor_env H') (B (ascii js')) ?s' [(u, c + 2)] ?ev' (node_actor n) = (g', evs', a')"
    by (metis surj_pair)
  note x' = handle_append_extends [OF assms(13,11,14) assms(18) _ _ a', folded assms(17), OF assms(19,22)]
  obtain g evs a where a: "handle_append ?P (actor_env H) (B (ascii js)) ?s [(u, c + 1)] ?ev a' = (g, evs, a)"
    by (metis surj_pair)
  have m: "m = new_node (actor_env H) (B (ascii js)) ?s [(u, c + 1)] ?ev (engine a')"
    using x'(2) iter_one [OF assms(12)] assms(20) by (simp add: new_node_def)
  have "set (parents m') = heads (engine (node_actor n))"
    using assms(13,14,18) by (simp add: new_node_def dag_ok_def engine_ok_def)
  moreover have "heads (engine (node_actor n)) \<subseteq> dom (get_by_hash (arena (engine (node_actor n))))"
    using assms(14) unfolding dag_ok_def frontier_def by blast
  ultimately have "h \<notin> set (parents m')" using assms(23) unfolding fresh_hash_def by blast
  note fresh = fresh_extended [OF x'(4) assms(23,24) this]
  note x = handle_append_extends [OF assms(12,11) x'(1) m _ _ a, folded assms(17), OF assms(21) fresh]
  have r5: "tasks_run E n0 (ms @ sent H' ?a2) \<lparr>tasks_node = ?n2\<lparr>node_actor := a'\<rparr>, tasks = ts[i := ?a1, j := Appended (B (ascii js'))]\<rparr>"
    using tasks_run.stepped [OF r4, of j H' "Appended (B (ascii js'))" evs' "?n2\<lparr>node_actor := a'\<rparr>"] assms(3) a' by simp
  have r6: "tasks_run E n0 ((ms @ sent H' ?a2) @ sent H ?a1) \<lparr>tasks_node = ?n2\<lparr>node_actor := a\<rparr>,
      tasks = ts[i := Appended (B (ascii js)), j := Appended (B (ascii js'))]\<rparr>"
    using tasks_run.stepped [OF r5, of i H "Appended (B (ascii js))" evs "?n2\<lparr>node_actor := a\<rparr>"] assms(2,4) a
    by (simp add: list_update_swap [of i j])
  show ?thesis
    by (intro exI [of _ "sent H' ?a2 @ sent H ?a1"] exI [of _ "?n2\<lparr>node_actor := a\<rparr>"] exI conjI, rule r6 [unfolded append_assoc])
       (use x assms(18,20) in \<open>simp_all add: new_node_def\<close>)
qed

text \<open>
  C34: A reload can be lost for good: the hash of the rules is stored under a lock that is released before
  the engine is replaced. Two tasks that see two versions of the file can end with the engine of the
  older and the hash of the newer, and from then on the newer file counts as loaded: no task that finds
  it changes anything.
\<close>

theorem reload_race:
  assumes "tasks_run E n0 ms \<lparr>tasks_node = n, tasks = ts\<rparr>"
    and "i < length ts" "j < length ts" "i \<noteq> j" "ts ! i = Prompted d p" "ts ! j = Prompted d' p'"
    and "rules_path (node_decisions n) \<noteq> None" "B = blake (env_platform E)"
    and "from_file (env_text E) B f = Some r" "from_file (env_text E) B f' = Some r'"
    and "engine_hash B (Rules r) \<noteq> engine_hash B (Rules r')" "rules_hash (node_decisions n) \<noteq> Some (engine_hash B (Rules r))"
  shows "\<exists>n'. tasks_run E n0 ms \<lparr>tasks_node = n', tasks = ts[i := Reloaded d p, j := Reloaded d' p']\<rparr>
    \<and> disp_engine (node_decisions n') = Rules r \<and> rules_hash (node_decisions n') = Some (engine_hash B (Rules r'))
    \<and> (\<forall>d p. step_prompted E f' d p (node_decisions n') = (Reloaded d p, node_decisions n'))"
proof -
  obtain h :: handler_env where h: "rules_now h = f" by (metis handler_env.select_convs(2))
  obtain h' :: handler_env where h': "rules_now h' = f'" by (metis handler_env.select_convs(2))
  let ?D = "node_decisions n" let ?x = "engine_hash B (Rules r)" let ?x' = "engine_hash B (Rules r')"
  let ?n1 = "n\<lparr>node_decisions := ?D\<lparr>rules_hash := Some ?x\<rparr>\<rparr>"
  let ?n2 = "n\<lparr>node_decisions := ?D\<lparr>rules_hash := Some ?x'\<rparr>\<rparr>"
  let ?n3 = "n\<lparr>node_decisions := ?D\<lparr>rules_hash := Some ?x', disp_engine := Rules r'\<rparr>\<rparr>"
  let ?n4 = "n\<lparr>node_decisions := ?D\<lparr>rules_hash := Some ?x', disp_engine := Rules r\<rparr>\<rparr>"
  have present: "f \<noteq> Missing" "f' \<noteq> Missing" using assms(9,10) by (auto simp: from_file_def)
  have r1: "tasks_run E n0 ms \<lparr>tasks_node = ?n1, tasks = ts[i := Reloading d p r]\<rparr>"
    using tasks_run.stepped [OF assms(1,2), of h "Reloading d p r" "[]" ?n1] assms(5,7-9,12) h present
    by (simp add: step_prompted_def sent_def)
  have "advance E h' (ts[i := Reloading d p r] ! j) ?n1 = (Reloading d' p' r', [], ?n2)"
    using assms(4,6-8,10,11) h' present by (simp add: step_prompted_def Let_def)
  from tasks_run.stepped [OF r1 _ this]
  have r2: "tasks_run E n0 ms \<lparr>tasks_node = ?n2, tasks = ts[i := Reloading d p r, j := Reloading d' p' r']\<rparr>"
    using assms(3,4,6) by (simp add: sent_def)
  obtain evs where "advance E h (ts[i := Reloading d p r, j := Reloading d' p' r'] ! j) ?n2 = (Reloaded d' p', evs, ?n3)"
    using assms(3) by simp
  from tasks_run.stepped [OF r2 _ this]
  have r3: "tasks_run E n0 ms \<lparr>tasks_node = ?n3, tasks = ts[i := Reloading d p r, j := Reloaded d' p']\<rparr>"
    using assms(3) by (simp add: sent_def)
  obtain evs' where "advance E h (ts[i := Reloading d p r, j := Reloaded d' p'] ! i) ?n3 = (Reloaded d p, evs', ?n4)"
    using assms(2,4) by simp
  from tasks_run.stepped [OF r3 _ this]
  have "tasks_run E n0 ms \<lparr>tasks_node = ?n4, tasks = ts[i := Reloaded d p, j := Reloaded d' p']\<rparr>"
    using assms(2,4) by (simp add: sent_def list_update_swap [of i j])
  moreover have "step_prompted E f' d p (node_decisions ?n4) = (Reloaded d p, node_decisions ?n4)" for d p
    using assms(8,10) by (simp add: step_prompted_def)
  ultimately show ?thesis by (intro exI [of _ ?n4]) simp
qed

section \<open>Evaluations\<close>

abbreviation "flow_data \<equiv> sample_data 9 3"

abbreviation "flow_decision \<equiv> \<lparr>target_entity = ''hydraulic_system'', dec_status = ''WARNING'', action_required = True\<rparr>"

lemma started_node_decisions [simp]:
  "node_decisions started_node = \<lparr>disp_engine = Rules default_rules, rules_path = Some ''aimp_rules.json'',
     rules_hash = None, disp_log = True\<rparr>"
  "node_clock started_node = 0" "node_identity started_node = build_from sample_wire [7]"
  by (simp_all add: node_start_def Let_def dispatcher_new_def sample_handler_def from_file_def identity_new_def)

lemma flow_received: "advance sample_node_env H (Received flow_data) n = (Prompted flow_data ''flow'', [EvAiInference ''flow'' ''Pending...''], n)"
proof -
  have "from_utf8 (ascii ''flow'') = Some ''flow''" by code_simp
  then show ?thesis by (simp add: step_received_def sample_data_def payload_decode_def)
qed

lemma stepped_at:
  assumes "tasks_run E n0 ms \<lparr>tasks_node = n, tasks = ts\<rparr>" "advance E H t0 n = (t, evs, n')" "i < length ts"
    "ts ! i = t0" "ms' = ms @ sent H t0" "ts' = ts[i := t]"
  shows "tasks_run E n0 ms' \<lparr>tasks_node = n', tasks = ts'\<rparr>"
  using tasks_run.stepped [OF assms(1,3)] assms(2,4-6) by simp

lemma two_prompted:
  "tasks_run sample_node_env started_node [] \<lparr>tasks_node = started_node,
     tasks = [Prompted flow_data ''flow'', Prompted flow_data ''flow'']\<rparr>"
proof -
  have r: "tasks_run sample_node_env started_node [] \<lparr>tasks_node = started_node, tasks = [Received flow_data, Received flow_data]\<rparr>"
    using tasks_run.spawned [OF tasks_run.spawned [OF tasks_run.started]] by simp
  show ?thesis
    by (rule stepped_at [where i = 1, OF stepped_at [where i = 0, OF r flow_received] flow_received]) (simp add: sent_def)+
qed

lemma flow_decided:
  "evaluate (env_text sample_node_env) (Rules default_rules) ''flow'' = Inr flow_decision"
proof -
  have "rule_evaluate sample_text default_rules ''flow'' = Inr flow_decision" by code_simp
  then show ?thesis by (simp add: evaluate_def sample_node_env_def)
qed

lemma two_decided:
  "tasks_run sample_node_env started_node [] \<lparr>tasks_node = started_node,
     tasks = [Decided flow_data ''flow'' flow_decision, Decided flow_data ''flow'' flow_decision]\<rparr>"
proof -
  have p: "advance sample_node_env sample_handler (Prompted flow_data ''flow'') started_node
      = (Reloaded flow_data ''flow'', [], started_node)"
    by (simp add: step_prompted_def sample_handler_def)
  have r: "advance sample_node_env sample_handler (Reloaded flow_data ''flow'') started_node
      = (Decided flow_data ''flow'' flow_decision,
         [EvAiInference ''flow'' (debug_decision (env_text sample_node_env) flow_decision)], started_node)"
    by (simp add: flow_decided)
  show ?thesis
    by (rule stepped_at [where i = 1, OF stepped_at [where i = 0, OF stepped_at [where i = 1, OF stepped_at [where i = 0, OF two_prompted p] p] r] r])
       (simp add: sent_def)+
qed

theorem reload_race_witness:
  "\<exists>n ts. tasks_run sample_node_env started_node [] \<lparr>tasks_node = n, tasks = ts\<rparr>
    \<and> rules_hash (node_decisions n) = Some (engine_hash sample_hash (Rules (the (from_file sample_text sample_hash (Content ''B'')))))
    \<and> disp_engine (node_decisions n) = Rules (the (from_file sample_text sample_hash (Content ''A'')))"
proof -
  have f: "from_file sample_text sample_hash (Content ''A'') = Some (the (from_file sample_text sample_hash (Content ''A'')))"
    "from_file sample_text sample_hash (Content ''B'') = Some (the (from_file sample_text sample_hash (Content ''B'')))"
    by (simp_all add: from_file_def sample_text_def)
  have h: "engine_hash sample_hash (Rules (the (from_file sample_text sample_hash (Content ''A''))))
      \<noteq> engine_hash sample_hash (Rules (the (from_file sample_text sample_hash (Content ''B''))))" by code_simp
  have E: "env_text sample_node_env = sample_text" by (simp add: sample_node_env_def)
  show ?thesis
    using reload_race [OF two_prompted, of 0 1 flow_data "''flow''" flow_data "''flow''" sample_hash
        "Content ''A''" "the (from_file sample_text sample_hash (Content ''A''))"
        "Content ''B''" "the (from_file sample_text sample_hash (Content ''B''))"] f h E by auto
qed

theorem handlers_finish_witness:
  "\<exists>ms n. tasks_run sample_node_env started_node ms \<lparr>tasks_node = n, tasks = [Finished, Finished]\<rparr>"
  using handlers_finish [OF two_decided] by (auto simp: eval_nat_numeral)

theorem ticks_accounted_witness:
  "\<exists>n. tasks_run sample_node_env started_node [] \<lparr>tasks_node = n, tasks = [Ticked ''flow'' ''WARNING'' [7] 2, Ticked ''flow'' ''WARNING'' [7] 1]\<rparr>
    \<and> (\<exists>k. node_clock n = word_of_nat k \<and> mset [2, 1] = mset (map word_of_nat [1..<Suc k] :: u64 list))"
proof -
  have d: "advance sample_node_env sample_handler (Decided flow_data ''flow'' flow_decision) n
      = (Ticked ''flow'' ''WARNING'' [7] (node_clock n + 1), [], n\<lparr>node_clock := node_clock n + 1\<rparr>)"
    if "node_identity n = build_from sample_wire [7]" for n
    using that by (simp add: step_decided_def sign_def sample_node_env_def sample_wire_def sample_enc_data_def sample_data_def build_from_def)
  let ?m = "started_node\<lparr>node_clock := 1\<rparr>" let ?n = "started_node\<lparr>node_clock := 2\<rparr>"
  have d1: "advance sample_node_env sample_handler (Decided flow_data ''flow'' flow_decision) started_node
      = (Ticked ''flow'' ''WARNING'' [7] 1, [], ?m)"
    and d2: "advance sample_node_env sample_handler (Decided flow_data ''flow'' flow_decision) ?m
      = (Ticked ''flow'' ''WARNING'' [7] 2, [], ?n)"
    using d [of started_node] d [of ?m] by simp_all
  have r: "tasks_run sample_node_env started_node [] \<lparr>tasks_node = ?n, tasks = [Ticked ''flow'' ''WARNING'' [7] 2, Ticked ''flow'' ''WARNING'' [7] 1]\<rparr>"
    by (rule stepped_at [where i = 0, OF stepped_at [where i = 1, OF two_decided d1] d2]) (simp add: sent_def)+
  from ticks_accounted [OF this] show ?thesis
    by (intro exI [of _ ?n] conjI r) (auto simp: task_ticks_def)
qed

lemma started_actor:
  "node_actor started_node = actor_new bound_platform sample_env (Some \<lparr>db = None, cipher = [7]\<rparr>) True 2
     (gc_mutation_threshold config_defaults)"
  by (simp add: node_start_def Let_def identity_new_def build_from_def store_open_def sample_node_env_def bound_platform_def
      sample_platform_def sample_handler_def config_defaults_def)

lemma started_engine:
  "dag_ok bound_platform (engine (node_actor started_node))" "heads (engine (node_actor started_node)) = {}"
  "fresh_hash h (arena (engine (node_actor started_node)))"
proof -
  show d: "dag_ok bound_platform (engine (node_actor started_node))"
    using recover_empty [OF sample_env_ok, of bound_platform "[7]"] unfolding started_actor by (simp add: actor_new_def)
  have "heads (engine (node_actor started_node)) = frontier (arena (engine (node_actor started_node)))"
    using d unfolding dag_ok_def by blast
  then show "heads (engine (node_actor started_node)) = {}" by (simp add: frontier_def)
  show "fresh_hash h (arena (engine (node_actor started_node)))" by (simp add: fresh_hash_def links_def)
qed

lemma sample_hash_ends:
  assumes "sample_hash (x @ y) = sample_hash (x' @ y')" "length y = length y'" "length y \<le> 32"
  shows "y = y'"
proof -
  have "take (length y) (sample_hash (x @ y)) = rev y" "take (length y) (sample_hash (x' @ y')) = rev y'"
    using assms(2,3) by (simp_all add: sample_hash_def min_def)
  then show ?thesis using assms(1) by simp
qed

theorem ticks_can_swap_witness:
  "\<exists>ms n h m. tasks_run sample_node_env started_node ms \<lparr>tasks_node = n,
      tasks = [Appended (sample_hash (ascii ''WARNING'')), Appended (sample_hash (ascii ''WARNING''))]\<rparr>
    \<and> heads (engine (node_actor n)) = {h} \<and> get_by_hash (arena (engine (node_actor n))) h = Some m
    \<and> map snd (vclock m) = [1]"
proof -
  let ?E = sample_node_env let ?H = sample_handler let ?H' = "sample_handler\<lparr>unix_time := 1\<rparr>"
  let ?u = "key_prefix bound_platform (build_from sample_wire [7])" let ?dh = "sample_hash (ascii ''WARNING'')"
  let ?ev = "\<lambda>H. infer_evidence ?E H ''flow'' ''WARNING'' (node_decisions started_node)"
  define m' where "m' = new_node (actor_env ?H') ?dh [7] [(?u, 0 + 2)] (Some (?ev ?H')) (engine (node_actor started_node))"
  define m where "m = \<lparr>parents = [compute_hash sample_hash m'], node_signature = [7], data_hash = ?dh, vclock = [(?u, 0 + 1)],
      evidence = Some (?ev ?H)\<rparr>"
  obtain x x' where x: "node_bytes m = x @ le_bytes64 (timestamp (?ev ?H))" "node_bytes m' = x' @ le_bytes64 (timestamp (?ev ?H'))"
    by (simp add: m_def m'_def new_node_def node_bytes_def evidence_bytes_def)
  have "le_bytes64 (timestamp (?ev ?H)) \<noteq> le_bytes64 (timestamp (?ev ?H'))"
    "length (le_bytes64 (timestamp (?ev ?H))) = length (le_bytes64 (timestamp (?ev ?H')))"
    "length (le_bytes64 (timestamp (?ev ?H))) \<le> 32"
    by (simp_all add: infer_evidence_def sample_handler_def le_bytes64_def)
  then have new: "compute_hash sample_hash m \<noteq> compute_hash sample_hash m'"
    using sample_hash_ends unfolding compute_hash_def x by blast
  have s: "json_decision ?E True ''WARNING'' = Some ''WARNING''"
    "sign (env_wire ?E) (build_from sample_wire [7]) flow_data = Inr \<lparr>env_data = flow_data, env_signature = [7]\<rparr>"
    by (simp_all add: sign_def sample_node_env_def sample_wire_def sample_enc_data_def sample_data_def build_from_def)
  have H: "actor_env ?H = sample_env" "actor_env ?H' = sample_env" by (simp_all add: sample_handler_def)
  have "\<exists>ms' n' ts'. tasks_run ?E started_node ([] @ ms') \<lparr>tasks_node = n', tasks = ts'\<rparr>
    \<and> ts' = [Decided flow_data ''flow'' flow_decision, Decided flow_data ''flow'' flow_decision][0 := Appended ?dh, 1 := Appended ?dh]
    \<and> heads (engine (node_actor n')) = {compute_hash sample_hash m}
    \<and> get_by_hash (arena (engine (node_actor n'))) (compute_hash sample_hash m) = Some m
    \<and> parents m = [compute_hash sample_hash m'] \<and> vclock m = [(?u, 0 + 1)] \<and> vclock m' = [(?u, 0 + 2)]"
    by (rule ticks_can_swap [OF two_decided, where B = sample_hash and u = ?u and c = 0 and h' = "compute_hash sample_hash m'"
          and d = flow_data and p = "''flow''" and x = flow_decision and js = "''WARNING''"
          and d' = flow_data and p' = "''flow''" and x' = flow_decision and js' = "''WARNING''" and H = ?H and H' = ?H'
          and e = "\<lparr>env_data = flow_data, env_signature = [7]\<rparr>" and e' = "\<lparr>env_data = flow_data, env_signature = [7]\<rparr>"])
       (simp_all only: new not_False_eq_True, simp_all only: bound_platform_vacant sample_node_env_simps started_node_decisions
          H s started_engine m_def m'_def sample_env_ok, simp_all add: s [simplified])
  then show ?thesis
  proof (elim exE conjE)
    fix ms n ts
    assume n: "tasks_run ?E started_node ([] @ ms) \<lparr>tasks_node = n, tasks = ts\<rparr>"
      "ts = [Decided flow_data ''flow'' flow_decision, Decided flow_data ''flow'' flow_decision][0 := Appended ?dh, 1 := Appended ?dh]"
      "heads (engine (node_actor n)) = {compute_hash sample_hash m}"
      "get_by_hash (arena (engine (node_actor n))) (compute_hash sample_hash m) = Some m" "vclock m = [(?u, 0 + 1)]"
    have t: "ts = [Appended ?dh, Appended ?dh]" "map snd (vclock m) = [1]" unfolding n(2,5) by simp_all
    show ?thesis
      by (rule exI [of _ ms], rule exI [of _ n], rule exI [of _ "compute_hash sample_hash m"], rule exI [of _ m])
         (intro conjI n(1) [unfolded append_Nil t(1)] n(3,4) t(2))
  qed
qed

theorem concurrent_actor_invariant_witness:
  "\<exists>n. tasks_run sample_node_env started_node [(sample_env, Merge [sample_node [] 1])] \<lparr>tasks_node = n, tasks = [Merged 1]\<rparr>
    \<and> heads (engine (node_actor n)) = frontier (arena (engine (node_actor n)))"
proof -
  let ?ns = "[sample_node [] 1]" let ?d = "env_data (sample_sync 1)"
  have s: "tasks_run sample_node_env started_node [] \<lparr>tasks_node = started_node, tasks = [Received ?d]\<rparr>"
    using tasks_run.spawned [OF tasks_run.started] by simp
  have d: "advance sample_node_env sample_handler (Received ?d) started_node = (Merging ?ns, [], started_node)"
    by (simp add: step_received_def payload_decode_def sample_wire_def)
  obtain k evs a where a: "handle_merge bound_platform sample_env ?ns (node_actor started_node) = (k, evs, a)" by (metis surj_pair)
  have "k = 1"
    using a by (auto simp: handle_merge_def merge_node_def arena_contains_iff Let_def case_prod_beta)
  then have m: "advance sample_node_env sample_handler (Merging ?ns) started_node = (Merged 1, evs, started_node\<lparr>node_actor := a\<rparr>)"
    using a by (simp add: sample_handler_def)
  have r: "tasks_run sample_node_env started_node [(sample_env, Merge ?ns)] \<lparr>tasks_node = started_node\<lparr>node_actor := a\<rparr>, tasks = [Merged 1]\<rparr>"
    by (rule stepped_at [where i = 0, OF stepped_at [where i = 0, OF s d] m]) (simp add: sent_def sample_handler_def)+
  have "actor_ok bound_platform 2 (node_actor started_node)"
    using started_engine(1) by (auto simp: actor_ok_def intro: quorum_run.start)
  then have "heads (engine a) = frontier (arena (engine a))"
    using concurrent_actor_invariant [OF _ _ r, of 2] by (simp add: fresh_for_def)
  then show ?thesis using r by (intro exI [of _ "started_node\<lparr>node_actor := a\<rparr>"]) simp
qed

end
