(* ===== verification/Node_Shell.thy ===== *)
theory Node_Shell
  imports Node "HOL-Library.Monad_Syntax"
begin

text \<open>
  The shell around the node: the start with its configuration and the health endpoint
  (\<open>aimp_node/src/main.rs\<close>), and the terminal dashboard (\<open>aimp_node/src/dashboard/mod.rs\<close>). What the
  channels deliver to an iteration of the dashboard, the keys and the errors of the terminal are
  parameters, as are the text of JSON values and the free capacity of the log channel. A panic is \<open>None\<close>.
\<close>

section \<open>The code\<close>

subsection \<open>The start\<close>

record Args =
  arg_port :: u16
  arg_name :: "string option"
  arg_headless :: bool
  arg_peers :: "string list"

text \<open>The configuration is loaded a second time when the first load fails.\<close>

definition start_config :: "string + AimpConfig \<Rightarrow> string + AimpConfig \<Rightarrow> AimpConfig option" where
  "start_config loaded again =
     (case config_new loaded of
        Inr cfg \<Rightarrow> Some cfg
      | Inl _ \<Rightarrow> (case config_new again of Inr cfg \<Rightarrow> Some cfg | Inl _ \<Rightarrow> None))"

definition node_display_id :: "platform \<Rightarrow> Args \<Rightarrow> Identity \<Rightarrow> string option" where
  "node_display_id P args i =
     (case arg_name args of
        Some name \<Rightarrow> Some name
      | None \<Rightarrow> let my_pubkey_hex = hex_encode P (node_id i)
                in if length my_pubkey_hex < 8 then None else Some (take 8 my_pubkey_hex))"

text \<open>
  The log channel, a bounded queue. \<open>mpsc::channel\<close> panics on a capacity of zero or above the permits
  of its semaphore (\<open>max_permits\<close>, a constant of the library). A send waits while the queue is full;
  as the receiver starts only after the start, such a wait never ends. Tasks that run meanwhile put
  events into the room there is; what does not fit waits behind.
\<close>

record LogChannel =
  chan_capacity :: nat
  chan_queue :: "SystemEvent list"

definition channel :: "nat \<Rightarrow> nat \<Rightarrow> LogChannel option" where
  "channel max_permits buffer =
     (if buffer = 0 \<or> buffer > max_permits then None else Some \<lparr>chan_capacity = buffer, chan_queue = []\<rparr>)"

definition send :: "LogChannel \<Rightarrow> SystemEvent \<Rightarrow> LogChannel option" where
  "send ch ev =
     (if length (chan_queue ch) < chan_capacity ch then Some (ch\<lparr>chan_queue := chan_queue ch @ [ev]\<rparr>) else None)"

definition arrive :: "SystemEvent list \<Rightarrow> LogChannel \<Rightarrow> LogChannel" where
  "arrive evs ch = ch\<lparr>chan_queue := chan_queue ch @ take (chan_capacity ch - length (chan_queue ch)) evs\<rparr>"

text \<open>
  The start up to the display: the node, the name it shows and the first two events. The result of
  binding the socket is \<open>bound\<close>: when the port is in use the process exits. \<open>before\<close> and \<open>between\<close> are
  the events that other tasks send before the first of the two and between them.
\<close>

datatype start_error = Panicked | Exited | Failed string | Stuck

definition launch ::
  "node_env \<Rightarrow> handler_env \<Rightarrow> nat \<Rightarrow> Args \<Rightarrow> string + AimpConfig \<Rightarrow> string + AimpConfig \<Rightarrow> bytes
    \<Rightarrow> open_error + (bytes \<times> bytes) list option \<Rightarrow> (bool \<times> string) option \<Rightarrow> SystemEvent list \<Rightarrow> SystemEvent list
    \<Rightarrow> start_error + NodeState \<times> string \<times> LogChannel" where
  "launch E H max_permits args loaded again seed existing bound before between =
     (case start_config loaded again of
        None \<Rightarrow> Inl Panicked
      | Some cfg \<Rightarrow>
          (case channel max_permits (network_log_capacity cfg) of
             None \<Rightarrow> Inl Panicked
           | Some ch \<Rightarrow>
               let st = node_start E H cfg seed existing
               in case bound of
                    Some (in_use, e) \<Rightarrow> Inl (if in_use then Exited else Failed e)
                  | None \<Rightarrow>
                      (case node_display_id (env_platform E) args (node_identity st) of
                         None \<Rightarrow> Inl Panicked
                       | Some name \<Rightarrow>
                           (case send (arrive before ch) (Status ''Node initialized'') of
                              None \<Rightarrow> Inl Stuck
                            | Some ch \<Rightarrow>
                                (case send (arrive between ch)
                                    (Status (''Networking active on UDP:'' @ decimal (unat (arg_port args)))) of
                                   None \<Rightarrow> Inl Stuck
                                 | Some ch \<Rightarrow> Inr (st, name, ch))))))"

subsection \<open>The health endpoint\<close>

datatype json = JBool bool | JNumber nat | JString string | JObject "(string \<times> json) list"

text \<open>
  The actor is asked for its root and answers within 200 ms or not; it handles the question in both
  cases. \<open>log_capacity\<close> is the free capacity of the log channel.
\<close>

definition health ::
  "platform \<Rightarrow> call_env \<Rightarrow> bool \<Rightarrow> nat \<Rightarrow> NodeState \<Rightarrow> (nat \<times> json) \<times> NodeState" where
  "health P env in_time log_capacity st =
     (let (r, _, a) = handle P env GetRoot (node_actor st);
          root = (case r of RootReply root \<Rightarrow> root | _ \<Rightarrow> []);
          healthy = True;
          (crdt, healthy) =
            (if in_time then (JObject [(''status'', JString ''ok''), (''merkle_root'', JString (hex_encode P root))], healthy)
             else (JObject [(''status'', JString ''timeout'')], False));
          (log_channel, healthy) =
            (if log_capacity = 0 then (JObject [(''status'', JString ''full'')], False)
             else (JObject [(''status'', JString ''ok''), (''available'', JNumber log_capacity)], healthy));
          checks = JObject [(''crdt'', crdt), (''log_channel'', log_channel)]
      in ((if healthy then 200 else 503, JObject [(''healthy'', JBool healthy), (''checks'', checks)]),
          st\<lparr>node_actor := a\<rparr>))"

subsection \<open>The dashboard\<close>

definition MAX_VISIBLE_LOGS :: nat where "MAX_VISIBLE_LOGS = 20"

record Dashboard =
  dash_node_id :: string
  dash_logs :: "SystemEvent list"

definition dashboard_new :: "string \<Rightarrow> Dashboard" where
  "dashboard_new name = \<lparr>dash_node_id = name, dash_logs = []\<rparr>"

definition push_log :: "Dashboard \<Rightarrow> SystemEvent \<Rightarrow> Dashboard" where
  "push_log d log =
     (let logs = dash_logs d @ [log]
      in d\<lparr>dash_logs := if length logs > MAX_VISIBLE_LOGS then tl logs else logs\<rparr>)"

text \<open>The texts of the panels; the gauge is a percentage.\<close>

record Screen =
  header :: string
  stats :: string
  telemetry :: string
  audit :: string
  gauge :: nat

abbreviation newline :: string where
  "newline \<equiv> [CHR 0x0A]"

definition is_inference :: "SystemEvent \<Rightarrow> bool" where
  "is_inference ev = (case ev of EvAiInference _ _ \<Rightarrow> True | _ \<Rightarrow> False)"

fun join :: "string \<Rightarrow> string list \<Rightarrow> string" where
  "join sep [] = []"
| "join sep [x] = x"
| "join sep (x # y # zs) = x @ sep @ join sep (y # zs)"

definition log_content :: "SystemEvent list \<Rightarrow> string option" where
  "log_content logs =
     (if logs = [] then Some (newline @ '' Waiting for system events...'')
      else map_option concat (those (map (\<lambda>log. map_option (\<lambda>s. newline @ '' '' @ s) (to_display log)) logs)))"

definition audit_content :: "SystemEvent list \<Rightarrow> string option" where
  "audit_content logs =
     map_option (\<lambda>audit_logs. if audit_logs = [] then newline @ '' No verified AI decisions yet.'' else join newline audit_logs)
       (those (map (\<lambda>l. map_option (\<lambda>s. ''> '' @ s) (to_display l)) (filter is_inference logs)))"

definition ui :: "string \<Rightarrow> Dashboard \<Rightarrow> string \<Rightarrow> Screen option" where
  "ui ver d merkle_root =
     do {
       logs \<leftarrow> log_content (dash_logs d);
       audits \<leftarrow> audit_content (dash_logs d);
       Some \<lparr>header = '' AIMP Core v'' @ ver @ '' | Node: '' @ dash_node_id d @ '' | Press 'q' to exit'',
         stats = newline @ '' DAG METRICS:'' @ newline @ newline @ '' - ROOT HASH:'' @ newline @ ''   '' @ merkle_root @ newline @ newline
           @ '' - NODE STATE: ACTIVE'' @ newline @ '' - ACTOR MODE: SYNC_PASS'',
         telemetry = logs, audit = audits, gauge = 100\<rparr>
     }"

text \<open>
  What an iteration of the loop gets: the events that the log channel holds, the root that the
  background task has sent, whether drawing and reading the terminal work, and the key.
\<close>

record frame_in =
  received :: "SystemEvent list"
  new_root :: "string option"
  io_ok :: bool
  pressed :: "char option"

datatype dash_end = Running Dashboard string | Quit | IoError | DrawPanic

fun dash_loop :: "string \<Rightarrow> Dashboard \<Rightarrow> string \<Rightarrow> frame_in list \<Rightarrow> Screen list \<times> dash_end" where
  "dash_loop ver d shown_root [] = ([], Running d shown_root)"
| "dash_loop ver d shown_root (f # fs) =
     (let d = foldl push_log d (received f);
          shown_root = (case new_root f of Some r \<Rightarrow> r | None \<Rightarrow> shown_root)
      in case ui ver d shown_root of
           None \<Rightarrow> ([], DrawPanic)
         | Some s \<Rightarrow>
             if \<not> io_ok f then ([s], IoError)
             else if pressed f = Some CHR ''q'' then ([s], Quit)
             else let (ss, e) = dash_loop ver d shown_root fs in (s # ss, e))"

definition dashboard_run :: "string \<Rightarrow> string \<Rightarrow> frame_in list \<Rightarrow> Screen list \<times> dash_end" where
  "dashboard_run ver name fs = dash_loop ver (dashboard_new name) ''computing...'' fs"

section \<open>What is shown\<close>

lemma to_display_None: "to_display ev = None \<longleftrightarrow> (\<exists>h a. ev = MutationCommitted h a \<and> length h < 8)"
  by (cases ev) (simp_all add: to_display_def)

lemma push_logs:
  assumes "dash_logs d = drop (length old - 20) old"
  shows "dash_logs (foldl push_log d evs) = drop (length (old @ evs) - 20) (old @ evs)"
  using assms
proof (induction evs arbitrary: d old)
  case (Cons ev evs)
  have "dash_logs (push_log d ev) = drop (length (old @ [ev]) - 20) (old @ [ev])"
  proof (cases "length old < 20")
    case True
    then show ?thesis using Cons.prems by (simp add: push_log_def MAX_VISIBLE_LOGS_def Let_def)
  next
    case False
    then have "dash_logs (push_log d ev) = tl (drop (length old - 20) old @ [ev])" "drop (length old - 20) old \<noteq> []"
      using Cons.prems by (simp_all add: push_log_def MAX_VISIBLE_LOGS_def Let_def)
    then have "dash_logs (push_log d ev) = drop (Suc (length old - 20)) old @ [ev]" by (simp add: drop_Suc tl_drop)
    moreover have "length (old @ [ev]) - 20 = Suc (length old - 20)" using False by simp
    ultimately show ?thesis using False by simp
  qed
  then show ?case using Cons.IH [of "push_log d ev" "old @ [ev]"] by simp
qed simp

lemma those_total: "\<forall>x\<in>set xs. f x \<noteq> None \<Longrightarrow> those (map f xs) = Some (map (the \<circ> f) xs)"
  by (induction xs) auto

lemma log_content_total:
  assumes "\<forall>ev\<in>set logs. to_display ev \<noteq> None" "logs \<noteq> []"
  shows "log_content logs = Some (concat (map (\<lambda>ev. newline @ '' '' @ the (to_display ev)) logs))"
proof -
  let ?f = "\<lambda>ev. map_option (\<lambda>s. newline @ '' '' @ s) (to_display ev)"
  have "\<forall>ev\<in>set logs. ?f ev \<noteq> None" using assms(1) by simp
  from those_total [OF this] have "those (map ?f logs) = Some (map (the \<circ> ?f) logs)" .
  moreover have "map (the \<circ> ?f) logs = map (\<lambda>ev. newline @ '' '' @ the (to_display ev)) logs"
    using assms(1) by (intro map_cong) auto
  ultimately show ?thesis using assms(2) by (simp only: log_content_def if_False option.map)
qed

lemma audit_content_total:
  assumes "\<forall>ev\<in>set logs. to_display ev \<noteq> None"
  shows "audit_content logs \<noteq> None"
proof -
  have "\<forall>ev\<in>set (filter is_inference logs). map_option (\<lambda>s. ''> '' @ s) (to_display ev) \<noteq> None" using assms by simp
  from those_total [OF this] show ?thesis by (simp add: audit_content_def)
qed

lemma ui_total:
  assumes "\<forall>ev\<in>set (dash_logs d). to_display ev \<noteq> None"
  obtains s where "ui ver d root = Some s" "log_content (dash_logs d) = Some (telemetry s)"
proof -
  have "log_content (dash_logs d) \<noteq> None"
  proof (cases "dash_logs d = []")
    case True
    then show ?thesis by (simp add: log_content_def)
  next
    case False
    show ?thesis unfolding log_content_total [OF assms False] by (rule option.distinct)
  qed
  then obtain l where l: "log_content (dash_logs d) = Some l" by blast
  obtain a where a: "audit_content (dash_logs d) = Some a" using audit_content_total [OF assms] by blast
  show thesis by (rule that) (simp add: ui_def l a, simp add: l)
qed

text \<open>The loop without keys and errors.\<close>

definition latest_root :: "string \<Rightarrow> frame_in list \<Rightarrow> string" where
  "latest_root r fs = foldl (\<lambda>r f. case new_root f of Some r' \<Rightarrow> r' | None \<Rightarrow> r) r fs"

lemma dash_loop_run:
  assumes "\<forall>f\<in>set fs. io_ok f \<and> pressed f \<noteq> Some CHR ''q'' \<and> (\<forall>ev\<in>set (received f). to_display ev \<noteq> None)"
    and "\<forall>ev\<in>set old. to_display ev \<noteq> None" "dash_logs d = drop (length old - 20) old"
  shows "\<exists>ss d'. dash_loop ver d r fs = (ss, Running d' (latest_root r fs)) \<and> length ss = length fs
    \<and> dash_logs d' = (let evs = old @ concat (map received fs) in drop (length evs - 20) evs)
    \<and> (fs \<noteq> [] \<longrightarrow> ui ver d' (latest_root r fs) = Some (last ss))"
  using assms
proof (induction fs arbitrary: d r old)
  case Nil
  then show ?case by (simp add: latest_root_def)
next
  case (Cons f fs)
  let ?d = "foldl push_log d (received f)" let ?r = "case new_root f of Some r' \<Rightarrow> r' | None \<Rightarrow> r"
  let ?old = "old @ received f"
  have f: "io_ok f" "pressed f \<noteq> Some CHR ''q''" "\<forall>ev\<in>set ?old. to_display ev \<noteq> None" using Cons.prems by auto
  have d: "dash_logs ?d = drop (length ?old - 20) ?old" by (rule push_logs [OF Cons.prems(3)])
  then have "\<forall>ev\<in>set (dash_logs ?d). to_display ev \<noteq> None" using f(3) in_set_dropD by metis
  then obtain s where s: "ui ver ?d ?r = Some s" by (rule ui_total)
  have rest: "\<forall>f\<in>set fs. io_ok f \<and> pressed f \<noteq> Some CHR ''q'' \<and> (\<forall>ev\<in>set (received f). to_display ev \<noteq> None)"
    using Cons.prems(1) by simp
  from Cons.IH [OF this f(3) d, of ?r] obtain ss d' where
    ih: "dash_loop ver ?d ?r fs = (ss, Running d' (latest_root ?r fs))" "length ss = length fs"
    "dash_logs d' = (let evs = ?old @ concat (map received fs) in drop (length evs - 20) evs)"
    "fs \<noteq> [] \<longrightarrow> ui ver d' (latest_root ?r fs) = Some (last ss)" by blast
  have root: "latest_root r (f # fs) = latest_root ?r fs" by (simp add: latest_root_def)
  have "dash_loop ver d r (f # fs) = (s # ss, Running d' (latest_root r (f # fs)))"
    using f(1,2) s ih(1) by (simp add: root Let_def)
  moreover have "ui ver d' (latest_root r (f # fs)) = Some (last (s # ss))"
  proof (cases "fs = []")
    case True
    then have "d' = ?d" "ss = []" using ih(1) by simp_all
    then show ?thesis using True s by (simp add: root latest_root_def)
  next
    case False
    then show ?thesis using ih(2,4) by (cases ss) (simp_all add: root)
  qed
  ultimately show ?case using ih(2,3) by (intro exI [of _ "s # ss"] exI [of _ d']) simp
qed

text \<open>The events of the handlers.\<close>

lemma append_events:
  "handle_append P env dh sig vc ev a = (h, evs, a') \<Longrightarrow> \<forall>e\<in>set evs. to_display e \<noteq> None"
  by (auto simp: handle_append_def emit_def to_display_def Let_def split: prod.splits if_splits)

lemma merge_events:
  assumes "handle_merge P env ns a = (k, evs, a')"
  shows "\<forall>e\<in>set evs. to_display e \<noteq> None"
proof -
  have "\<forall>e\<in>set (fst (snd (foldl (merge_node P env) st ns))). to_display e \<noteq> None"
    if "\<forall>e\<in>set (fst (snd st)). to_display e \<noteq> None" for st
    using that
  proof (induction ns arbitrary: st)
    case (Cons n ns)
    have "\<forall>e\<in>set (fst (snd (merge_node P env st n))). to_display e \<noteq> None"
      using Cons.prems
      by (auto simp: merge_node_def Let_def emit_def to_display_def split: prod.splits option.splits if_splits)
    then show ?case using Cons.IH by simp
  qed simp
  from this [of "(0, [], a)"] show ?thesis
    using assms by (simp add: handle_merge_def Let_def case_prod_beta)
qed

lemma evaluation_events:
  assumes "run_evaluation L B f prompt d = (res, evs, d')"
  shows "\<forall>e\<in>set evs. to_display e \<noteq> None"
proof -
  have "\<forall>e\<in>set (fst (try_hot_reload L B f d)). to_display e \<noteq> None"
    by (auto simp: try_hot_reload_def reload_event_def to_display_def Let_def split: option.splits sum.splits prod.splits if_splits)
  then show ?thesis
    using assms by (auto simp: run_evaluation_def to_display_def split: prod.splits sum.splits if_splits)
qed

lemma commit_events:
  assumes "commit_inference E H d prompt js st = (evs, st')"
    and "8 \<le> length (hex_encode (env_platform E) (blake (env_platform E) (ascii js)))"
  shows "\<forall>e\<in>set evs. to_display e \<noteq> None"
proof (cases "sign (env_wire E) (node_identity st) d")
  case (Inl x)
  then show ?thesis using assms(1) by (auto simp: commit_inference_def Let_def to_display_def)
next
  case (Inr sig)
  obtain h evs' a where a: "handle_append (env_platform E) (actor_env H) (blake (env_platform E) (ascii js)) (env_signature sig)
      [(key_prefix (env_platform E) (node_identity st), node_clock st + 1)]
      (Some (infer_evidence E H prompt js (node_decisions st))) (node_actor st) = (h, evs', a)"
    by (metis surj_pair)
  then have "evs = evs' @ [MutationCommitted (hex_encode (env_platform E) (blake (env_platform E) (ascii js)))
      (key_prefix (env_platform E) (node_identity st))]"
    using assms(1) Inr by (simp add: commit_inference_def Let_def)
  then show ?thesis using append_events [OF a] assms(2) by (auto simp: to_display_def)
qed

lemma sync_events:
  assumes "handle_sync E H d st = (evs, st')"
  shows "\<forall>e\<in>set evs. to_display e \<noteq> None"
proof (cases "payload_decode (env_wire E) (data_op d) (data_payload d)")
  case (SyncResponse ns)
  obtain k evs' a where m: "handle_merge (env_platform E) (actor_env H) ns (node_actor st) = (k, evs', a)" by (metis surj_pair)
  then show ?thesis
    using assms SyncResponse merge_events [OF m] by (auto simp: handle_sync_def to_display_def split: if_splits)
qed (use assms in \<open>simp_all add: handle_sync_def\<close>)

lemma infer_events:
  assumes "handle_infer E H d st = (evs, st')" "\<forall>bs. 8 \<le> length (hex_encode (env_platform E) (blake (env_platform E) bs))"
  shows "\<forall>e\<in>set evs. to_display e \<noteq> None"
proof (cases "payload_decode (env_wire E) (data_op d) (data_payload d)")
  case (InferPrompt prompt)
  obtain res evs1 disp where r: "run_evaluation (env_text E) (blake (env_platform E)) (rules_now H) prompt (node_decisions st)
      = (res, evs1, disp)" by (metis surj_pair)
  note ev1 = evaluation_events [OF r]
  have plain: "to_display (Status m) \<noteq> None" "to_display (EvAiInference p x) \<noteq> None" for m p x
    by (simp_all add: to_display_def)
  note run = assms(1) [unfolded handle_infer_def InferPrompt Payload.case r prod.case Let_def]
  show ?thesis
  proof (cases res)
    case (Inl x)
    then show ?thesis using run ev1 plain by auto
  next
    case (Inr x)
    show ?thesis
    proof (cases "json_decision E (action_required x) (dec_status x)")
      case None
      then show ?thesis using run Inr ev1 plain by auto
    next
      case (Some js)
      obtain evs2 st2 where c: "commit_inference E H d prompt js (st\<lparr>node_decisions := disp\<rparr>) = (evs2, st2)" by fastforce
      then have "evs = (EvAiInference prompt ''Pending...'' # evs1) @ evs2" using run Inr Some by simp
      then show ?thesis using ev1 plain(2) commit_events [OF c] assms(2) by auto
    qed
  qed
qed (use assms(1) in \<open>simp_all add: handle_infer_def\<close>)

section \<open>Properties\<close>

text \<open>
  Nothing that a node reports makes its display panic: every event of a handled envelope can be
  shown, as the only cut text, the digits of a hash, has at least the eight that are shown.
\<close>

theorem node_events_display:
  assumes "process E H e st = (evs, st')" "\<forall>bs. 8 \<le> length (hex_encode (env_platform E) (blake (env_platform E) bs))"
    and "ev \<in> set evs"
  shows "to_display ev \<noteq> None"
proof -
  have "\<forall>x\<in>set evs. to_display x \<noteq> None"
  proof (cases "data_op (env_data e)")
    case SyncRes
    then show ?thesis using assms(1) sync_events by (simp add: process_def)
  next
    case Infer
    then show ?thesis using assms(1,2) infer_events by (simp add: process_def)
  qed (use assms(1) in \<open>simp_all add: process_def\<close>)
  then show ?thesis using assms(3) by blast
qed

text \<open>
  The dashboard shows the latest: as long as no key is pressed and the terminal works, it draws one
  screen per iteration, whose log panel has the last twenty events of all that were received, oldest
  first, and whose root is the last one received, or the text \<open>computing...\<close>.
\<close>

theorem dashboard_shows_latest:
  assumes "\<forall>f\<in>set fs. io_ok f \<and> pressed f \<noteq> Some CHR ''q'' \<and> (\<forall>ev\<in>set (received f). to_display ev \<noteq> None)"
    and "evs = concat (map received fs)" "evs \<noteq> []"
  shows "\<exists>screens d. dashboard_run ver name fs = (screens, Running d (latest_root ''computing...'' fs))
    \<and> length screens = length fs \<and> dash_logs d = drop (length evs - 20) evs
    \<and> ui ver d (latest_root ''computing...'' fs) = Some (last screens)
    \<and> telemetry (last screens) = concat (map (\<lambda>ev. newline @ '' '' @ the (to_display ev)) (drop (length evs - 20) evs))"
proof -
  have old: "\<forall>ev\<in>set []. to_display ev \<noteq> None" "dash_logs (dashboard_new name) = drop (length [] - 20) []"
    by (simp_all add: dashboard_new_def)
  obtain ss d where run: "dash_loop ver (dashboard_new name) ''computing...'' fs = (ss, Running d (latest_root ''computing...'' fs))"
    "length ss = length fs" "dash_logs d = drop (length evs - 20) evs"
    "fs \<noteq> [] \<longrightarrow> ui ver d (latest_root ''computing...'' fs) = Some (last ss)"
    using dash_loop_run [OF assms(1) old, of ver "''computing...''"] assms(2) unfolding Let_def append_Nil by blast
  have ne: "fs \<noteq> []" using assms(2,3) by auto
  have shown: "drop (length evs - 20) evs \<noteq> []" using assms(3) by (cases evs) simp_all
  have all: "\<forall>ev\<in>set (dash_logs d). to_display ev \<noteq> None"
    using assms(1,2) unfolding run(3) by (auto dest!: in_set_dropD)
  obtain s where s: "ui ver d (latest_root ''computing...'' fs) = Some s" "log_content (dash_logs d) = Some (telemetry s)"
    by (rule ui_total [OF all])
  have "telemetry s = concat (map (\<lambda>ev. newline @ '' '' @ the (to_display ev)) (drop (length evs - 20) evs))"
    using log_content_total [OF all] shown s(2) unfolding run(3) by simp
  then show ?thesis
    using run ne s(1) unfolding dashboard_run_def by (intro exI [of _ ss] exI [of _ d]) simp
qed

text \<open>
  The health report is true and harmless: it says 200 just when the actor answered in time and the
  log channel has room, the root it names is the hash of the sorted heads, which are the nodes without
  a child, and asking leaves the nodes, the heads, the clock and the well-formedness of the node.
\<close>

definition member :: "string \<Rightarrow> json \<Rightarrow> json option" where
  "member k j = (case j of JObject kvs \<Rightarrow> map_of kvs k | _ \<Rightarrow> None)"

theorem health_report:
  assumes "dag_ok P (engine (node_actor st))" "health P env in_time room st = ((code, body), st')"
  shows "code = (if in_time \<and> 0 < room then 200 else 503)
    \<and> member ''healthy'' body = Some (JBool (code = 200))
    \<and> (in_time \<longrightarrow> Option.bind (Option.bind (member ''checks'' body) (member ''crdt'')) (member ''merkle_root'')
         = Some (JString (hex_encode P (root_of (blake P) (frontier (arena (engine (node_actor st))))))))
    \<and> dag_ok P (engine (node_actor st'))
    \<and> arena (engine (node_actor st')) = arena (engine (node_actor st)) \<and> heads (engine (node_actor st')) = heads (engine (node_actor st))
    \<and> node_clock st' = node_clock st \<and> quorum (node_actor st') = quorum (node_actor st)"
proof -
  let ?e = "engine (node_actor st)"
  obtain root e where r: "get_merkle_root P ?e = (root, e)" by fastforce
  have ok: "engine_ok P ?e" "heads ?e = frontier (arena ?e)" using assms(1) by (simp_all add: dag_ok_def)
  have root: "root = root_of (blake P) (frontier (arena ?e))" and e: "engine_ok P e" "arena e = arena ?e" "heads e = heads ?e"
    using get_merkle_root_correct [OF ok(1)] r ok(2) by simp_all
  have h: "handle P env GetRoot (node_actor st) = (RootReply root, [], (node_actor st)\<lparr>engine := e\<rparr>)"
    by (simp add: handle_def r)
  have st': "st' = st\<lparr>node_actor := (node_actor st)\<lparr>engine := e\<rparr>\<rparr>" using assms(2) by (cases in_time; cases "room = 0") (simp_all add: health_def h)
  have code: "code = (if in_time \<and> 0 < room then 200 else 503)"
    and body: "body = JObject [(''healthy'', JBool (in_time \<and> 0 < room)),
      (''checks'', JObject [(''crdt'', if in_time then JObject [(''status'', JString ''ok''), (''merkle_root'', JString (hex_encode P root))]
           else JObject [(''status'', JString ''timeout'')]),
         (''log_channel'', if room = 0 then JObject [(''status'', JString ''full'')]
           else JObject [(''status'', JString ''ok''), (''available'', JNumber room)])])]"
    using assms(2) by (cases in_time; cases "room = 0"; simp add: health_def h)+
  have "member ''healthy'' body = Some (JBool (code = 200))" by (simp add: body code member_def)
  moreover have "in_time \<longrightarrow> Option.bind (Option.bind (member ''checks'' body) (member ''crdt'')) (member ''merkle_root'')
      = Some (JString (hex_encode P (root_of (blake P) (frontier (arena ?e)))))"
    by (simp add: body member_def root [symmetric])
  moreover have "dag_ok P e" using assms(1) e by (simp add: dag_ok_def)
  ultimately show ?thesis using code e(2,3) by (simp add: st')
qed

text \<open>
  How a start ends once the configuration is loaded, by whichever load: it panics when the capacity of
  the log channel is zero or above what the channel admits, which nothing validates; and it waits for
  ever when what other tasks send leaves no room for one of the two events. Otherwise the queue holds
  the events in the order in which they were sent.
\<close>

lemma send_arrive:
  "send (arrive evs ch) ev =
     (if length (chan_queue ch) + length evs < chan_capacity ch
      then Some (ch\<lparr>chan_queue := chan_queue ch @ evs @ [ev]\<rparr>) else None)"
  if "length (chan_queue ch) \<le> chan_capacity ch"
  using that by (auto simp: send_def arrive_def)

theorem launch_outcome:
  assumes "start_config loaded again = Some cfg" "bound = None"
    and "node_display_id (env_platform E) args (identity_new (env_wire E) seed) = Some name"
  defines "first \<equiv> Status ''Node initialized''"
    and "second \<equiv> Status (''Networking active on UDP:'' @ decimal (unat (arg_port args)))"
  shows "launch E H max_permits args loaded again seed existing bound before between =
    (if network_log_capacity cfg = 0 \<or> max_permits < network_log_capacity cfg then Inl Panicked
     else if network_log_capacity cfg < length before + length between + 2 then Inl Stuck
     else Inr (node_start E H cfg seed existing, name,
       \<lparr>chan_capacity = network_log_capacity cfg, chan_queue = before @ [first] @ between @ [second]\<rparr>))"
proof -
  have i: "node_identity (node_start E H cfg seed existing) = identity_new (env_wire E) seed"
    by (simp add: node_start_def Let_def)
  show ?thesis
    unfolding launch_def assms(1,2) option.case Let_def i assms(3) first_def [symmetric] second_def [symmetric]
    by (auto simp: channel_def send_arrive)
qed

theorem launch_fails_invalid:
  "config_new loaded = Inl m \<Longrightarrow> config_new again = Inl m' \<Longrightarrow>
     launch E H max_permits args loaded again seed existing bound before between = Inl Panicked"
  by (simp add: launch_def start_config_def)

section \<open>Witnesses\<close>

theorem node_events_display_witness:
  "\<exists>evs st. process sample_node_env sample_handler \<lparr>env_data = sample_data 9 3, env_signature = [9]\<rparr> started_node = (evs, st)
    \<and> evs \<noteq> [] \<and> list_all (\<lambda>ev. to_display ev \<noteq> None) evs"
proof -
  let ?e = "\<lparr>env_data = sample_data 9 3, env_signature = [9]\<rparr>"
  obtain evs st where p: "process sample_node_env sample_handler ?e started_node = (evs, st)" by fastforce
  have utf8: "utf8_valid (ascii ''flow'')" by code_simp
  have "fst (process sample_node_env sample_handler ?e started_node) \<noteq> []"
    using utf8 by (simp add: process_def handle_infer_def sample_data_def payload_decode_def from_utf8_def Let_def
      split: prod.split sum.split option.split)
  then have "evs \<noteq> []" using p by simp
  moreover have "\<forall>bs. 8 \<le> length (hex_encode (env_platform sample_node_env) (blake (env_platform sample_node_env) bs))"
  proof
    fix bs
    have h: "length (hex_encode sample_platform b) = 2 * length b" for b
      by (induction b) (simp_all add: sample_platform_def)
    have "length (blake bound_platform bs) = 32" "hex_encode bound_platform = hex_encode sample_platform"
      by (simp_all add: bound_platform_def sample_platform_def sample_hash_def min_def)
    then show "8 \<le> length (hex_encode (env_platform sample_node_env) (blake (env_platform sample_node_env) bs))" by (simp add: h)
  qed
  ultimately show ?thesis
    using p node_events_display [OF p] by (intro exI [of _ evs] exI [of _ st]) (simp add: list_all_iff)
qed

definition sample_frames :: "frame_in list" where
  "sample_frames = [\<lparr>received = map (\<lambda>i. StateMerged i) [0..<15], new_root = None, io_ok = True, pressed = None\<rparr>,
     \<lparr>received = map (\<lambda>i. StateMerged i) [15..<30], new_root = Some ''ab'', io_ok = True, pressed = Some CHR ''x''\<rparr>]"

theorem dashboard_shows_latest_witness:
  "\<exists>screens d. dashboard_run ''0.1'' ''n'' sample_frames = (screens, Running d ''ab'')
    \<and> dash_logs d = map StateMerged [10..<30]"
proof -
  have "concat (map received sample_frames) = map StateMerged ([0..<15] @ [15..<30])" by (simp add: sample_frames_def)
  also have "[0..<15] @ [15..<30] = [0..<30 :: nat]" using upt_add_eq_append [of 0 15 15] by simp
  finally have evs: "map StateMerged [0..<30] = concat (map received sample_frames)" by simp
  have ok: "\<forall>f\<in>set sample_frames. io_ok f \<and> pressed f \<noteq> Some CHR ''q'' \<and> (\<forall>ev\<in>set (received f). to_display ev \<noteq> None)"
    by (auto simp: sample_frames_def to_display_def)
  have "latest_root ''computing...'' sample_frames = ''ab''" by (simp add: latest_root_def sample_frames_def)
  moreover have "drop (length (map StateMerged [0..<30]) - 20) (map StateMerged [0..<30]) = map StateMerged [10..<30]"
    by (simp add: drop_map)
  ultimately show ?thesis
    using dashboard_shows_latest [OF ok evs, of "''0.1''" "''n''"] by auto
qed

theorem health_report_witness:
  "\<exists>body st. health sample_platform sample_env True 7
      (started_node\<lparr>node_actor := (node_actor started_node)\<lparr>engine := with_gc_threshold None 5\<rparr>\<rparr>) = ((200, body), st)
    \<and> member ''healthy'' body = Some (JBool True)"
proof -
  let ?st = "started_node\<lparr>node_actor := (node_actor started_node)\<lparr>engine := with_gc_threshold None 5\<rparr>\<rparr>"
  have e: "engine (node_actor ?st) = with_gc_threshold None 5" by simp
  have "dag_ok sample_platform (with_gc_threshold None 5)"
    by (simp add: dag_ok_def) (simp add: with_gc_threshold_def frontier_def)
  then have ok: "dag_ok sample_platform (engine (node_actor ?st))" unfolding e .
  obtain code body st where h: "health sample_platform sample_env True 7 ?st = ((code, body), st)" by (metis surj_pair)
  show ?thesis using health_report [OF ok h] h by auto
qed

theorem launch_outcome_witness:
  "launch sample_node_env sample_handler 1000 \<lparr>arg_port = 1337, arg_name = Some ''n'', arg_headless = True, arg_peers = []\<rparr>
     (Inr config_defaults) (Inr config_defaults) [7] (Inr None) None (replicate 250 (StateMerged 1)) (replicate 249 (StateMerged 2))
     = Inl Stuck"
proof -
  let ?args = "\<lparr>arg_port = 1337, arg_name = Some ''n'', arg_headless = True, arg_peers = []\<rparr>"
  have c: "start_config (Inr config_defaults) (Inr config_defaults) = Some config_defaults"
    using config_defaults_valid by (simp add: start_config_def)
  have n: "node_display_id (env_platform sample_node_env) ?args (identity_new (env_wire sample_node_env) [7]) = Some ''n''"
    by (simp add: node_display_id_def)
  have "network_log_capacity config_defaults = 500" by (simp add: config_defaults_def)
  then show ?thesis unfolding launch_outcome [OF c refl n] by simp
qed

end
