(* ===== verification/Ring_Identity.thy ===== *)
theory Ring_Identity
  imports Protocol "HOL-Library.Monad_Syntax"
begin

text \<open>
  The second backend of identities, built with the feature \<open>fast-crypto\<close>
  (\<open>aimp_node/src/crypto/identity.rs\<close>, lines 92-168), and that a mesh can mix both: it has the
  identifiers, secrets, Noise keys and signatures of the default backend. The library ring is a
  parameter, with its opaque type of key pairs. A panic is \<open>None\<close>.
\<close>

section \<open>The code\<close>

record 'k ring =
  ring_from_seed :: "bytes \<Rightarrow> 'k option"
  ring_public_key :: "'k \<Rightarrow> bytes"
  ring_sign :: "'k \<Rightarrow> bytes \<Rightarrow> bytes"

record 'k RingIdentity =
  key_pair :: 'k
  ring_seed :: bytes
  public_key_bytes :: bytes
  ring_noise_secret :: bytes
  ring_noise_public :: bytes

text \<open>\<open>copy_from_slice\<close> into an array of \<open>n\<close> bytes panics on a slice of another length.\<close>

definition copy_from_slice :: "nat \<Rightarrow> bytes \<Rightarrow> bytes option" where
  "copy_from_slice n src = (if length src = n then Some src else None)"

definition ring_from_secret_bytes :: "wire \<Rightarrow> 'k ring \<Rightarrow> bytes \<Rightarrow> 'k RingIdentity option" where
  "ring_from_secret_bytes W R secret =
     do {
       kp \<leftarrow> ring_from_seed R secret;
       pk \<leftarrow> copy_from_slice 32 (ring_public_key R kp);
       Some \<lparr>key_pair = kp, ring_seed = secret, public_key_bytes = pk,
         ring_noise_secret = secret, ring_noise_public = noise_public W secret\<rparr>
     }"

text \<open>The random generator fills the seed, or fails.\<close>

definition ring_identity_new :: "wire \<Rightarrow> 'k ring \<Rightarrow> bytes option \<Rightarrow> 'k RingIdentity option" where
  "ring_identity_new W R filled = Option.bind filled (ring_from_secret_bytes W R)"

definition ring_secret_bytes :: "'k RingIdentity \<Rightarrow> bytes" where
  "ring_secret_bytes i = ring_seed i"

definition ring_node_id :: "'k RingIdentity \<Rightarrow> bytes" where
  "ring_node_id i = public_key_bytes i"

definition ring_sign_data :: "wire \<Rightarrow> 'k ring \<Rightarrow> 'k RingIdentity \<Rightarrow> AimpData \<Rightarrow> (CryptoError + AimpEnvelope) option" where
  "ring_sign_data W R i d =
     (case enc_data W d of
        Inl _ \<Rightarrow> Some (Inl SerializationError)
      | Inr bs \<Rightarrow>
          map_option (\<lambda>sig. Inr \<lparr>env_data = d, env_signature = sig\<rparr>) (copy_from_slice 64 (ring_sign R (key_pair i) bs)))"

definition ring_sign_bytes :: "'k ring \<Rightarrow> 'k RingIdentity \<Rightarrow> bytes \<Rightarrow> bytes option" where
  "ring_sign_bytes R i bs = copy_from_slice 64 (ring_sign R (key_pair i) bs)"

section \<open>The default backend as reference\<close>

text \<open>
  Ed25519 (RFC 8032): every 32 bytes are a seed, the public key and the signature are determined by
  seed and message, and have 32 and 64 bytes, in both libraries.
\<close>

definition ring_ok :: "wire \<Rightarrow> 'k ring \<Rightarrow> bool" where
  "ring_ok W R \<longleftrightarrow> (\<forall>seed. length seed = 32 \<longrightarrow> length (derive_key W seed) = 32
     \<and> (\<exists>kp. ring_from_seed R seed = Some kp \<and> ring_public_key R kp = derive_key W seed
         \<and> (\<forall>m. ring_sign R kp m = sign_with W seed m \<and> length (sign_with W seed m) = 64)))"

text \<open>
  C39: The backends agree: from one seed of 32 bytes both make an identity, none of its operations
  panics, and the node id, the secret, the keys of the Noise sessions and all signatures are the same,
  so what a node of one build signs is accepted by a node of the other.
\<close>

theorem backends_agree:
  assumes "ring_ok W R" "length seed = 32" "i = from_secret_bytes W seed"
  shows "\<exists>r. ring_from_secret_bytes W R seed = Some r \<and> ring_identity_new W R (Some seed) = Some r
    \<and> ring_node_id r = node_id i \<and> ring_secret_bytes r = secret_bytes i
    \<and> ring_from_secret_bytes W R (ring_secret_bytes r) = Some r
    \<and> ring_noise_secret r = noise_static_secret i \<and> ring_noise_public r = noise_static_public i
    \<and> (\<forall>d. ring_sign_data W R r d = Some (sign W i d)) \<and> (\<forall>bs. ring_sign_bytes R r bs = Some (sign_bytes W i bs))"
proof -
  obtain kp where kp: "ring_from_seed R seed = Some kp" "ring_public_key R kp = derive_key W seed" "length (derive_key W seed) = 32"
    "\<And>m. ring_sign R kp m = sign_with W seed m" "\<And>m. length (sign_with W seed m) = 64"
    using assms(1,2) unfolding ring_ok_def by blast
  let ?r = "\<lparr>key_pair = kp, ring_seed = seed, public_key_bytes = derive_key W seed,
      ring_noise_secret = seed, ring_noise_public = noise_public W seed\<rparr>"
  have r: "ring_from_secret_bytes W R seed = Some ?r"
    by (simp add: ring_from_secret_bytes_def kp copy_from_slice_def)
  have i: "i = \<lparr>signing_key = seed, verifying_key = derive_key W seed, noise_static_secret = seed, noise_static_public = noise_public W seed\<rparr>"
    by (simp add: assms(3) from_secret_bytes_def build_from_def)
  have "ring_sign_data W R ?r d = Some (sign W i d)" for d
    by (cases "enc_data W d") (simp_all add: ring_sign_data_def sign_def i kp copy_from_slice_def)
  moreover have "ring_sign_bytes R ?r bs = Some (sign_bytes W i bs)" for bs
    by (simp add: ring_sign_bytes_def sign_bytes_def i kp copy_from_slice_def)
  ultimately show ?thesis
    using r by (intro exI [of _ ?r])
      (simp add: ring_identity_new_def ring_node_id_def node_id_def ring_secret_bytes_def secret_bytes_def i)
qed

text \<open>An Ed25519 to evaluate on: the seed is the public key, and a signature repeats the seed.\<close>

definition sample_ed25519 :: wire where
  "sample_ed25519 = sample_wire\<lparr>derive_key := \<lambda>seed. seed, sign_with := \<lambda>seed m. seed @ seed\<rparr>"

definition sample_ring :: "bytes ring" where
  "sample_ring = \<lparr>ring_from_seed = \<lambda>s. if length s = 32 then Some s else None, ring_public_key = \<lambda>k. k,
     ring_sign = \<lambda>k m. k @ k\<rparr>"

theorem backends_agree_witness:
  "\<exists>r. ring_from_secret_bytes sample_ed25519 sample_ring (replicate 32 7) = Some r
    \<and> ring_node_id r = node_id (from_secret_bytes sample_ed25519 (replicate 32 7))"
proof -
  have "ring_ok sample_ed25519 sample_ring" by (simp add: ring_ok_def sample_ed25519_def sample_ring_def)
  from backends_agree [OF this _ refl, of "replicate 32 7"] show ?thesis by auto
qed

end
