(* ===== verification/Mesh_Sync.thy ===== *)
theory Mesh_Sync
  imports Actor
begin

text \<open>
  Anti-entropy in a mesh of replicas (\<open>aimp_node/examples/bench_delta_sync.rs\<close>,
  \<open>examples/bench_netem.rs\<close>): one engine brings another up to date by a transfer of its whole store or
  by a delta, a round does so for a list of pairs, and rounds are repeated until the roots agree.
  What a random generator decides, which exchanges are lost, the jitter and the peers that are picked,
  is a parameter, as is the iteration order of the hash sets in each exchange (\<open>E\<close>).
\<close>

section \<open>The code\<close>

definition bench_recompute_heads :: "call_env \<Rightarrow> MerkleCrdtEngine \<Rightarrow> MerkleCrdtEngine" where
  "bench_recompute_heads env e =
     (let has_children = foldl (\<lambda>ps (_, n). foldl (\<lambda>ps p. insert p ps) ps (parents n)) {} (get_all_iter (arena e));
          e = e\<lparr>heads := {}\<rparr>;
          e = e\<lparr>heads := foldl (\<lambda>hs (h, _). if h \<notin> has_children then insert h hs else hs) (heads e)
                (get_all_iter (arena e))\<rparr>
      in invalidate_root env e)"

text \<open>One exchange by transfer of the whole store, from \<open>src\<close> to \<open>dst\<close>; with the number of new nodes.\<close>

definition full_step ::
  "platform \<Rightarrow> MerkleCrdtEngine \<times> nat \<times> bool \<Rightarrow> Hash32 \<times> DagNode \<Rightarrow> MerkleCrdtEngine \<times> nat \<times> bool" where
  "full_step P st hn =
     (case (st, hn) of ((dst, transferred, added), (h, n)) \<Rightarrow>
        if arena_contains (arena dst) h then st
        else (dst\<lparr>arena := snd (arena_insert (vacant P) h n (arena dst))\<rparr>, transferred + 1, True))"

definition full_push :: "platform \<Rightarrow> call_env \<Rightarrow> MerkleCrdtEngine \<Rightarrow> MerkleCrdtEngine \<Rightarrow> MerkleCrdtEngine \<times> nat" where
  "full_push P env src dst =
     (let (dst, transferred, added) = foldl (full_step P) (dst, 0, False) (get_all_iter (arena src))
      in (if added then bench_recompute_heads env dst else dst, transferred))"

text \<open>One exchange by delta.\<close>

definition delta_step :: "platform \<Rightarrow> MerkleCrdtEngine \<times> nat \<Rightarrow> DagNode \<Rightarrow> MerkleCrdtEngine \<times> nat" where
  "delta_step P st n =
     (case st of (dst, transferred) \<Rightarrow>
        let h = compute_hash (blake P) n
        in if arena_contains (arena dst) h then st
           else (dst\<lparr>arena := snd (arena_insert (vacant P) h n (arena dst))\<rparr>, transferred + 1))"

definition delta_push :: "platform \<Rightarrow> call_env \<Rightarrow> MerkleCrdtEngine \<Rightarrow> MerkleCrdtEngine \<Rightarrow> MerkleCrdtEngine \<times> nat" where
  "delta_push P env src dst =
     (let remote_heads = iter_order env (heads dst); delta = get_vdiff env src remote_heads
      in if delta = [] then (dst, 0)
         else let (dst, transferred) = foldl (delta_step P) (dst, 0) delta
              in (bench_recompute_heads env dst, transferred))"

text \<open>An exchange between two positions of the mesh, and the pairs of a round.\<close>

definition exchange ::
  "(call_env \<Rightarrow> 's \<Rightarrow> 's \<Rightarrow> 's \<times> nat) \<Rightarrow> (nat \<Rightarrow> nat \<Rightarrow> call_env) \<Rightarrow> 's list \<times> nat \<Rightarrow> nat \<times> nat \<Rightarrow> 's list \<times> nat" where
  "exchange push E st ij =
     (case (st, ij) of ((es, transferred), (i, j)) \<Rightarrow>
        let (d, k) = push (E i j) (es ! i) (es ! j) in (es[j := d], transferred + k))"

definition all_pairs :: "nat \<Rightarrow> (nat \<times> nat) list" where
  "all_pairs n = concat (map (\<lambda>i. map (Pair i) (filter (\<lambda>j. i \<noteq> j) [0..<n])) [0..<n])"

definition fanout_pairs :: "(nat \<Rightarrow> nat list \<Rightarrow> nat list) \<Rightarrow> nat \<Rightarrow> nat \<Rightarrow> (nat \<times> nat) list" where
  "fanout_pairs shuffle fanout n =
     concat (map (\<lambda>i. map (Pair i) (take fanout (shuffle i (filter (\<lambda>j. j \<noteq> i) [0..<n])))) [0..<n])"

definition sync_round ::
  "(call_env \<Rightarrow> 's \<Rightarrow> 's \<Rightarrow> 's \<times> nat) \<Rightarrow> (nat \<Rightarrow> nat \<Rightarrow> call_env) \<Rightarrow> (nat \<times> nat) list \<Rightarrow> 's list \<Rightarrow> 's list \<times> nat" where
  "sync_round push E ps es = foldl (exchange push E) (es, 0) ps"

definition check_convergence :: "platform \<Rightarrow> MerkleCrdtEngine list \<Rightarrow> (bool \<times> nat) \<times> MerkleCrdtEngine list" where
  "check_convergence P es =
     (let roots = map (get_merkle_root P) es; different = card (set (map fst roots))
      in ((different = 1, different), map snd roots))"

text \<open>Rounds until the roots agree, nothing is transferred or the limit is passed.\<close>

function sync_loop ::
  "platform \<Rightarrow> (call_env \<Rightarrow> MerkleCrdtEngine \<Rightarrow> MerkleCrdtEngine \<Rightarrow> MerkleCrdtEngine \<times> nat)
    \<Rightarrow> (nat \<Rightarrow> nat \<Rightarrow> nat \<Rightarrow> call_env) \<Rightarrow> (nat \<Rightarrow> (nat \<times> nat) list) \<Rightarrow> nat
    \<Rightarrow> nat \<Rightarrow> nat \<Rightarrow> MerkleCrdtEngine list \<Rightarrow> nat \<times> nat \<times> MerkleCrdtEngine list" where
  "sync_loop P push E ps limit rounds moved es =
     (let rounds = rounds + 1; st = sync_round push (E rounds) (ps rounds) es; transferred = snd st;
          moved = moved + transferred; c = check_convergence P (fst st); conv = fst (fst c)
      in if conv \<or> transferred = 0 \<or> rounds > limit then (rounds, moved, snd c)
         else sync_loop P push E ps limit rounds moved (snd c))"
  by auto
termination by (relation "measure (\<lambda>(P, push, E, ps, limit, rounds, moved, es). Suc limit - rounds)") auto

declare sync_loop.simps [simp del]

definition sync_full_state ::
  "platform \<Rightarrow> (nat \<Rightarrow> nat \<Rightarrow> nat \<Rightarrow> call_env) \<Rightarrow> MerkleCrdtEngine list \<Rightarrow> nat \<times> nat \<times> MerkleCrdtEngine list" where
  "sync_full_state P E es = sync_loop P (full_push P) E (\<lambda>_. all_pairs (length es)) 20 0 0 es"

definition sync_delta_vdiff ::
  "platform \<Rightarrow> (nat \<Rightarrow> nat \<Rightarrow> nat \<Rightarrow> call_env) \<Rightarrow> MerkleCrdtEngine list \<Rightarrow> nat \<times> nat \<times> MerkleCrdtEngine list" where
  "sync_delta_vdiff P E es = sync_loop P (delta_push P) E (\<lambda>_. all_pairs (length es)) 20 0 0 es"

definition sync_gossip_fanout ::
  "platform \<Rightarrow> (nat \<Rightarrow> nat \<Rightarrow> nat \<Rightarrow> call_env) \<Rightarrow> (nat \<Rightarrow> nat \<Rightarrow> nat list \<Rightarrow> nat list) \<Rightarrow> nat
    \<Rightarrow> MerkleCrdtEngine list \<Rightarrow> nat \<times> nat \<times> MerkleCrdtEngine list" where
  "sync_gossip_fanout P E shuffle fanout es =
     sync_loop P (delta_push P) E (\<lambda>r. fanout_pairs (shuffle r) fanout (length es)) 50 0 0 es"

text \<open>
  A round under impairment: an exchange may be lost, and each one that is not adds its latency, with
  the value that was drawn from \<open>0..2 * jitter\<close>. Signed arithmetic wraps, as in a release build.
\<close>

definition actual_latency :: "u64 \<Rightarrow> u64 \<Rightarrow> u64 \<Rightarrow> u64" where
  "actual_latency latency jitter drawn =
     (if latency > 0
      then let j = (if jitter > 0 then drawn - jitter else 0); l = latency + j
           in if sint l < 0 then 0 else l
      else 0)"

definition impaired_pairs :: "(nat \<Rightarrow> nat \<Rightarrow> bool) \<Rightarrow> nat \<Rightarrow> (nat \<times> nat) list" where
  "impaired_pairs lost n = filter (\<lambda>(i, j). \<not> lost i j) (all_pairs n)"

definition sync_round_with_impairment ::
  "platform \<Rightarrow> (nat \<Rightarrow> nat \<Rightarrow> call_env) \<Rightarrow> (nat \<Rightarrow> nat \<Rightarrow> bool) \<Rightarrow> u64 \<Rightarrow> u64 \<Rightarrow> (nat \<Rightarrow> nat \<Rightarrow> u64)
    \<Rightarrow> MerkleCrdtEngine list \<Rightarrow> MerkleCrdtEngine list \<times> nat \<times> u64" where
  "sync_round_with_impairment P E lost latency jitter drawn es =
     (let ps = impaired_pairs lost (length es); (es, transferred) = sync_round (full_push P) E ps es
      in (es, transferred, foldl (\<lambda>t (i, j). t + actual_latency latency jitter (drawn i j)) 0 ps))"

section \<open>One exchange\<close>

lemma bench_recompute_heads_eq [simp]: "bench_recompute_heads env e = recompute_heads env e"
proof -
  have "foldl (\<lambda>ps p. insert p ps) S xs = S \<union> set xs" for S and xs :: "Hash32 list"
    by (induction xs arbitrary: S) auto
  then show ?thesis by (simp add: bench_recompute_heads_def recompute_heads_def all_parents_def)
qed

text \<open>The hashes a replica stores.\<close>

abbreviation held :: "MerkleCrdtEngine \<Rightarrow> Hash32 set" where
  "held e \<equiv> dom (get_by_hash (arena e))"

text \<open>Nodes under their hashes are added, and the heads are recomputed.\<close>

lemma add_nodes_dag_ok:
  assumes "vacant_key (vacant P)" "iter_ok env" "dag_ok P e" "\<forall>(h, n)\<in>set xs. h = compute_hash (blake P) n"
    and "e' = recompute_heads env (e\<lparr>arena := arena.add_all (vacant P) xs (arena e)\<rparr>)"
  shows "dag_ok P e'" "get_by_hash (arena e') = map_of xs ++ get_by_hash (arena e)"
proof -
  let ?a = "arena.add_all (vacant P) xs (arena e)"
  have ok: "arena_ok (arena e)" "\<forall>h n. get_by_hash (arena e) h = Some n \<longrightarrow> h = compute_hash (blake P) n"
    using assms(3) by (auto simp: dag_ok_def engine_ok_def)
  have a: "arena_ok ?a" by (rule arena.ok_add_all [OF assms(1) ok(1)])
  have lk: "get_by_hash ?a = map_of xs ++ get_by_hash (arena e)" by (rule arena.lookup_add_all [OF assms(1) ok(1)])
  have e': "e' = invalidate_root env (e\<lparr>arena := ?a, heads := frontier ?a\<rparr>)"
    using assms(5) recompute_heads_eq [of "e\<lparr>arena := ?a\<rparr>" env] a by simp
  then show "get_by_hash (arena e') = map_of xs ++ get_by_hash (arena e)" using lk by simp
  have "engine_ok P e'" unfolding e' by (rule engine_ok_invalidate [OF assms(2)]) (use a in simp_all)
  moreover have "\<forall>h n. get_by_hash ?a h = Some n \<longrightarrow> h = compute_hash (blake P) n"
    using assms(4) ok(2) by (auto simp: lk map_add_Some_iff dest!: map_of_SomeD)
  ultimately show "dag_ok P e'" by (simp add: dag_ok_def e')
qed

lemma held_iff: "arena_contains (arena e) h \<longleftrightarrow> h \<in> held e"
  by (auto simp: arena_contains_iff)

lemma arena_insert_known: "h \<in> held e \<Longrightarrow> snd (arena_insert v h n (arena e)) = arena e"
  using arena_contains_iff [of "arena e" h] by (auto simp: arena_insert_def arena_contains_def)

lemma full_step_simps:
  "fst (full_step P st (h, n)) = (fst st)\<lparr>arena := snd (arena_insert (vacant P) h n (arena (fst st)))\<rparr>"
  "\<not> snd (snd (full_step P st (h, n))) \<longleftrightarrow> \<not> snd (snd st) \<and> h \<in> held (fst st)"
  using arena_insert_known [of h "fst st" "vacant P" n]
  by (cases st; simp add: full_step_def held_iff)+

lemma full_fold:
  "fst (foldl (full_step P) st xs) = (fst st)\<lparr>arena := arena.add_all (vacant P) xs (arena (fst st))\<rparr>"
  by (induction xs arbitrary: st) (auto simp: full_step_simps arena.add_all_def)

text \<open>When nothing was added, everything was held.\<close>

lemma full_fold_idle:
  "\<not> snd (snd (foldl (full_step P) st xs)) \<Longrightarrow> \<not> snd (snd st) \<and> fst ` set xs \<subseteq> held (fst st)"
proof (induction xs arbitrary: st)
  case (Cons x xs)
  obtain h n where x: "x = (h, n)" by fastforce
  let ?st = "full_step P st x"
  have "\<not> snd (snd ?st)" "fst ` set xs \<subseteq> held (fst ?st)" using Cons.IH [of ?st] Cons.prems by simp_all
  moreover from this(1) have "\<not> snd (snd st)" "h \<in> held (fst st)" by (simp_all add: x full_step_simps)
  moreover from this(2) have "snd (arena_insert (vacant P) h n (arena (fst st))) = arena (fst st)"
    by (simp add: arena_insert_known)
  ultimately show ?case by (simp add: x full_step_simps)
qed simp

lemma delta_fold:
  "fst (foldl (delta_step P) (dst, k) ns) = dst\<lparr>arena := arena.add_all (vacant P) (hashed P ns) (arena dst)\<rparr>"
proof (induction ns arbitrary: dst k)
  case (Cons n ns)
  have "fst (delta_step P (dst, k) n) =
      dst\<lparr>arena := snd (arena_insert (vacant P) (compute_hash (blake P) n) n (arena dst))\<rparr>"
    by (auto simp: delta_step_def Let_def arena_insert_def arena_contains_def)
  then obtain j where "delta_step P (dst, k) n =
      (dst\<lparr>arena := snd (arena_insert (vacant P) (compute_hash (blake P) n) n (arena dst))\<rparr>, j)"
    by (metis prod.collapse)
  then show ?case by (simp add: Cons hashed_def arena.add_all_def)
qed (simp add: hashed_def arena.add_all_def)

text \<open>What an exchange does, if the two replicas have no hash in common under which they hold different nodes.\<close>

lemma full_push_correct:
  assumes "vacant_key (vacant P)" "iter_ok env" "dag_ok P src" "dag_ok P dst"
  shows "dag_ok P (fst (full_push P env src dst))"
    and "get_by_hash (arena (fst (full_push P env src dst))) = get_by_hash (arena src) ++ get_by_hash (arena dst)"
proof -
  let ?xs = "get_all_iter (arena src)"
  let ?added = "snd (snd (foldl (full_step P) (dst, 0, False) ?xs))"
  let ?e = "dst\<lparr>arena := arena.add_all (vacant P) ?xs (arena dst)\<rparr>"
  have src: "arena_ok (arena src)" using assms(3) by (simp add: dag_ok_def engine_ok_def)
  have xs: "\<forall>(h, n)\<in>set ?xs. h = compute_hash (blake P) n" "map_of ?xs = get_by_hash (arena src)"
    using arena.set_entries [OF src] arena.entries [OF src] assms(3) by (auto simp: dag_ok_def)
  note add = add_nodes_dag_ok [OF assms(1,2,4) xs(1) refl]
  have push: "fst (full_push P env src dst) = (if ?added then recompute_heads env ?e else ?e)"
    using full_fold [of P "(dst, 0, False)" ?xs] by (simp add: full_push_def Let_def case_prod_beta)
  have "dag_ok P (fst (full_push P env src dst)) \<and>
    get_by_hash (arena (fst (full_push P env src dst))) = get_by_hash (arena src) ++ get_by_hash (arena dst)"
  proof (cases ?added)
    case True
    then show ?thesis using add push xs(2) by simp
  next
    case False
    have dst: "arena_ok (arena dst)" using assms(4) by (simp add: dag_ok_def engine_ok_def)
    have "fst ` set ?xs = held src" using arena.set_entries [OF src] by force
    then have sub: "held src \<subseteq> held dst" using full_fold_idle [OF False] by simp
    have lk: "get_by_hash (arena ?e) = get_by_hash (arena src) ++ get_by_hash (arena dst)"
      using arena.lookup_add_all [OF assms(1) dst, of ?xs] xs(2) by simp
    moreover have "get_by_hash (arena src) ++ get_by_hash (arena dst) = get_by_hash (arena dst)"
      using sub by (auto simp: map_add_def fun_eq_iff split: option.splits)
    ultimately have same: "get_by_hash (arena ?e) = get_by_hash (arena dst)" by simp
    then have "frontier (arena ?e) = frontier (arena dst)" by (simp add: frontier_def links_def)
    then have "dag_ok P ?e" using assms(4) arena.ok_add_all [OF assms(1) dst, of ?xs] same
      by (auto simp: dag_ok_def engine_ok_def)
    then show ?thesis using False push lk by simp
  qed
  then show "dag_ok P (fst (full_push P env src dst))"
    "get_by_hash (arena (fst (full_push P env src dst))) = get_by_hash (arena src) ++ get_by_hash (arena dst)"
    by blast+
qed

text \<open>Every stored node can be reached from a head, when paths are bounded.\<close>

lemma head_above:
  assumes "h \<in> dom (get_by_hash a)" "\<forall>k x y. (x, y) \<in> links a ^^ k \<longrightarrow> k \<le> K"
  shows "\<exists>g\<in>frontier a. (g, h) \<in> (links a)\<^sup>*"
proof -
  define D where "D = {k. \<exists>g\<in>dom (get_by_hash a). (g, h) \<in> links a ^^ k}"
  have "0 \<in> D" using assms(1) by (auto simp: D_def)
  moreover have fin: "finite D" using assms(2) by (auto simp: D_def finite_nat_set_iff_bounded_le)
  ultimately have "Max D \<in> D" by (intro Max_in) auto
  then obtain g where g: "g \<in> dom (get_by_hash a)" "(g, h) \<in> links a ^^ Max D" by (auto simp: D_def)
  have "g \<notin> Range (links a)"
  proof
    assume "g \<in> Range (links a)"
    then obtain f where f: "(f, g) \<in> links a" by blast
    then have "(f, h) \<in> links a ^^ Suc (Max D)" using g(2) by (meson relpow_Suc_I2)
    moreover have "f \<in> dom (get_by_hash a)" using f by (auto simp: links_def)
    ultimately have "Suc (Max D) \<in> D" unfolding D_def by blast
    then show False using Max_ge [OF fin, of "Suc (Max D)"] by simp
  qed
  then show ?thesis using g relpow_imp_rtrancl by (fastforce simp: frontier_def)
qed

text \<open>
  A replica within a collision-free universe \<open>U\<close> of nodes: it stores nodes of \<open>U\<close> only. For exchanges
  by delta it is also closed (every parent of a stored node is stored) and the paths of \<open>U\<close> are not
  longer than the history depth.
\<close>

definition node_links :: "(Hash32 \<Rightarrow> DagNode option) \<Rightarrow> (Hash32 \<times> Hash32) set" where
  "node_links U = {(h, p). \<exists>n. U h = Some n \<and> p \<in> set (parents n)}"

definition shallow_dag :: "(Hash32 \<Rightarrow> DagNode option) \<Rightarrow> bool" where
  "shallow_dag U \<longleftrightarrow> (\<forall>k x y. (x, y) \<in> node_links U ^^ k \<longrightarrow> k \<le> 100)"

definition closed_store :: "DagArena \<Rightarrow> bool" where
  "closed_store a \<longleftrightarrow> Range (links a) \<subseteq> dom (get_by_hash a)"

definition replica :: "platform \<Rightarrow> (Hash32 \<Rightarrow> DagNode option) \<Rightarrow> MerkleCrdtEngine \<Rightarrow> bool" where
  "replica P U e \<longleftrightarrow> vacant_key (vacant P) \<and> dag_ok P e \<and> get_by_hash (arena e) \<subseteq>\<^sub>m U"

definition closed_replica :: "platform \<Rightarrow> (Hash32 \<Rightarrow> DagNode option) \<Rightarrow> MerkleCrdtEngine \<Rightarrow> bool" where
  "closed_replica P U e \<longleftrightarrow> replica P U e \<and> shallow_dag U \<and> closed_store (arena e)"

lemma links_node_links: "links a = node_links (get_by_hash a)"
  by (simp add: links_def node_links_def)

lemma node_links_mono: "S \<subseteq>\<^sub>m U \<Longrightarrow> node_links S \<subseteq> node_links U"
  by (force simp: node_links_def map_le_def dom_def)

lemma node_links_restrict: "S \<subseteq>\<^sub>m U \<Longrightarrow> (x, y) \<in> node_links U \<Longrightarrow> x \<in> dom S \<Longrightarrow> (x, y) \<in> node_links S"
  by (auto simp: node_links_def map_le_def)

lemma shallow_links:
  assumes "S \<subseteq>\<^sub>m U" "shallow_dag U" "(x, y) \<in> node_links S ^^ k"
  shows "k \<le> 100"
proof -
  have "node_links S ^^ k \<subseteq> node_links U ^^ k"
    using node_links_mono [OF assms(1)] by (induction k) auto
  then show ?thesis using assms(2,3) unfolding shallow_dag_def by blast
qed

lemma closed_store_path:
  assumes "get_by_hash a \<subseteq>\<^sub>m U" "closed_store a" "(r, h) \<in> (node_links U)\<^sup>*" "r \<in> dom (get_by_hash a)"
  shows "h \<in> dom (get_by_hash a)"
  using assms(3)
proof (induction rule: rtrancl_induct)
  case (step y z)
  then have "(y, z) \<in> links a" unfolding links_node_links by (intro node_links_restrict [OF assms(1)])
  then show ?case using assms(2) by (auto simp: closed_store_def)
qed (rule assms(4))

lemma map_le_eqI: "S \<subseteq>\<^sub>m U \<Longrightarrow> T \<subseteq>\<^sub>m U \<Longrightarrow> dom S = dom T \<Longrightarrow> S = T"
  by (metis map_le_antisym map_le_def)

lemma map_le_add: "S \<subseteq>\<^sub>m U \<Longrightarrow> T \<subseteq>\<^sub>m U \<Longrightarrow> S ++ T \<subseteq>\<^sub>m U"
  by (force simp: map_le_def map_add_def dom_def split: option.splits)

lemma full_push_replica:
  assumes "iter_ok env" "replica P U src" "replica P U dst"
  shows "replica P U (fst (full_push P env src dst))"
    and "held (fst (full_push P env src dst)) = held src \<union> held dst"
  using full_push_correct [of P env src dst] assms map_le_add by (auto simp: replica_def)

lemma delta_push_closed:
  assumes "iter_ok env" "closed_replica P U src" "closed_replica P U dst"
  shows "closed_replica P U (fst (delta_push P env src dst))"
    and "held (fst (delta_push P env src dst)) = held src \<union> held dst"
proof -
  let ?L = "links (arena src)" let ?R = "heads dst" let ?delta = "get_vdiff env src (iter_order env ?R)"
  have src: "vacant_key (vacant P)" "dag_ok P src" "get_by_hash (arena src) \<subseteq>\<^sub>m U" "closed_store (arena src)"
    and dst: "dag_ok P dst" "get_by_hash (arena dst) \<subseteq>\<^sub>m U" "closed_store (arena dst)" and U: "shallow_dag U"
    using assms(2,3) by (simp_all add: closed_replica_def replica_def)
  have heads: "finite (heads src)" "heads src = frontier (arena src)" "finite ?R" "?R \<subseteq> held dst"
    "\<forall>h n. get_by_hash (arena src) h = Some n \<longrightarrow> h = compute_hash (blake P) n"
    using src(2) dst(1) by (auto simp: dag_ok_def engine_ok_def frontier_def)
  have short: "\<forall>k x y. (x, y) \<in> ?L ^^ k \<longrightarrow> k \<le> 100" using shallow_links [OF src(3) U] by (simp add: links_node_links)
  have ex: "vdiff_hashes env src ?R = (Restr ?L (- ?R))\<^sup>* `` (heads src - ?R)"
    by (rule vdiff_hashes_exact [OF assms(1) heads(1)]) (use short in blast)
  have delta: "set ?delta = {n. \<exists>h\<in>vdiff_hashes env src ?R. get_by_hash (arena src) h = Some n}"
    using set_get_vdiff [of env src "iter_order env ?R"] heads(3) assms(1) by simp
  have all: "h \<in> fst ` set (hashed P ?delta) \<union> held dst" if h: "h \<in> held src" for h
  proof -
    obtain n where n: "get_by_hash (arena src) h = Some n" using h by blast
    obtain g where g: "g \<in> heads src" "(g, h) \<in> ?L\<^sup>*" using head_above [OF h short] heads(2) by blast
    from path_split [OF g(2), of ?R] show ?thesis
    proof
      assume "g \<notin> ?R \<and> (g, h) \<in> (Restr ?L (- ?R))\<^sup>*"
      then have "n \<in> set ?delta" using g(1) n unfolding delta ex by blast
      then show ?thesis using heads(5) n by (force simp: hashed_def)
    next
      assume "\<exists>r\<in>?R. (r, h) \<in> ?L\<^sup>*"
      then obtain r where "r \<in> ?R" "(r, h) \<in> (node_links U)\<^sup>*"
        using rtrancl_mono [OF node_links_mono [OF src(3)]] by (auto simp: links_node_links)
      then show ?thesis using closed_store_path [OF dst(2,3)] heads(4) by blast
    qed
  qed
  have mem: "get_by_hash (arena src) h = Some n" if "(h, n) \<in> set (hashed P ?delta)" for h n
  proof -
    have "n \<in> set ?delta" "h = compute_hash (blake P) n" using that by (auto simp: hashed_def)
    then show ?thesis using heads(5) unfolding delta by auto
  qed
  have sub: "map_of (hashed P ?delta) \<subseteq>\<^sub>m get_by_hash (arena src)"
    using mem [OF map_of_SomeD] unfolding map_le_def by (metis domD)
  let ?dst = "fst (delta_push P env src dst)"
  have new: "dag_ok P ?dst" "get_by_hash (arena ?dst) = map_of (hashed P ?delta) ++ get_by_hash (arena dst)"
  proof -
    let ?e = "recompute_heads env (dst\<lparr>arena := arena.add_all (vacant P) (hashed P ?delta) (arena dst)\<rparr>)"
    have "dag_ok P ?e" "get_by_hash (arena ?e) = map_of (hashed P ?delta) ++ get_by_hash (arena dst)"
      by (rule add_nodes_dag_ok [OF src(1) assms(1) dst(1) _ refl], force simp: hashed_def)+
    moreover have "?dst = (if ?delta = [] then dst else ?e)"
      using delta_fold [of P dst 0 ?delta] by (simp add: delta_push_def Let_def case_prod_beta)
    ultimately show "dag_ok P ?dst" "get_by_hash (arena ?dst) = map_of (hashed P ?delta) ++ get_by_hash (arena dst)"
      using dst(1) by (auto simp: hashed_def)
  qed
  have U': "get_by_hash (arena ?dst) \<subseteq>\<^sub>m U"
    unfolding new(2) by (rule map_le_add [OF map_le_trans [OF sub src(3)] dst(2)])
  show held: "held ?dst = held src \<union> held dst"
    using all mem unfolding new(2) by (force simp: dom_map_of_conv_image_fst)
  have "p \<in> held src \<union> held dst" if "(h, p) \<in> links (arena ?dst)" for h p
  proof -
    have hp: "(h, p) \<in> node_links U" using that node_links_mono [OF U'] by (auto simp: links_node_links)
    have "h \<in> held src \<union> held dst" using that unfolding held [symmetric] by (auto simp: links_def)
    then show ?thesis
      using closed_store_path [OF src(3,4) r_into_rtrancl [OF hp]] closed_store_path [OF dst(2,3) r_into_rtrancl [OF hp]]
      by blast
  qed
  then have "closed_store (arena ?dst)" unfolding closed_store_def held by blast
  then show "closed_replica P U ?dst" using src(1) new(1) U' U by (simp add: closed_replica_def replica_def)
qed

section \<open>Rounds\<close>

text \<open>
  The contract of an exchange: it keeps the invariant of the replicas and gives the receiver what
  the sender holds. Then a list of exchanges loses nothing, invents nothing, and delivers along
  every pair.
\<close>

locale push_mesh =
  fixes ok :: "'s \<Rightarrow> bool" and know :: "'s \<Rightarrow> 'a set" and push :: "call_env \<Rightarrow> 's \<Rightarrow> 's \<Rightarrow> 's \<times> nat"
  assumes push_ok: "iter_ok env \<Longrightarrow> ok s \<Longrightarrow> ok d \<Longrightarrow> ok (fst (push env s d))"
    and push_know: "iter_ok env \<Longrightarrow> ok s \<Longrightarrow> ok d \<Longrightarrow> know (fst (push env s d)) = know s \<union> know d"
begin

definition all_known :: "'s list \<Rightarrow> 'a set" where
  "all_known es = (\<Union>e\<in>set es. know e)"

lemma all_known_nth: "all_known es = (\<Union>k<length es. know (es ! k))"
  by (auto simp: all_known_def set_conv_nth)

lemma exchange_step:
  assumes "iter_ok (E i j)" "\<forall>e\<in>set es. ok e" "i < length es" "j < length es"
    and "fst (exchange push E (es, t) (i, j)) = fs"
  shows "length fs = length es" "\<forall>e\<in>set fs. ok e"
    and "\<forall>k<length es. know (fs ! k) = (if k = j then know (es ! i) \<union> know (es ! j) else know (es ! k))"
    and "all_known fs = all_known es"
proof -
  have ok: "ok (es ! i)" "ok (es ! j)" using assms(2-4) by simp_all
  let ?d = "fst (push (E i j) (es ! i) (es ! j))"
  have fs: "fs = es[j := ?d]" using assms(5) by (auto simp: exchange_def Let_def split: prod.splits)
  show "length fs = length es" by (simp add: fs)
  show "\<forall>e\<in>set fs. ok e" using assms(2) push_ok [OF assms(1) ok] by (auto simp: fs dest!: set_update_subset_insert [THEN subsetD])
  show k: "\<forall>k<length es. know (fs ! k) = (if k = j then know (es ! i) \<union> know (es ! j) else know (es ! k))"
    using push_know [OF assms(1) ok] assms(4) by (simp add: fs)
  show "all_known fs = all_known es"
    using k assms(3,4) unfolding all_known_nth by (auto simp: fs split: if_splits)
qed

lemma exchanges:
  assumes "\<forall>i j. iter_ok (E i j)" "\<forall>e\<in>set es. ok e" "\<forall>(i, j)\<in>set ps. i < length es \<and> j < length es"
    and "fst (foldl (exchange push E) (es, t) ps) = fs"
  shows "length fs = length es \<and> (\<forall>e\<in>set fs. ok e) \<and> all_known fs = all_known es
    \<and> (\<forall>k<length es. know (es ! k) \<subseteq> know (fs ! k))
    \<and> (\<forall>(i, j)\<in>set ps. know (es ! i) \<subseteq> know (fs ! j))"
  using assms(2-4)
proof (induction ps arbitrary: es t)
  case (Cons p ps)
  obtain i j where p: "p = (i, j)" by fastforce
  obtain gs u where g: "exchange push E (es, t) (i, j) = (gs, u)" by fastforce
  then have "fst (exchange push E (es, t) (i, j)) = gs" by simp
  note step = exchange_step [OF _ Cons.prems(1) _ _ this]
  have ij: "i < length es" "j < length es" using Cons.prems(2) p by auto
  note s = step [OF assms(1) [rule_format] ij]
  have IH: "length fs = length gs \<and> (\<forall>e\<in>set fs. ok e) \<and> all_known fs = all_known gs
    \<and> (\<forall>k<length gs. know (gs ! k) \<subseteq> know (fs ! k)) \<and> (\<forall>(i, j)\<in>set ps. know (gs ! i) \<subseteq> know (fs ! j))"
    by (rule Cons.IH [where t = u]) (use s Cons.prems p g in auto)
  have mono: "know (es ! k) \<subseteq> know (gs ! k)" if "k < length es" for k using s(3) that by auto
  have "know (es ! k) \<subseteq> know (fs ! l)" if "(k, l) \<in> set (p # ps)" for k l
  proof (cases "(k, l) = (i, j)")
    case True
    then have "know (es ! k) \<subseteq> know (gs ! l)" using s(3) ij by auto
    also have "\<dots> \<subseteq> know (fs ! l)" using IH True ij s(1) by simp
    finally show ?thesis .
  next
    case False
    then have "(k, l) \<in> set ps" "k < length es" using that p Cons.prems(2) by auto
    then show ?thesis using IH mono [of k] by blast
  qed
  then have "\<forall>(k, l)\<in>set (p # ps). know (es ! k) \<subseteq> know (fs ! l)" by blast
  moreover have "know (es ! k) \<subseteq> know (fs ! k)" if "k < length es" for k
    by (rule subset_trans [OF mono [OF that]]) (use IH that s(1) in simp)
  ultimately show ?case using IH s(1,4) by (intro conjI) (blast | simp only: simp_thms)+
qed simp

text \<open>When every ordered pair takes part, everyone knows everything.\<close>

lemma everyone_knows:
  assumes "\<forall>i j. iter_ok (E i j)" "\<forall>e\<in>set es. ok e" "set (all_pairs (length es)) \<subseteq> set ps"
    and "\<forall>(i, j)\<in>set ps. i < length es \<and> j < length es" "fst (foldl (exchange push E) (es, t) ps) = fs" "e \<in> set fs"
  shows "know e = all_known es"
proof -
  note x = exchanges [OF assms(1,2,4,5)]
  obtain j where j: "j < length es" "e = fs ! j" using assms(6) x by (metis in_set_conv_nth)
  have "know (es ! i) \<subseteq> know e" if "i < length es" for i
  proof (cases "i = j")
    case False
    then have "(i, j) \<in> set ps" using assms(3) that j(1) by (force simp: all_pairs_def)
    then show ?thesis using x j(2) by blast
  qed (use x j in blast)
  then have "all_known es \<subseteq> know e" by (auto simp: all_known_nth)
  moreover have "know e \<subseteq> all_known fs" using assms(6) by (auto simp: all_known_def)
  ultimately show ?thesis using x by blast
qed

end

interpretation full: push_mesh "replica P U" held "full_push P" for P U
  by unfold_locales (simp_all add: full_push_replica)

interpretation delta: push_mesh "closed_replica P U" held "delta_push P" for P U
  by unfold_locales (simp_all add: delta_push_closed)

text \<open>What a mesh holds together, and that its replicas are in this universe when no two nodes collide.\<close>

definition mesh_nodes :: "MerkleCrdtEngine list \<Rightarrow> DagNode set" where
  "mesh_nodes es = (\<Union>e\<in>set es. ran (get_by_hash (arena e)))"

definition mesh_links :: "MerkleCrdtEngine list \<Rightarrow> (Hash32 \<times> Hash32) set" where
  "mesh_links es = (\<Union>e\<in>set es. links (arena e))"

definition universe :: "MerkleCrdtEngine list \<Rightarrow> Hash32 \<Rightarrow> DagNode option" where
  "universe es = foldr (\<lambda>e U. get_by_hash (arena e) ++ U) es Map.empty"

lemma universe_from: "universe es h = Some n \<Longrightarrow> \<exists>e\<in>set es. get_by_hash (arena e) h = Some n"
  by (induction es) (auto simp: universe_def map_add_Some_iff)

lemma universe_dom: "dom (universe es) = (\<Union>e\<in>set es. held e)"
  by (induction es) (auto simp: universe_def)

lemma universe_links: "node_links (universe es) \<subseteq> mesh_links es"
  using universe_from by (fastforce simp: node_links_def mesh_links_def links_def)

lemma universe_replica:
  assumes "vacant_key (vacant P)" "\<forall>e\<in>set es. dag_ok P e" "inj_on (compute_hash (blake P)) (mesh_nodes es)" "e \<in> set es"
  shows "replica P (universe es) e"
proof -
  have "universe es h = Some n" if n: "get_by_hash (arena e) h = Some n" for h n
  proof -
    obtain m where m: "universe es h = Some m" using n assms(4) universe_dom [of es] by blast
    then obtain f where "f \<in> set es" "get_by_hash (arena f) h = Some m" using universe_from by blast
    moreover from this n have "compute_hash (blake P) m = compute_hash (blake P) n"
      using assms(2,4) unfolding dag_ok_def by metis
    moreover from calculation have "m \<in> mesh_nodes es" by (auto simp: mesh_nodes_def ran_def)
    moreover have "n \<in> mesh_nodes es" using n assms(4) by (auto simp: mesh_nodes_def ran_def)
    ultimately have "m = n" using inj_onD [OF assms(3)] by blast
    then show ?thesis using m by simp
  qed
  then show ?thesis using assms(1,2,4) by (auto simp: replica_def map_le_def)
qed

text \<open>Replicas of one universe that hold the same hashes have the same nodes and the same root.\<close>

lemma replica_ran: "replica P U e \<Longrightarrow> ran (get_by_hash (arena e)) = {n. \<exists>h\<in>held e. U h = Some n}"
  by (force simp: replica_def map_le_def ran_def)

lemma replica_root:
  assumes "replica P U e" "replica P U f" "held e = held f"
  shows "fst (get_merkle_root P e) = fst (get_merkle_root P f)"
proof -
  have "get_by_hash (arena e) = get_by_hash (arena f)"
    using assms by (intro map_le_eqI [of _ U]) (simp_all add: replica_def)
  then have "heads e = heads f" using assms(1,2) by (simp add: replica_def dag_ok_def frontier_def links_def)
  then show ?thesis using assms(1,2) get_merkle_root_correct(1) by (simp add: replica_def dag_ok_def)
qed

lemma replica_after_root:
  assumes "replica P U e"
  shows "replica P U (snd (get_merkle_root P e)) \<and> arena (snd (get_merkle_root P e)) = arena e"
proof -
  have "engine_ok P e" using assms by (simp add: replica_def dag_ok_def)
  then show ?thesis using assms get_merkle_root_dag_ok [of P e] get_merkle_root_correct(3) [of P e] by (simp add: replica_def)
qed

lemma check_agreed:
  assumes "fs \<noteq> []" "\<forall>e\<in>set fs. replica P U e \<and> held e = K"
  shows "fst (fst (check_convergence P fs))" "length (snd (check_convergence P fs)) = length fs"
    and "\<forall>e\<in>set (snd (check_convergence P fs)). replica P U e \<and> held e = K"
proof -
  obtain f where f: "f \<in> set fs" using assms(1) by fastforce
  have "\<forall>e\<in>set fs. fst (get_merkle_root P e) = fst (get_merkle_root P f)"
  proof
    fix e assume "e \<in> set fs"
    then show "fst (get_merkle_root P e) = fst (get_merkle_root P f)"
      using assms(2) f by (intro replica_root [of P U]) simp_all
  qed
  then have "(\<lambda>e. fst (get_merkle_root P e)) ` set fs = {fst (get_merkle_root P f)}" using f by blast
  then have "card (set (map fst (map (get_merkle_root P) fs))) = 1" by (simp add: image_image)
  then show "fst (fst (check_convergence P fs))" by (simp add: check_convergence_def Let_def image_image)
  show "length (snd (check_convergence P fs)) = length fs" by (simp add: check_convergence_def Let_def)
  show "\<forall>e\<in>set (snd (check_convergence P fs)). replica P U e \<and> held e = K"
  proof
    fix e assume "e \<in> set (snd (check_convergence P fs))"
    then obtain g where "g \<in> set fs" "e = snd (get_merkle_root P g)" by (auto simp: check_convergence_def Let_def)
    then show "replica P U e \<and> held e = K" using assms(2) replica_after_root [of P U g] by simp
  qed
qed

text \<open>A loop whose first round makes the replicas agree ends after it.\<close>

lemma loop_agrees:
  assumes "fst (sync_round push (E 1) (ps 1) es) = fs" "fs \<noteq> []" "\<forall>e\<in>set fs. replica P U e \<and> held e = K"
    and "sync_loop P push E ps limit 0 0 es = (rounds, moved, gs)"
  shows "rounds = 1 \<and> length gs = length fs \<and> (\<forall>e\<in>set gs. replica P U e \<and> held e = K)"
proof -
  note c = check_agreed [OF assms(2,3)]
  have "(rounds, moved, gs) = (1, snd (sync_round push (E 1) (ps 1) es), snd (check_convergence P fs))"
    using assms(1) c(1) unfolding assms(4) [symmetric] by (subst sync_loop.simps) (simp add: Let_def)
  then show ?thesis using c(2,3) by simp
qed

text \<open>What the replicas of one universe that hold everything have in common.\<close>

lemma agreed_result:
  assumes "\<forall>e\<in>set gs. replica P (universe es) e \<and> held e = dom (universe es)"
    and "ran (universe es) = mesh_nodes es"
  shows "(\<forall>e\<in>set gs. dag_ok P e \<and> ran (get_by_hash (arena e)) = mesh_nodes es)
    \<and> (\<forall>e\<in>set gs. \<forall>f\<in>set gs. fst (get_merkle_root P e) = fst (get_merkle_root P f))"
proof -
  have "ran (universe es) = {n. \<exists>h\<in>dom (universe es). universe es h = Some n}" by (force simp: ran_def)
  then have "ran (get_by_hash (arena e)) = mesh_nodes es" if "e \<in> set gs" for e
    using replica_ran [of P "universe es" e] assms that by simp
  moreover have "fst (get_merkle_root P e) = fst (get_merkle_root P f)" if "e \<in> set gs" "f \<in> set gs" for e f
    using assms(1) that by (intro replica_root [of P "universe es"]) simp_all
  moreover have "dag_ok P e" if "e \<in> set gs" for e using assms(1) that by (simp add: replica_def)
  ultimately show ?thesis by blast
qed

lemma universe_ran:
  assumes "\<forall>e\<in>set es. replica P (universe es) e"
  shows "ran (universe es) = mesh_nodes es"
proof
  show "ran (universe es) \<subseteq> mesh_nodes es" using universe_from by (fastforce simp: ran_def mesh_nodes_def)
  show "mesh_nodes es \<subseteq> ran (universe es)"
  proof
    fix n assume "n \<in> mesh_nodes es"
    then obtain e h where "e \<in> set es" "get_by_hash (arena e) h = Some n" by (auto simp: mesh_nodes_def ran_def)
    then have "universe es h = Some n" using assms by (force simp: replica_def map_le_def)
    then show "n \<in> ran (universe es)" by (auto simp: ran_def)
  qed
qed

lemma all_pairs_bound: "\<forall>(i, j)\<in>set (all_pairs n). i < n \<and> j < n"
  by (auto simp: all_pairs_def)

text \<open>One round of transfers between all pairs: every replica is in the universe of all and holds all of it.\<close>

lemma full_round_agrees:
  assumes "vacant_key (vacant P)" "\<forall>i j. iter_ok (E i j)" "es \<noteq> []" "\<forall>e\<in>set es. dag_ok P e"
    and "inj_on (compute_hash (blake P)) (mesh_nodes es)" "gs = fst (sync_round (full_push P) E (all_pairs (length es)) es)"
  shows "gs \<noteq> []" "length gs = length es" "\<forall>e\<in>set gs. replica P (universe es) e \<and> held e = dom (universe es)"
    and "ran (universe es) = mesh_nodes es"
proof -
  have cl: "\<forall>e\<in>set es. replica P (universe es) e" using universe_replica [OF assms(1,4,5)] by simp
  note x = full.exchanges [OF assms(2) cl all_pairs_bound, of 0 gs] full.everyone_knows [OF assms(2) cl subset_refl all_pairs_bound, of 0 gs]
  show len: "length gs = length es" using x assms(6) by (simp add: sync_round_def)
  then show "gs \<noteq> []" using assms(3) by auto
  show "\<forall>e\<in>set gs. replica P (universe es) e \<and> held e = dom (universe es)"
    using x assms(6) by (simp add: sync_round_def universe_dom full.all_known_def)
  show "ran (universe es) = mesh_nodes es" by (rule universe_ran [OF cl])
qed

text \<open>
  C25: Anti-entropy by deltas: a mesh of replicas that satisfy the invariant, in which every parent of a
  stored node is stored where the node is, no two nodes collide and no path is longer than the
  history depth, has converged after one round of exchanges between all pairs: every replica holds
  the nodes of all, all have one root, and the invariant still holds.
\<close>

theorem delta_sync_converges:
  assumes "vacant_key (vacant P)" "\<forall>r i j. iter_ok (E r i j)" "es \<noteq> []"
    and "\<forall>e\<in>set es. dag_ok P e \<and> closed_store (arena e)" "inj_on (compute_hash (blake P)) (mesh_nodes es)"
    and "\<forall>k x y. (x, y) \<in> mesh_links es ^^ k \<longrightarrow> k \<le> 100"
    and "sync_delta_vdiff P E es = (rounds, moved, fs)"
  shows "rounds = 1 \<and> length fs = length es
    \<and> (\<forall>e\<in>set fs. dag_ok P e \<and> ran (get_by_hash (arena e)) = mesh_nodes es)
    \<and> (\<forall>e\<in>set fs. \<forall>f\<in>set fs. fst (get_merkle_root P e) = fst (get_merkle_root P f))"
proof -
  let ?U = "universe es"
  have "shallow_dag ?U"
  proof -
    have "node_links ?U ^^ k \<subseteq> mesh_links es ^^ k" for k
      using universe_links [of es] by (induction k) auto
    then show ?thesis using assms(6) unfolding shallow_dag_def by blast
  qed
  then have cl: "\<forall>e\<in>set es. closed_replica P ?U e"
    using universe_replica [OF assms(1) _ assms(5)] assms(4) by (simp add: closed_replica_def)
  let ?gs = "fst (sync_round (delta_push P) (E 1) (all_pairs (length es)) es)"
  have E: "\<forall>i j. iter_ok (E 1 i j)" using assms(2) by blast
  note x = delta.exchanges [OF E cl all_pairs_bound, of 0 ?gs] delta.everyone_knows [OF E cl subset_refl all_pairs_bound, of 0 ?gs]
  have len: "length ?gs = length es" and agree: "\<forall>e\<in>set ?gs. replica P ?U e \<and> held e = dom ?U"
    using x by (auto simp: sync_round_def closed_replica_def universe_dom delta.all_known_def)
  then have ne: "?gs \<noteq> []" using assms(3) by auto
  have "rounds = 1 \<and> length fs = length es \<and> (\<forall>e\<in>set fs. replica P ?U e \<and> held e = dom ?U)"
    using loop_agrees [where ps = "\<lambda>_. all_pairs (length es)" and push = "delta_push P" and E = E and es = es, OF refl ne agree] assms(7) len
    by (simp add: sync_delta_vdiff_def)
  moreover have "ran ?U = mesh_nodes es" using cl by (intro universe_ran [of es P]) (simp add: closed_replica_def)
  ultimately show ?thesis using agreed_result [of fs P es] by blast
qed

text \<open>
  The same for transfers of the whole store, where neither the parents nor the depth matter.
\<close>

theorem full_sync_converges:
  assumes "vacant_key (vacant P)" "\<forall>r i j. iter_ok (E r i j)" "es \<noteq> []"
    and "\<forall>e\<in>set es. dag_ok P e" "inj_on (compute_hash (blake P)) (mesh_nodes es)"
    and "sync_full_state P E es = (rounds, moved, fs)"
  shows "rounds = 1 \<and> length fs = length es
    \<and> (\<forall>e\<in>set fs. dag_ok P e \<and> ran (get_by_hash (arena e)) = mesh_nodes es)
    \<and> (\<forall>e\<in>set fs. \<forall>f\<in>set fs. fst (get_merkle_root P e) = fst (get_merkle_root P f))"
proof -
  have E: "\<forall>i j. iter_ok (E 1 i j)" using assms(2) by blast
  note g = full_round_agrees [OF assms(1) E assms(3-5) refl]
  have "rounds = 1 \<and> length fs = length es \<and> (\<forall>e\<in>set fs. replica P (universe es) e \<and> held e = dom (universe es))"
    using loop_agrees [where ps = "\<lambda>_. all_pairs (length es)" and push = "full_push P" and E = E and es = es, OF refl g(1,3)] assms(6) g(2)
    by (simp add: sync_full_state_def)
  then show ?thesis using agreed_result [of fs P es] g(4) by blast
qed

section \<open>Loss\<close>

text \<open>Rounds with losses, one pattern of lost exchanges per round.\<close>

fun impaired_rounds ::
  "platform \<Rightarrow> (nat \<Rightarrow> nat \<Rightarrow> call_env) \<Rightarrow> (nat \<Rightarrow> nat \<Rightarrow> bool) list \<Rightarrow> MerkleCrdtEngine list \<Rightarrow> MerkleCrdtEngine list" where
  "impaired_rounds P E [] es = es"
| "impaired_rounds P E (lost # losts) es =
     impaired_rounds P E losts (fst (sync_round_with_impairment P E lost 0 0 (\<lambda>_ _. 0) es))"

lemma impaired_exchanges:
  assumes "\<forall>i j. iter_ok (E i j)" "\<forall>e\<in>set es. replica P U e" "impaired_rounds P E losts es = fs"
  shows "length fs = length es \<and> (\<forall>e\<in>set fs. replica P U e) \<and> full.all_known fs = full.all_known es
    \<and> (\<forall>k<length es. held (es ! k) \<subseteq> held (fs ! k))
    \<and> (\<forall>lost\<in>set losts. \<forall>i<length es. \<forall>j<length es. i \<noteq> j \<longrightarrow> \<not> lost i j \<longrightarrow> held (es ! i) \<subseteq> held (fs ! j))"
  using assms(2,3)
proof (induction losts arbitrary: es)
  case (Cons lost losts)
  let ?ps = "impaired_pairs lost (length es)"
  let ?gs = "fst (foldl (exchange (full_push P) E) (es, 0) ?ps)"
  have bound: "\<forall>(i, j)\<in>set ?ps. i < length es \<and> j < length es"
    using all_pairs_bound by (auto simp: impaired_pairs_def)
  note x = full.exchanges [OF assms(1) Cons.prems(1) bound refl, of 0]
  have g: "fst (sync_round_with_impairment P E lost 0 0 (\<lambda>_ _. 0) es) = ?gs"
    by (simp add: sync_round_with_impairment_def sync_round_def Let_def case_prod_beta)
  have ok: "\<forall>e\<in>set ?gs. replica P U e" and len: "length ?gs = length es"
    and known: "full.all_known ?gs = full.all_known es"
    and mono: "\<forall>k<length es. held (es ! k) \<subseteq> held (?gs ! k)"
    and sent: "\<forall>(i, j)\<in>set ?ps. held (es ! i) \<subseteq> held (?gs ! j)"
    by (rule x [THEN conjunct2, THEN conjunct1] x [THEN conjunct1] x [THEN conjunct2, THEN conjunct2, THEN conjunct1]
        x [THEN conjunct2, THEN conjunct2, THEN conjunct2, THEN conjunct1]
        x [THEN conjunct2, THEN conjunct2, THEN conjunct2, THEN conjunct2])+
  note y = Cons.IH [OF ok, unfolded len known]
  have fs: "impaired_rounds P E losts ?gs = fs" using Cons.prems(2) g by simp
  have later: "\<forall>k<length es. held (?gs ! k) \<subseteq> held (fs ! k)"
    and rest: "\<forall>lost\<in>set losts. \<forall>i<length es. \<forall>j<length es. i \<noteq> j \<longrightarrow> \<not> lost i j \<longrightarrow> held (?gs ! i) \<subseteq> held (fs ! j)"
    using y [OF fs] by blast+
  have "held (es ! i) \<subseteq> held (fs ! j)"
    if "l \<in> set (lost # losts)" "i < length es" "j < length es" "i \<noteq> j" "\<not> l i j" for l i j
  proof (cases "l = lost")
    case True
    then have "(i, j) \<in> set ?ps" using that by (auto simp: impaired_pairs_def all_pairs_def)
    then have "held (es ! i) \<subseteq> held (?gs ! j)" using sent by blast
    also have "\<dots> \<subseteq> held (fs ! j)" using later that(3) by blast
    finally show ?thesis .
  next
    case False
    then have "held (?gs ! i) \<subseteq> held (fs ! j)" using rest that by simp
    then show ?thesis using mono that(2) by blast
  qed
  then have "\<forall>l\<in>set (lost # losts). \<forall>i<length es. \<forall>j<length es. i \<noteq> j \<longrightarrow> \<not> l i j \<longrightarrow> held (es ! i) \<subseteq> held (fs ! j)"
    by blast
  moreover have "\<forall>k<length es. held (es ! k) \<subseteq> held (fs ! k)"
    using mono later by (meson subset_trans)
  moreover note y [OF fs]
  ultimately show ?case by (elim conjE) (intro conjI, assumption+)
qed simp

text \<open>
  Loss only delays: whatever exchanges are lost in whatever rounds, when every replica got through to
  every other one in some round, all replicas hold the nodes of all and have one root.
\<close>

theorem loss_only_delays:
  assumes "vacant_key (vacant P)" "\<forall>i j. iter_ok (E i j)" "\<forall>e\<in>set es. dag_ok P e"
    and "inj_on (compute_hash (blake P)) (mesh_nodes es)" "impaired_rounds P E losts es = fs"
    and "\<forall>i<length es. \<forall>j<length es. i \<noteq> j \<longrightarrow> (\<exists>lost\<in>set losts. \<not> lost i j)"
  shows "length fs = length es
    \<and> (\<forall>e\<in>set fs. dag_ok P e \<and> ran (get_by_hash (arena e)) = mesh_nodes es)
    \<and> (\<forall>e\<in>set fs. \<forall>f\<in>set fs. fst (get_merkle_root P e) = fst (get_merkle_root P f))"
proof -
  let ?U = "universe es"
  have cl: "\<forall>e\<in>set es. replica P ?U e" using universe_replica [OF assms(1,3,4)] by simp
  note x = impaired_exchanges [OF assms(2) cl assms(5)]
  have len: "length fs = length es"
    and ok: "\<forall>e\<in>set fs. replica P ?U e" and known: "full.all_known fs = full.all_known es"
    and own: "\<forall>k<length es. held (es ! k) \<subseteq> held (fs ! k)"
    and sent: "\<forall>lost\<in>set losts. \<forall>i<length es. \<forall>j<length es. i \<noteq> j \<longrightarrow> \<not> lost i j \<longrightarrow> held (es ! i) \<subseteq> held (fs ! j)"
    by (rule x [THEN conjunct1] x [THEN conjunct2, THEN conjunct1] x [THEN conjunct2, THEN conjunct2, THEN conjunct1]
        x [THEN conjunct2, THEN conjunct2, THEN conjunct2, THEN conjunct1]
        x [THEN conjunct2, THEN conjunct2, THEN conjunct2, THEN conjunct2])+
  have all: "held e = dom ?U" if e: "e \<in> set fs" for e
  proof
    obtain j where j: "j < length es" "e = fs ! j" using e len by (auto simp: in_set_conv_nth)
    have "held (es ! i) \<subseteq> held e" if i: "i < length es" for i
    proof (cases "i = j")
      case False
      then obtain lost where "lost \<in> set losts" "\<not> lost i j" using assms(6) i j(1) by blast
      then show ?thesis using sent i j(1) False unfolding j(2) by simp
    qed (use own j in simp)
    then show "dom ?U \<subseteq> held e" by (auto simp: universe_dom set_conv_nth)
    have "held e \<subseteq> full.all_known fs" using that by (auto simp: full.all_known_def)
    then show "held e \<subseteq> dom ?U" unfolding known by (simp add: full.all_known_def universe_dom)
  qed
  then show ?thesis using len ok agreed_result [of fs P es, OF _ universe_ran [OF cl]] by blast
qed

section \<open>What a Merkle root tells\<close>

text \<open>What is hashed for a root, and that no two of these strings collide, nor one with the empty root.\<close>

definition root_string :: "MerkleCrdtEngine \<Rightarrow> bytes" where
  "root_string e = concat (sorted_list_of_set (heads e))"

definition roots_free :: "blake3 \<Rightarrow> bytes set \<Rightarrow> bool" where
  "roots_free B X \<longleftrightarrow> inj_on B X \<and> replicate 32 0 \<notin> B ` X"

lemma concat_digests_inj:
  "\<forall>x\<in>set xs. length x = 32 \<Longrightarrow> \<forall>y\<in>set ys. length y = 32 \<Longrightarrow> concat xs = concat ys \<Longrightarrow> xs = (ys :: bytes list)"
proof (induction xs arbitrary: ys)
  case Nil
  then show ?case by (cases ys) auto
next
  case (Cons x xs)
  have "concat ys = x @ concat xs" "x \<noteq> []" using Cons.prems by auto
  then have "concat ys \<noteq> []" by (metis append_is_Nil_conv)
  then obtain y zs where ys: "ys = y # zs" by (cases ys) auto
  have "x = y \<and> concat xs = concat zs" using Cons.prems ys by simp
  then show ?case using Cons.IH [of zs] Cons.prems ys by simp
qed

lemma root_string_inj:
  assumes "digest32 (blake P)" "dag_ok P e" "dag_ok P f" "root_string e = root_string f"
  shows "heads e = heads f"
proof -
  have "finite (heads x) \<and> (\<forall>h\<in>heads x. length h = 32)" if "dag_ok P x" for x
  proof -
    have "\<exists>n. h = compute_hash (blake P) n" if h: "h \<in> heads x" for h
    proof -
      obtain n where "get_by_hash (arena x) h = Some n" using h \<open>dag_ok P x\<close> by (auto simp: dag_ok_def frontier_def)
      then show ?thesis using \<open>dag_ok P x\<close> by (auto simp: dag_ok_def)
    qed
    then show ?thesis using assms(1) that by (fastforce simp: digest32_def compute_hash_def dag_ok_def engine_ok_def)
  qed
  from this [OF assms(2)] this [OF assms(3)] have "sorted_list_of_set (heads e) = sorted_list_of_set (heads f)"
    using assms(4) by (intro concat_digests_inj) (simp_all add: root_string_def)
  then show ?thesis using \<open>dag_ok P e\<close> \<open>dag_ok P f\<close>
    by (metis dag_ok_def engine_ok_def set_sorted_list_of_set)
qed

text \<open>
  C26: The root is a fingerprint of the store: two replicas in which every parent of a stored node is
  stored, whose nodes and root strings do not collide and whose paths are bounded, have the same
  Merkle root exactly when they hold the same nodes.
\<close>

theorem root_determines_store:
  assumes "vacant_key (vacant P)" "digest32 (blake P)" "dag_ok P e" "dag_ok P f"
    and "closed_store (arena e)" "closed_store (arena f)"
    and "inj_on (compute_hash (blake P)) (mesh_nodes [e, f])" "roots_free (blake P) {root_string e, root_string f}"
    and "\<forall>k x y. (x, y) \<in> mesh_links [e, f] ^^ k \<longrightarrow> k \<le> K"
  shows "fst (get_merkle_root P e) = fst (get_merkle_root P f)
    \<longleftrightarrow> ran (get_by_hash (arena e)) = ran (get_by_hash (arena f))"
proof
  let ?U = "universe [e, f]"
  have U: "replica P ?U e" "replica P ?U f"
    using universe_replica [OF assms(1) _ assms(7)] assms(3,4) by simp_all
  assume "fst (get_merkle_root P e) = fst (get_merkle_root P f)"
  then have roots: "root_of (blake P) (heads e) = root_of (blake P) (heads f)"
    using assms(3,4) get_merkle_root_correct(1) by (simp add: dag_ok_def)
  have "root_string e = root_string f"
  proof -
    have "root_of (blake P) (heads x) = (if heads x = {} then replicate 32 0 else blake P (root_string x))" for x
      by (simp add: root_of_def root_string_def)
    note root = this [of e] this [of f]
    have free: "blake P (root_string e) \<noteq> replicate 32 0" "blake P (root_string f) \<noteq> replicate 32 0"
      "blake P (root_string e) = blake P (root_string f) \<Longrightarrow> root_string e = root_string f"
      using assms(8) unfolding roots_free_def inj_on_def by (metis image_eqI insertI1 insertI2)+
    show ?thesis
    proof (cases "heads e = {}")
      case True
      then show ?thesis using roots free(2) root by (cases "heads f = {}") (simp_all add: root_string_def)
    next
      case False
      then show ?thesis using roots free(1,3) root by (cases "heads f = {}") simp_all
    qed
  qed
  then have same: "heads e = heads f" by (rule root_string_inj [OF assms(2-4)])
  have "held x \<subseteq> held y" if "replica P ?U x" "replica P ?U y" "closed_store (arena y)" "heads x = heads y"
    "links (arena x) \<subseteq> mesh_links [e, f]" for x y
  proof
    fix h assume h: "h \<in> held x"
    have "\<forall>k u v. (u, v) \<in> links (arena x) ^^ k \<longrightarrow> k \<le> K"
    proof -
      have "links (arena x) ^^ k \<subseteq> mesh_links [e, f] ^^ k" for k using that(5) by (induction k) auto
      then show ?thesis using assms(9) by blast
    qed
    from head_above [OF h this] obtain g where g: "g \<in> frontier (arena x)" "(g, h) \<in> (links (arena x))\<^sup>*" by blast
    have "g \<in> held y" using g(1) that(1,2,4) by (auto simp: replica_def dag_ok_def frontier_def)
    moreover have "(g, h) \<in> (node_links ?U)\<^sup>*"
      using g(2) rtrancl_mono [OF node_links_mono] that(1) by (auto simp: links_node_links replica_def)
    ultimately show "h \<in> held y" using closed_store_path that(2,3) unfolding replica_def by blast
  qed
  from this [OF U(1,2) assms(6) same] this [OF U(2,1) assms(5) same [symmetric]] have "held e = held f"
    by (simp add: mesh_links_def subset_antisym)
  then show "ran (get_by_hash (arena e)) = ran (get_by_hash (arena f))"
    unfolding replica_ran [OF U(1)] replica_ran [OF U(2)] by simp
next
  assume "ran (get_by_hash (arena e)) = ran (get_by_hash (arena f))"
  moreover have "held x = compute_hash (blake P) ` ran (get_by_hash (arena x))" if "dag_ok P x" for x
    using that by (force simp: dag_ok_def ran_def)
  from this [OF assms(3)] this [OF assms(4)] have "held e = held f" using calculation by simp
  then show "fst (get_merkle_root P e) = fst (get_merkle_root P f)"
    using universe_replica [OF assms(1) _ assms(7)] assms(3,4) by (intro replica_root [of P "universe [e, f]"]) simp_all
qed

section \<open>Histories that are too long\<close>

lemma walk_stopped: "\<forall>(h, d)\<in>set queue. h \<in> stop \<Longrightarrow> walk a stop visited queue = []"
  by (induction queue) auto

text \<open>Between replicas with the same heads nothing is exchanged.\<close>

lemma delta_push_idle:
  assumes "iter_ok env" "finite (heads e)" "heads d = heads e"
  shows "delta_push P env e d = (d, 0)"
proof -
  have "walk (arena e) (set (iter_order env (heads d))) {} (start_queue env e) = []"
    using assms set_start_queue [OF assms(1,2)] by (intro walk_stopped) auto
  then have "get_vdiff env e (iter_order env (heads d)) = []"
    by (simp add: get_vdiff_def vdiff_loop_walk List.map_filter_simps)
  then show ?thesis by (simp add: delta_push_def)
qed

text \<open>What an empty replica gets: the nodes within the history depth, and with them the heads.\<close>

lemma delta_push_empty:
  assumes "vacant_key (vacant P)" "iter_ok env" "dag_ok P e" "dag_ok P d" "held d = {}"
  shows "dag_ok P (fst (delta_push P env e d))" "heads (fst (delta_push P env e d)) = heads e"
    and "\<forall>h\<in>held (fst (delta_push P env e d)). \<exists>g\<in>heads e. \<exists>k\<le>100. (g, h) \<in> links (arena e) ^^ k"
proof -
  let ?d = "fst (delta_push P env e d)" let ?W = "vdiff_hashes env e {}" let ?delta = "get_vdiff env e []"
  have e: "finite (heads e)" "heads e = frontier (arena e)"
    "\<forall>h n. get_by_hash (arena e) h = Some n \<longrightarrow> h = compute_hash (blake P) n"
    using assms(3) by (auto simp: dag_ok_def engine_ok_def)
  have q: "set (start_queue env e) = heads e \<times> {0}" by (rule set_start_queue [OF assms(2) e(1)])
  have d: "heads d = {}" using assms(4,5) by (simp add: dag_ok_def frontier_def)
  then have "iter_order env (heads d) = []" using iter_okD(1) [OF assms(2), of "{}"] by simp
  then have push: "?d = (if ?delta = [] then d
      else recompute_heads env (d\<lparr>arena := arena.add_all (vacant P) (hashed P ?delta) (arena d)\<rparr>))"
    using delta_fold [of P d 0 ?delta] by (simp add: delta_push_def Let_def case_prod_beta)
  have delta: "set ?delta = {n. \<exists>h\<in>?W. get_by_hash (arena e) h = Some n}" using set_get_vdiff [of env e "[]"] by simp
  note add = add_nodes_dag_ok [OF assms(1,2,4) _ refl, of "hashed P ?delta"]
  have hs: "\<forall>(h, n)\<in>set (hashed P ?delta). h = compute_hash (blake P) n" by (auto simp: hashed_def)
  have "dag_ok P ?d \<and> get_by_hash (arena ?d) = map_of (hashed P ?delta)"
    using add(1,2) [OF hs] assms(4,5) push by (auto simp: hashed_def)
  then have ok: "dag_ok P ?d" and lk: "get_by_hash (arena ?d) = map_of (hashed P ?delta)" by blast+
  show "dag_ok P ?d" by (rule ok)
  have held: "held ?d = ?W \<inter> held e"
  proof -
    have "held ?d = compute_hash (blake P) ` set ?delta" unfolding lk by (auto simp: dom_map_of_conv_image_fst hashed_def image_image)
    then show ?thesis using e(3) unfolding delta by (auto simp: image_iff) blast+
  qed
  have node: "get_by_hash (arena e) h = Some n" if h: "get_by_hash (arena ?d) h = Some n" for h n
  proof -
    have "(h, n) \<in> set (hashed P ?delta)" using h unfolding lk by (rule map_of_SomeD)
    then have "n \<in> set ?delta" "h = compute_hash (blake P) n" by (auto simp: hashed_def)
    then show ?thesis using e(3) unfolding delta by auto
  qed
  then have links: "links (arena ?d) \<subseteq> links (arena e)" by (auto simp: links_def)
  have "heads e \<subseteq> ?W"
    using walk_heads [of _ 0 "start_queue env e" "{}" "{}" "arena e"] by (auto simp: vdiff_hashes_def q)
  then have "heads e \<subseteq> frontier (arena ?d)" using held e(2) links by (auto simp: frontier_def)
  moreover have "x \<in> heads e" if x: "x \<in> frontier (arena ?d)" for x
  proof (rule ccontr)
    assume "x \<notin> heads e"
    moreover have "x \<in> ?W" using x held by (auto simp: frontier_def)
    ultimately obtain y where y: "y \<in> ?W" "(y, x) \<in> links (arena e)"
      using walk_pred [of x "arena e" "{}" "{}" "start_queue env e"] by (auto simp: vdiff_hashes_def q)
    then have "y \<in> held ?d" unfolding held by (auto simp: links_def)
    then have "(y, x) \<in> links (arena ?d)" using node y(2) by (fastforce simp: links_def)
    then show False using x by (auto simp: frontier_def)
  qed
  ultimately show "heads ?d = heads e" using ok by (auto simp: dag_ok_def)
  show "\<forall>h\<in>held ?d. \<exists>g\<in>heads e. \<exists>k\<le>100. (g, h) \<in> links (arena e) ^^ k"
    using walk_depth [of _ "arena e" "{}" "{}" "start_queue env e"] unfolding held vdiff_hashes_def q by fastforce
qed

text \<open>
  C27: Agreement of the roots is not agreement of the stores: when the history of a replica is longer
  than the history depth, one round of exchanges by deltas with an empty replica ends the loop with
  equal roots, while every node beyond the depth is missing, and every later exchange between the two
  transfers nothing.
\<close>

theorem truncated_sync_is_final:
  assumes "vacant_key (vacant P)" "\<forall>r i j. iter_ok (E r i j)" "dag_ok P e" "dag_ok P d" "held d = {}"
    and "h \<in> held e" "\<forall>g\<in>heads e. \<forall>k. (g, h) \<in> links (arena e) ^^ k \<longrightarrow> 100 < k"
    and "sync_delta_vdiff P E [e, d] = (rounds, moved, fs)"
  shows "\<exists>e' d'. fs = [e', d'] \<and> rounds = 1 \<and> h \<in> held e' \<and> h \<notin> held d'
    \<and> fst (get_merkle_root P d') = fst (get_merkle_root P e')
    \<and> (\<forall>env. iter_ok env \<longrightarrow> delta_push P env e' d' = (d', 0) \<and> delta_push P env d' e' = (e', 0))"
proof -
  let ?d = "fst (delta_push P (E 1 0 1) e d)"
  have E: "iter_ok (E 1 0 1)" "iter_ok (E 1 1 0)" using assms(2) by blast+
  note d = delta_push_empty [OF assms(1) E(1) assms(3,4,5)]
  have fin: "finite (heads e)" "finite (heads ?d)" using assms(3) d(1) by (simp_all add: dag_ok_def engine_ok_def)
  have idle: "delta_push P (E 1 1 0) ?d e = (e, 0)"
    by (rule delta_push_idle [OF E(2) fin(2) d(2) [symmetric]])
  have "all_pairs 2 = [(0, 1), (1, 0)]" by code_simp
  then have round: "fst (sync_round (delta_push P) (E 1) (all_pairs 2) [e, d]) = [e, ?d]"
    using idle by (simp add: sync_round_def exchange_def Let_def case_prod_beta)
  let ?e' = "snd (get_merkle_root P e)" let ?d' = "snd (get_merkle_root P ?d)"
  have ok: "engine_ok P e" "engine_ok P ?d" using assms(3) d(1) by (simp_all add: dag_ok_def)
  note re = get_merkle_root_correct [OF ok(1)] and rd = get_merkle_root_correct [OF ok(2)]
  have same: "fst (get_merkle_root P ?d) = fst (get_merkle_root P e)" using re(1) rd(1) d(2) by simp
  have check: "check_convergence P [e, ?d] = ((True, 1), [?e', ?d'])"
    using same by (simp add: check_convergence_def Let_def)
  have "(rounds, fs) = (1, [?e', ?d'])"
    using assms(8) check round unfolding sync_delta_vdiff_def
    by (subst (asm) sync_loop.simps) (auto simp: Let_def numeral_2_eq_2)
  moreover have "h \<notin> held ?d" using d(3) assms(7) by fastforce
  moreover have "fst (get_merkle_root P ?d') = fst (get_merkle_root P ?e')"
    using get_merkle_root_correct(1) [OF re(2)] get_merkle_root_correct(1) [OF rd(2)] re(4) rd(4) d(2) by simp
  moreover have "delta_push P env ?e' ?d' = (?d', 0) \<and> delta_push P env ?d' ?e' = (?e', 0)" if "iter_ok env" for env
    using that fin re(4) rd(4) d(2) by (intro conjI delta_push_idle) simp_all
  ultimately show ?thesis using assms(6) re(3) rd(3) by simp
qed

section \<open>Evaluations\<close>

text \<open>A replica with given nodes.\<close>

definition loaded :: "DagNode list \<Rightarrow> MerkleCrdtEngine" where
  "loaded ns = (let e = engine (idle_actor 2 1000) in recompute_heads sample_env
     (e\<lparr>arena := arena.add_all (vacant sample_platform) (hashed sample_platform ns) (arena e)\<rparr>))"

lemma loaded_simps [simp]:
  "dag_ok sample_platform (loaded ns)" "get_by_hash (arena (loaded ns)) = map_of (hashed sample_platform ns)"
proof -
  have h: "\<forall>(h, n)\<in>set (hashed sample_platform ns). h = compute_hash (blake sample_platform) n" by (auto simp: hashed_def)
  have e: "loaded ns = recompute_heads sample_env ((engine (idle_actor 2 1000))\<lparr>arena :=
      arena.add_all (vacant sample_platform) (hashed sample_platform ns) (arena (engine (idle_actor 2 1000)))\<rparr>)"
    by (simp add: loaded_def Let_def)
  note a = add_nodes_dag_ok [OF sample_vacant sample_env_ok idle_actor_simps(1) h e]
  show "dag_ok sample_platform (loaded ns)" by (rule a(1))
  show "get_by_hash (arena (loaded ns)) = map_of (hashed sample_platform ns)" using a(2) by simp
qed

lemma loaded_single:
  "get_by_hash (arena (loaded [sample_node [] b])) = [compute_hash sample_hash (sample_node [] b) \<mapsto> sample_node [] b]"
  "links (arena (loaded [sample_node [] b])) = {}" "closed_store (arena (loaded [sample_node [] b]))"
  "heads (loaded [sample_node [] b]) = {compute_hash sample_hash (sample_node [] b)}"
proof -
  show s: "get_by_hash (arena (loaded [sample_node [] b])) = [compute_hash sample_hash (sample_node [] b) \<mapsto> sample_node [] b]"
    by (simp add: hashed_def)
  show l: "links (arena (loaded [sample_node [] b])) = {}"
    unfolding links_def s by (auto simp: sample_node_def split: if_splits)
  then show "closed_store (arena (loaded [sample_node [] b]))" by (simp add: closed_store_def)
  have "heads (loaded [sample_node [] b]) = frontier (arena (loaded [sample_node [] b]))"
    using loaded_simps(1) [of "[sample_node [] b]"] unfolding dag_ok_def by blast
  then show "heads (loaded [sample_node [] b]) = {compute_hash sample_hash (sample_node [] b)}" unfolding frontier_def l s by simp
qed

abbreviation "two_replicas \<equiv> [loaded [sample_node [] 1], loaded [sample_node [] 2]]"

lemma two_replicas_mesh:
  "mesh_nodes two_replicas = {sample_node [] 1, sample_node [] 2}" "mesh_links two_replicas = {}"
  "inj_on (compute_hash (blake sample_platform)) (mesh_nodes two_replicas)"
proof -
  show n: "mesh_nodes two_replicas = {sample_node [] 1, sample_node [] 2}" by (simp add: mesh_nodes_def hashed_def insert_commute)
  show "mesh_links two_replicas = {}" by (simp add: mesh_links_def loaded_single)
  show "inj_on (compute_hash (blake sample_platform)) (mesh_nodes two_replicas)"
    unfolding n using sample_hashes(1) by simp
qed

lemma empty_paths: "\<forall>k x y. (x, y) \<in> ({} :: (Hash32 \<times> Hash32) set) ^^ k \<longrightarrow> k \<le> K"
proof (intro allI impI)
  fix k x y assume "(x, y) \<in> ({} :: (Hash32 \<times> Hash32) set) ^^ k"
  then show "k \<le> K" by (cases k) auto
qed

theorem delta_sync_converges_witness:
  "\<exists>moved fs. sync_delta_vdiff sample_platform (\<lambda>_ _ _. sample_env) two_replicas = (1, moved, fs)
    \<and> (\<forall>e\<in>set fs. ran (get_by_hash (arena e)) = {sample_node [] 1, sample_node [] 2})"
proof -
  obtain r m fs where s: "sync_delta_vdiff sample_platform (\<lambda>_ _ _. sample_env) two_replicas = (r, m, fs)" by (metis surj_pair)
  show ?thesis
    using delta_sync_converges [OF sample_vacant _ _ _ two_replicas_mesh(3) empty_paths [of 100, folded two_replicas_mesh(2)] s]
      two_replicas_mesh(1) s by (simp add: loaded_single(3))
qed

theorem loss_only_delays_witness:
  "\<forall>e\<in>set (impaired_rounds sample_platform (\<lambda>_ _. sample_env) [\<lambda>i j. i < j, \<lambda>i j. j < i] two_replicas).
     ran (get_by_hash (arena e)) = {sample_node [] 1, sample_node [] 2}"
  using loss_only_delays [OF sample_vacant _ _ two_replicas_mesh(3) refl, of "\<lambda>_ _. sample_env" "[\<lambda>i j. i < j, \<lambda>i j. j < i]"]
    two_replicas_mesh(1) by (simp add: less_Suc_eq)

theorem root_determines_store_witness:
  "fst (get_merkle_root sample_platform (loaded [sample_node [] 1])) \<noteq> fst (get_merkle_root sample_platform (loaded [sample_node [] 2]))"
proof -
  have strings: "root_string (loaded [sample_node [] b]) = compute_hash sample_hash (sample_node [] b)" for b
    by (simp add: root_string_def loaded_single)
  have "roots_free sample_hash {sample_first, sample_second}"
    unfolding roots_free_def inj_on_def by code_simp
  then show ?thesis
    using root_determines_store [OF sample_vacant _ loaded_simps(1) loaded_simps(1) loaded_single(3) loaded_single(3)
        two_replicas_mesh(3) _ empty_paths [of 0, folded two_replicas_mesh(2)]] digest32_sample
    by (simp add: strings hashed_def)
qed

text \<open>A history of 102 mutations, each the parent of the next one.\<close>

definition chain_link :: "Hash32 list \<Rightarrow> nat \<Rightarrow> DagNode" where
  "chain_link ps k = \<lparr>parents = ps, node_signature = replicate 64 0, data_hash = replicate 32 0,
     vclock = [(''n'', word_of_nat k)], evidence = None\<rparr>"

primrec chain_node :: "nat \<Rightarrow> DagNode" where
  "chain_node 0 = chain_link [] 0"
| "chain_node (Suc k) = chain_link [compute_hash sample_hash (chain_node k)] (Suc k)"

abbreviation "chain_hash k \<equiv> compute_hash sample_hash (chain_node k)"
abbreviation "long_history \<equiv> loaded (map chain_node [0..<102])"

lemma chain_node_link: "\<exists>ps. chain_node k = chain_link ps k"
  by (cases k) auto

lemma chain_hash_inj:
  assumes "chain_hash j = chain_hash k" "j < 2 ^ 64" "k < 2 ^ 64"
  shows "j = k"
proof -
  have "take 8 (chain_hash k) = rev (le_bytes64 (word_of_nat k))" for k
    using chain_node_link [of k]
    by (auto simp: compute_hash_def node_bytes_def chain_link_def sample_hash_def)
  then have "le_bytes64 (word_of_nat j) = le_bytes64 (word_of_nat k)" using assms(1) by (metis rev_rev_ident)
  then have "unat (word_of_nat j :: u64) = unat (word_of_nat k :: u64)" by (simp add: le_bytes64_inject)
  then show ?thesis using assms(2,3) by (simp add: unat_of_nat)
qed

lemma long_history_lookup:
  "get_by_hash (arena long_history) h = Some n \<longleftrightarrow> (\<exists>k<102. h = chain_hash k \<and> n = chain_node k)"
proof -
  let ?xs = "map (\<lambda>k. (chain_hash k, chain_node k)) [0..<102]"
  have "inj_on chain_hash {0..<102}" by (rule inj_onI) (rule chain_hash_inj, simp_all)
  then have "distinct (map fst ?xs)" by (simp add: comp_def distinct_map)
  then have "map_of ?xs h = Some n \<longleftrightarrow> (h, n) \<in> set ?xs" by (rule map_of_eq_Some_iff)
  moreover have "get_by_hash (arena long_history) = map_of ?xs" by (simp add: hashed_def comp_def)
  ultimately show ?thesis by (auto simp del: upt_rec_numeral)
qed

lemma long_history_held: "h \<in> held long_history \<longleftrightarrow> (\<exists>k<102. h = chain_hash k)"
proof -
  have "h \<in> held long_history \<longleftrightarrow> (\<exists>n. get_by_hash (arena long_history) h = Some n)" by blast
  then show ?thesis unfolding long_history_lookup by blast
qed

lemma long_history_links:
  assumes "j < 102"
  shows "(chain_hash j, p) \<in> links (arena long_history) \<longleftrightarrow> (\<exists>i. j = Suc i \<and> p = chain_hash i)"
proof -
  have here: "get_by_hash (arena long_history) (chain_hash j) = Some (chain_node j)"
    unfolding long_history_lookup using assms by blast
  have "(chain_hash j, p) \<in> links (arena long_history) \<longleftrightarrow> p \<in> set (parents (chain_node j))"
    unfolding links_def mem_Collect_eq prod.case here by simp
  then show ?thesis by (cases j) (simp_all add: chain_link_def)
qed

lemma long_history_paths:
  assumes "j < 102" "i < 102" "(chain_hash j, chain_hash i) \<in> links (arena long_history) ^^ k"
  shows "j = i + k"
  using assms(1,3)
proof (induction k arbitrary: j)
  case 0
  then show ?case using chain_hash_inj [of j i] assms(2) by simp
next
  case (Suc k)
  obtain y where y: "(chain_hash j, y) \<in> links (arena long_history)" "(y, chain_hash i) \<in> links (arena long_history) ^^ k"
    using Suc.prems(2) by (metis relpow_Suc_D2)
  then obtain l where "j = Suc l" "y = chain_hash l" using long_history_links [OF Suc.prems(1)] by blast
  then show ?case using Suc.IH [of l] Suc.prems(1) y(2) by simp
qed

lemma long_history_heads: "heads long_history \<subseteq> {chain_hash 101}"
proof
  fix g assume "g \<in> heads long_history"
  moreover have "heads long_history = frontier (arena long_history)"
    using loaded_simps(1) [of "map chain_node [0..<102]"] unfolding dag_ok_def by blast
  ultimately have g: "g \<in> held long_history" "g \<notin> Range (links (arena long_history))" by (auto simp: frontier_def)
  then obtain j where j: "j < 102" "g = chain_hash j" unfolding long_history_held by blast
  have "\<not> Suc j < 102" using g(2) long_history_links [of "Suc j" g] j(2) by auto
  then have "j = 101" using j(1) by simp
  then show "g \<in> {chain_hash 101}" using j(2) by simp
qed

theorem truncated_sync_is_final_witness:
  "\<exists>e d moved. sync_delta_vdiff sample_platform (\<lambda>_ _ _. sample_env) [long_history, loaded []] = (1, moved, [e, d])
    \<and> fst (get_merkle_root sample_platform d) = fst (get_merkle_root sample_platform e)
    \<and> chain_hash 0 \<in> held e \<and> chain_hash 0 \<notin> held d"
proof -
  obtain r m fs where s: "sync_delta_vdiff sample_platform (\<lambda>_ _ _. sample_env) [long_history, loaded []] = (r, m, fs)"
    by (metis surj_pair)
  have far: "\<forall>g\<in>heads long_history. \<forall>k. (g, chain_hash 0) \<in> links (arena long_history) ^^ k \<longrightarrow> 100 < k"
    using long_history_heads long_history_paths [of 101 0] by fastforce
  have E: "\<forall>(r :: nat) (i :: nat) (j :: nat). iter_ok sample_env" by simp
  have held: "chain_hash 0 \<in> held long_history" unfolding long_history_held by (intro exI [of _ 0]) simp
  have empty: "held (loaded []) = {}" by (simp add: hashed_def)
  show ?thesis
    using truncated_sync_is_final [OF sample_vacant E loaded_simps(1) loaded_simps(1) empty held far s] s by auto
qed

end
