(* ===== verification/Union_Find.thy ===== *)
theory Union_Find
  imports Prelude "HOL-Library.Monad_Syntax"
begin

text \<open>
  The union-find structure of \<open>correlation_groups\<close> (\<open>aimp_node/src/epistemic.rs\<close>, lines 851-857 and
  893-898): an array of parents, \<open>find\<close> with path halving and the union of two roots. The loop of
  \<open>find\<close> is a partial function, whose result is \<open>None\<close> when it does not end or when an index is out
  of range; both are excluded on every array the program builds. The locale \<open>union_structure\<close> is
  the contract of a union operation, and its client lemma says that a sequence of unions computes
  connected components.
\<close>

section \<open>Loops that may fail\<close>

primrec opt_fold :: "('s \<Rightarrow> 'a \<Rightarrow> 's option) \<Rightarrow> 'a list \<Rightarrow> 's \<Rightarrow> 's option" where
  "opt_fold f [] s = Some s"
| "opt_fold f (x # xs) s = f s x \<bind> opt_fold f xs"

lemma opt_fold_append: "opt_fold f (xs @ ys) s = opt_fold f xs s \<bind> opt_fold f ys"
  by (induction xs arbitrary: s) (auto split: Option.bind_split)

lemma opt_fold_filter:
  "opt_fold (\<lambda>s x. if P x then f s x else Some s) xs s = opt_fold f (filter P xs) s"
  by (induction xs arbitrary: s) (auto split: Option.bind_split)

lemma opt_fold_concat:
  "opt_fold (\<lambda>s x. opt_fold f (h x) s) xs s = opt_fold f (concat (map h xs)) s"
  by (induction xs arbitrary: s) (auto simp: opt_fold_append split: Option.bind_split)

lemma opt_fold_map: "opt_fold f (map g xs) s = opt_fold (\<lambda>s x. f s (g x)) xs s"
  by (induction xs arbitrary: s) (auto split: Option.bind_split)

lemma opt_fold_cong:
  "(\<And>s x. x \<in> set xs \<Longrightarrow> f s x = g s x) \<Longrightarrow> opt_fold f xs s = opt_fold g xs s"
  by (induction xs arbitrary: s) (auto split: Option.bind_split)

text \<open>A loop with an invariant over the part of the list already done ends well.\<close>

lemma opt_fold_invariant:
  assumes "I [] s"
    and "\<And>xs x s. I xs s \<Longrightarrow> x \<in> set zs \<Longrightarrow> \<exists>s'. f s x = Some s' \<and> I (xs @ [x]) s'"
  shows "\<exists>s'. opt_fold f zs s = Some s' \<and> I zs s'"
  using assms(2)
proof (induction zs rule: rev_induct)
  case Nil
  then show ?case using assms(1) by simp
next
  case (snoc z zs)
  then obtain s' where "opt_fold f zs s = Some s'" "I zs s'" by fastforce
  with snoc.prems [of zs s' z] show ?case by (auto simp: opt_fold_append)
qed

section \<open>Find and union\<close>

partial_function (option) find_root :: "nat list \<Rightarrow> nat \<Rightarrow> (nat list \<times> nat) option" where
  "find_root parent x =
     (if x < length parent \<and> parent ! x < length parent then
        (if parent ! x \<noteq> x
         then let parent' = parent[x := parent ! (parent ! x)]
              in find_root parent' (parent' ! x)
         else Some (parent, x))
      else None)"

declare find_root.simps [code]

definition unite :: "nat list \<Rightarrow> nat \<Rightarrow> nat \<Rightarrow> nat list option" where
  "unite parent i j =
     do {
       (parent, ri) \<leftarrow> find_root parent i;
       (parent, rj) \<leftarrow> find_root parent j;
       Some (if ri \<noteq> rj then parent[ri := rj] else parent)
     }"

subsection \<open>Paths to the root\<close>

inductive path :: "nat list \<Rightarrow> nat \<Rightarrow> nat \<Rightarrow> nat \<Rightarrow> bool" for p where
  root: "x < length p \<Longrightarrow> p ! x = x \<Longrightarrow> path p 0 x x"
| step: "x < length p \<Longrightarrow> p ! x \<noteq> x \<Longrightarrow> path p k (p ! x) r \<Longrightarrow> path p (Suc k) x r"

inductive_simps path_0 [simp]: "path p 0 x r"
inductive_simps path_Suc [simp]: "path p (Suc k) x r"

definition rooted :: "nat list \<Rightarrow> nat \<Rightarrow> nat \<Rightarrow> bool" where
  "rooted p x r \<longleftrightarrow> (\<exists>k. path p k x r)"

definition uf_valid :: "nat \<Rightarrow> nat list \<Rightarrow> bool" where
  "uf_valid n p \<longleftrightarrow> length p = n \<and> (\<forall>x<n. \<exists>r. rooted p x r)"

definition uf_same :: "nat list \<Rightarrow> nat \<Rightarrow> nat \<Rightarrow> bool" where
  "uf_same p x y \<longleftrightarrow> (\<exists>r. rooted p x r \<and> rooted p y r)"

lemma path_det: "path p k x r \<Longrightarrow> path p k' x r' \<Longrightarrow> k = k' \<and> r = r'"
proof (induction arbitrary: k' r' rule: path.induct)
  case (root x)
  then show ?case by (cases k') auto
next
  case (step x k r)
  then obtain l where "k' = Suc l" "path p l (p ! x) r'" by (cases k') auto
  with step.IH show ?case by blast
qed

lemma rooted_det: "rooted p x r \<Longrightarrow> rooted p x r' \<Longrightarrow> r = r'"
  using path_det by (auto simp: rooted_def)

lemma path_less: "path p k x r \<Longrightarrow> x < length p \<and> r < length p \<and> p ! r = r"
  by (induction rule: path.induct) auto

lemma rooted_step: "x < length p \<Longrightarrow> p ! x \<noteq> x \<Longrightarrow> rooted p (p ! x) r \<Longrightarrow> rooted p x r"
  unfolding rooted_def using path.step by blast

lemma uf_same_iff: "rooted p x r \<Longrightarrow> rooted p y s \<Longrightarrow> uf_same p x y \<longleftrightarrow> r = s"
  unfolding uf_same_def using rooted_det by metis

lemma rooted_less: "rooted p x r \<Longrightarrow> x < length p \<and> r < length p \<and> p ! r = r"
  using path_less by (auto simp: rooted_def)

lemma rooted_refl: "rooted p x r \<Longrightarrow> rooted p r r"
  using rooted_less path.root unfolding rooted_def by blast

lemma path_next_less: "path p k x r \<Longrightarrow> p ! x < length p"
  by (cases k) (auto dest: path_less)

text \<open>Path halving keeps every root and lengthens no path.\<close>

lemma halving:
  assumes y: "path p j y s"
  shows "path p k x r \<Longrightarrow> \<exists>k'\<le>k. path (p[y := p ! (p ! y)]) k' x r"
proof (induction k arbitrary: x rule: less_induct)
  case (less k)
  let ?p = "p[y := p ! (p ! y)]"
  have len: "y < length p" using path_less [OF y] by simp
  show ?case
  proof (cases "p ! y = y")
    case True
    then have "p[y := p ! (p ! y)] = p" by (metis list_update_id)
    then show ?thesis using less.prems by auto
  next
    case ny: False
    show ?thesis
    proof (cases k)
      case 0
      then have x: "x = r" "x < length p" "p ! x = x" using less.prems by auto
      then have "?p ! x = x" using ny by (metis nth_list_update_neq)
      then show ?thesis using x 0 by (auto intro: path.root)
    next
      case (Suc m)
      then have nx: "x < length p" "p ! x \<noteq> x" and m: "path p m (p ! x) r"
        using less.prems by auto
      show ?thesis
      proof (cases "x = y")
        case False
        obtain m' where "m' \<le> m" "path ?p m' (p ! x) r"
          using less.IH [of m "p ! x"] Suc m by auto
        then have "path ?p (Suc m') x r" using nx False by simp
        then show ?thesis using \<open>m' \<le> m\<close> Suc by (intro exI [of _ "Suc m'"]) simp
      next
        case xy: True
        let ?z = "p ! y"
        have z: "path p m ?z r" using m xy by simp
        show ?thesis
        proof (cases m)
          case 0
          then have "r = ?z" "?z < length p" "p ! ?z = ?z" using z by auto
          moreover have "path ?p 0 ?z ?z"
            using calculation ny by (intro path.root) (simp_all add: nth_list_update)
          ultimately have "path ?p (Suc 0) x r" using xy len ny by simp
          then show ?thesis using Suc by (intro exI [of _ "Suc 0"]) simp
        next
          case m2: (Suc l)
          then have l: "path p l (p ! ?z) r" using z by auto
          then obtain l' where l': "l' \<le> l" "path ?p l' (p ! ?z) r"
            using less.IH [of l "p ! ?z"] Suc m2 by auto
          have "p ! ?z \<noteq> y" using path_det [OF l, of k r] less.prems Suc m2 xy by auto
          then have "path ?p (Suc l') x r"
            using l' xy len by simp
          then show ?thesis using l' Suc m2 by (intro exI [of _ "Suc l'"]) simp
        qed
      qed
    qed
  qed
qed

lemma find_root_path:
  "path p k x r \<Longrightarrow> \<exists>p'. find_root p x = Some (p', r) \<and> length p' = length p \<and>
     (\<forall>j y s. path p j y s \<longrightarrow> (\<exists>j'\<le>j. path p' j' y s))"
proof (induction k arbitrary: p x rule: less_induct)
  case (less k)
  have lens: "x < length p" "p ! x < length p"
    using less.prems path_less path_next_less by auto
  show ?case
  proof (cases "p ! x = x")
    case True
    then have "find_root p x = Some (p, x)" using lens by (subst find_root.simps) simp
    moreover have "r = x" using less.prems True by (cases k) auto
    ultimately show ?thesis by auto
  next
    case False
    let ?p = "p[x := p ! (p ! x)]"
    obtain m where k: "k = Suc m" "path p m (p ! x) r" using less.prems False by (cases k) auto
    have "\<exists>l<k. path p l (p ! (p ! x)) r"
    proof (cases m)
      case 0
      then show ?thesis using k by (intro exI [of _ 0]) auto
    next
      case (Suc l)
      then show ?thesis using k by (intro exI [of _ l]) auto
    qed
    then obtain l where l: "l < k" "path p l (p ! (p ! x)) r" by blast
    moreover have "?p ! x = p ! (p ! x)" using lens by simp
    ultimately obtain l where "l < k" "path ?p l (?p ! x) r"
      using halving [OF less.prems l(2)] le_less_trans by metis
    then obtain p' where p': "find_root ?p (?p ! x) = Some (p', r)" "length p' = length ?p"
      "\<forall>j y s. path ?p j y s \<longrightarrow> (\<exists>j'\<le>j. path p' j' y s)"
      using less.IH by blast
    have "find_root p x = Some (p', r)"
      using lens False p'(1) by (subst find_root.simps) (simp add: Let_def)
    moreover have "\<exists>j'\<le>j. path p' j' y s" if "path p j y s" for j y s
      using halving [OF less.prems that] p'(3) by (meson order_trans)
    ultimately show ?thesis using p'(2) by auto
  qed
qed

lemma uf_valid_rooted_eq:
  assumes "uf_valid n p" "length p' = n" "\<And>x r. rooted p x r \<Longrightarrow> rooted p' x r"
  shows "uf_valid n p' \<and> rooted p' = rooted p"
proof
  show "uf_valid n p'" using assms by (auto simp: uf_valid_def) blast
  show "rooted p' = rooted p"
    using assms rooted_det rooted_less unfolding uf_valid_def fun_eq_iff by metis
qed

lemma find_root_correct:
  assumes "uf_valid n p" "x < n"
  shows "\<exists>p' r. find_root p x = Some (p', r) \<and> rooted p x r \<and> uf_valid n p' \<and> rooted p' = rooted p"
proof -
  obtain k r where "path p k x r" using assms by (auto simp: uf_valid_def rooted_def)
  then obtain p' where p': "find_root p x = Some (p', r)" "length p' = length p"
    "\<And>y s. rooted p y s \<Longrightarrow> rooted p' y s" and "rooted p x r"
    using find_root_path unfolding rooted_def by meson
  then show ?thesis using uf_valid_rooted_eq [OF assms(1), of p'] assms(1)
    by (auto simp: uf_valid_def)
qed

subsection \<open>Linking two roots\<close>

lemma link_path:
  assumes "rooted p rj rj" "p ! ri = ri" "ri \<noteq> rj"
  shows "path p k x r \<Longrightarrow> rooted (p[ri := rj]) x (if r = ri then rj else r)"
proof (induction rule: path.induct)
  case (root x)
  have rj: "path (p[ri := rj]) 0 rj rj"
    using assms rooted_less by (intro path.root) auto
  show ?case
  proof (cases "x = ri")
    case True
    then show ?thesis
      using rj root assms(3) unfolding rooted_def by (intro exI [of _ "Suc 0"]) auto
  next
    case False
    then show ?thesis using root unfolding rooted_def by (intro exI [of _ 0]) auto
  qed
next
  case (step x k r)
  then have "x \<noteq> ri" using assms(2) by auto
  then show ?case
    using step rooted_step [of x "p[ri := rj]"] by simp
qed

definition joined :: "(nat \<Rightarrow> nat \<Rightarrow> bool) \<Rightarrow> nat \<Rightarrow> nat \<Rightarrow> nat \<Rightarrow> nat \<Rightarrow> bool" where
  "joined R i j x y \<longleftrightarrow> R x y \<or> R x i \<and> R j y \<or> R x j \<and> R i y"

lemma link_correct:
  assumes v: "uf_valid n p" and i: "rooted p i ri" and j: "rooted p j rj" and ne: "ri \<noteq> rj"
  shows "uf_valid n (p[ri := rj])"
    and "x < n \<Longrightarrow> y < n \<Longrightarrow> uf_same (p[ri := rj]) x y \<longleftrightarrow> joined (uf_same p) i j x y"
proof -
  let ?p = "p[ri := rj]"
  have link: "rooted ?p x (if r = ri then rj else r)" if "rooted p x r" for x r
    using link_path [of p rj ri] that i j ne rooted_less rooted_refl unfolding rooted_def by metis
  then show "uf_valid n ?p" using v by (auto simp: uf_valid_def) blast
  assume "x < n" "y < n"
  then obtain rx ry where r: "rooted p x rx" "rooted p y ry" using v unfolding uf_valid_def by blast
  have "uf_same ?p x y \<longleftrightarrow> (if rx = ri then rj else rx) = (if ry = ri then rj else ry)"
    using link [OF r(1)] link [OF r(2)] by (rule uf_same_iff)
  then show "uf_same ?p x y \<longleftrightarrow> joined (uf_same p) i j x y"
    unfolding joined_def uf_same_iff [OF r] uf_same_iff [OF r(1) i] uf_same_iff [OF j r(2)]
      uf_same_iff [OF r(1) j] uf_same_iff [OF i r(2)]
    using ne by (simp split: if_splits; blast)
qed

lemma unite_correct:
  assumes v: "uf_valid n p" and ij: "i < n" "j < n"
  shows "\<exists>p'. unite p i j = Some p' \<and> uf_valid n p' \<and>
    (\<forall>x<n. \<forall>y<n. uf_same p' x y \<longleftrightarrow> joined (uf_same p) i j x y)"
proof -
  obtain p1 ri where 1: "find_root p i = Some (p1, ri)" "rooted p i ri" "uf_valid n p1" "rooted p1 = rooted p"
    using find_root_correct [OF v ij(1)] by blast
  obtain p2 rj where 2: "find_root p1 j = Some (p2, rj)" "rooted p1 j rj" "uf_valid n p2" "rooted p2 = rooted p1"
    using find_root_correct [OF 1(3) ij(2)] by blast
  have same: "uf_same p2 = uf_same p" using 1 2 by (simp add: uf_same_def fun_eq_iff)
  have u: "unite p i j = Some (if ri \<noteq> rj then p2[ri := rj] else p2)"
    using 1 2 by (simp add: unite_def)
  show ?thesis
  proof (cases "ri = rj")
    case True
    then have "uf_same p i j" using 1 2 by (auto simp: uf_same_def)
    then have "joined (uf_same p) i j x y \<longleftrightarrow> uf_same p x y" for x y
      unfolding joined_def uf_same_def using rooted_det by metis
    then show ?thesis using True u same 2 by auto
  next
    case False
    have "uf_valid n (p2[ri := rj])"
      "\<And>x y. x < n \<Longrightarrow> y < n \<Longrightarrow> uf_same (p2[ri := rj]) x y \<longleftrightarrow> joined (uf_same p2) i j x y"
      using link_correct [OF 2(3), of i ri j rj] 1 2 False by auto
    then show ?thesis using False u same by auto
  qed
qed

section \<open>The contract of a union structure\<close>

text \<open>Connectedness: the equivalence generated by a set of pairs.\<close>

definition conn :: "('a \<times> 'a) set \<Rightarrow> 'a \<Rightarrow> 'a \<Rightarrow> bool" where
  "conn E x y \<longleftrightarrow> (x, y) \<in> (E \<union> E\<inverse>)\<^sup>*"

lemma conn_refl [simp]: "conn E x x"
  by (simp add: conn_def)

lemma conn_trans: "conn E x y \<Longrightarrow> conn E y z \<Longrightarrow> conn E x z"
  unfolding conn_def by (rule rtrancl_trans)

lemma conn_sym: "conn E x y \<Longrightarrow> conn E y x"
  unfolding conn_def by (rule symD [OF sym_rtrancl]) (auto simp: sym_def)

lemma conn_commute: "conn E x y \<longleftrightarrow> conn E y x"
  using conn_sym by metis

lemma conn_edge: "(x, y) \<in> E \<Longrightarrow> conn E x y"
  by (auto simp: conn_def)

lemma conn_mono: "conn E x y \<Longrightarrow> E \<subseteq> F \<Longrightarrow> conn F x y"
  unfolding conn_def by (erule rtrancl_mono [THEN subsetD, rotated]) auto

lemma conn_induct [consumes 1, case_names refl edge]:
  assumes "conn E x y" "P x x"
    and "\<And>y z. conn E x y \<Longrightarrow> (y, z) \<in> E \<or> (z, y) \<in> E \<Longrightarrow> P x y \<Longrightarrow> P x z"
  shows "P x y"
  using assms(1) unfolding conn_def
  by (induction rule: rtrancl_induct) (use assms(2,3) in \<open>auto simp: conn_def\<close>)

lemma conn_empty [simp]: "conn {} x y \<longleftrightarrow> x = y"
  by (simp add: conn_def)

lemma conn_insert: "conn (insert (i, j) E) x y \<longleftrightarrow> joined (conn E) i j x y"
proof
  assume "conn (insert (i, j) E) x y"
  then show "joined (conn E) i j x y"
  proof (induction rule: conn_induct)
    case refl
    then show ?case by (simp add: joined_def)
  next
    case (edge y z)
    have "(y, z) \<in> E \<or> (z, y) \<in> E \<Longrightarrow> conn E y z" using conn_edge conn_sym by metis
    with edge show ?case unfolding joined_def using conn_trans conn_sym conn_refl
      by (smt (verit, best) Pair_inject insert_iff)
  qed
next
  have "conn E a b \<Longrightarrow> conn (insert (i, j) E) a b" for a b by (rule conn_mono) auto
  moreover have "conn (insert (i, j) E) i j" by (rule conn_edge) simp
  moreover assume "joined (conn E) i j x y"
  ultimately show "conn (insert (i, j) E) x y"
    unfolding joined_def using conn_trans conn_sym by metis
qed

locale union_structure =
  fixes valid :: "nat \<Rightarrow> 's \<Rightarrow> bool"
    and same :: "'s \<Rightarrow> nat \<Rightarrow> nat \<Rightarrow> bool"
    and union :: "'s \<Rightarrow> nat \<Rightarrow> nat \<Rightarrow> 's option"
  assumes union: "valid n s \<Longrightarrow> i < n \<Longrightarrow> j < n \<Longrightarrow>
      \<exists>s'. union s i j = Some s' \<and> valid n s' \<and>
        (\<forall>x<n. \<forall>y<n. same s' x y \<longleftrightarrow> joined (same s) i j x y)"
begin

text \<open>A sequence of unions never fails and adds exactly the connections of its pairs.\<close>

lemma components:
  assumes "valid n s" "\<forall>x<n. \<forall>y<n. same s x y \<longleftrightarrow> conn E x y" "\<forall>(i, j)\<in>set ps. i < n \<and> j < n"
  shows "\<exists>s'. opt_fold (\<lambda>s (i, j). union s i j) ps s = Some s' \<and> valid n s' \<and>
    (\<forall>x<n. \<forall>y<n. same s' x y \<longleftrightarrow> conn (set ps \<union> E) x y)"
  using assms
proof (induction ps arbitrary: s E)
  case Nil
  then show ?case by simp
next
  case (Cons e ps)
  obtain i j where e: "e = (i, j)" "i < n" "j < n" using Cons.prems(3) by auto
  obtain s' where s': "union s i j = Some s'" "valid n s'"
    "\<forall>x<n. \<forall>y<n. same s' x y \<longleftrightarrow> joined (same s) i j x y"
    using union [OF Cons.prems(1) e(2,3)] by blast
  then have "\<forall>x<n. \<forall>y<n. same s' x y \<longleftrightarrow> conn (insert (i, j) E) x y"
    using Cons.prems(2) e by (simp add: conn_insert joined_def)
  from Cons.IH [OF s'(2) this] Cons.prems(3) s'(1) show ?case
    by (auto simp: e insert_commute Un_insert_right)
qed

end

interpretation uf: union_structure uf_valid uf_same unite
  by unfold_locales (rule unite_correct)

text \<open>The initial array: everybody is alone.\<close>

lemma rooted_init: "rooted [0..<n] x r \<longleftrightarrow> x < n \<and> r = x"
proof
  assume "rooted [0..<n] x r"
  then obtain k where "path [0..<n] k x r" by (auto simp: rooted_def)
  then show "x < n \<and> r = x" by (induction rule: path.induct) auto
next
  assume "x < n \<and> r = x"
  then show "rooted [0..<n] x r" unfolding rooted_def by (intro exI [of _ 0]) simp
qed

lemma uf_init: "uf_valid n [0..<n]" "x < n \<Longrightarrow> y < n \<Longrightarrow> uf_same [0..<n] x y \<longleftrightarrow> conn {} x y"
  by (auto simp: uf_valid_def uf_same_def rooted_init)

end
