(* ===== verification/Correlation.thy ===== *)
theory Correlation
  imports Claims Union_Find
begin

text \<open>
  The correlation groups of a set of claims (\<open>correlation_groups\<close> in
  \<open>aimp_node/src/epistemic.rs\<close>, lines 739-939): the content-consistency pass, the union of
  assessable claims within the Hamming threshold, the smallest id of each component and the group of
  every claim. The specification \<open>group_of\<close> speaks of the set of claims only; the refinement lemma
  says that the loops over the arrays end without a panic and compute it.
\<close>

section \<open>The code\<close>

type_synonym seen_state = "(bytes \<Rightarrow> QuantizedEmbedding option) \<times> bytes set"

definition consistency_step :: "seen_state \<Rightarrow> Claim \<Rightarrow> seen_state" where
  "consistency_step st c =
     (case st of (seen, inconsistent) \<Rightarrow>
      case embedding c of
        None \<Rightarrow> st
      | Some e \<Rightarrow>
          let key = fp_primary (fingerprint c)
          in case seen key of
               Some prev \<Rightarrow> if prev \<noteq> e then (seen, insert key inconsistent) else st
             | None \<Rightarrow> (seen(key \<mapsto> e), inconsistent))"

definition assessable_flags :: "Claim list \<Rightarrow> bool list" where
  "assessable_flags claims =
     (let inconsistent = snd (foldl consistency_step (Map.empty, {}) claims)
      in map (\<lambda>c. embedding c \<noteq> None \<and> fp_primary (fingerprint c) \<notin> inconsistent) claims)"

definition union_inner :: "Claim list \<Rightarrow> bool list \<Rightarrow> u32 \<Rightarrow> nat \<Rightarrow> nat list \<Rightarrow> nat \<Rightarrow> nat list option" where
  "union_inner claims assessable threshold i parent j =
     (if \<not> assessable ! j then Some parent
      else case (embedding (claims ! i), embedding (claims ! j)) of
             (Some ei, Some ej) \<Rightarrow>
               if hamming_distance ei ej \<le> threshold then unite parent i j else Some parent
           | _ \<Rightarrow> Some parent)"

definition union_outer :: "Claim list \<Rightarrow> bool list \<Rightarrow> u32 \<Rightarrow> nat list \<Rightarrow> nat \<Rightarrow> nat list option" where
  "union_outer claims assessable threshold parent i =
     (if \<not> assessable ! i then Some parent
      else opt_fold (union_inner claims assessable threshold i) [i + 1..<length claims] parent)"

definition min_id_step ::
  "Claim list \<Rightarrow> bool list \<Rightarrow> nat list \<times> (nat \<Rightarrow> ClaimHash option) \<Rightarrow> nat
    \<Rightarrow> (nat list \<times> (nat \<Rightarrow> ClaimHash option)) option" where
  "min_id_step claims assessable st i =
     (case st of (parent, min_id) \<Rightarrow>
      if \<not> assessable ! i then Some st
      else do {
        (parent, root) \<leftarrow> find_root parent i;
        let c = claim_id (claims ! i);
        Some (parent, min_id(root \<mapsto>
          (case min_id root of Some m \<Rightarrow> if c < m then c else m | None \<Rightarrow> c)))
      })"

definition cluster_key :: "blake3 \<Rightarrow> ClaimHash \<Rightarrow> u64" where
  "cluster_key B anchor = hash_key B (ascii ''aimp.correlation.cluster.v2'' @ anchor)"

definition group_step ::
  "blake3 \<Rightarrow> Claim list \<Rightarrow> bool list \<Rightarrow> (nat \<Rightarrow> ClaimHash option)
    \<Rightarrow> nat list \<times> CorrelationGroup list \<Rightarrow> nat \<Rightarrow> (nat list \<times> CorrelationGroup list) option" where
  "group_step B claims assessable min_id st i =
     (case st of (parent, out) \<Rightarrow>
      if \<not> assessable ! i then
        Some (parent, out @ [\<lparr>cg_key = effective_correlation_cell B (claims ! i), cg_assessed = False\<rparr>])
      else do {
        (parent, root) \<leftarrow> find_root parent i;
        anchor \<leftarrow> min_id root;
        Some (parent, out @ [\<lparr>cg_key = cluster_key B anchor, cg_assessed = True\<rparr>])
      })"

definition correlation_groups :: "blake3 \<Rightarrow> Claim list \<Rightarrow> u32 \<Rightarrow> CorrelationGroup list option" where
  "correlation_groups B claims threshold =
     (let n = length claims; assessable = assessable_flags claims
      in do {
        parent \<leftarrow> opt_fold (union_outer claims assessable threshold) [0..<n] [0..<n];
        (parent, min_id) \<leftarrow> opt_fold (min_id_step claims assessable) [0..<n] (parent, Map.empty);
        (parent, out) \<leftarrow> opt_fold (group_step B claims assessable min_id) [0..<n] (parent, []);
        Some out
      })"

section \<open>The specification\<close>

abbreviation content :: "Claim \<Rightarrow> bytes" where
  "content c \<equiv> fp_primary (fingerprint c)"

text \<open>The embeddings declared for one content, and whether they disagree.\<close>

definition declared_embeddings :: "Claim set \<Rightarrow> bytes \<Rightarrow> QuantizedEmbedding set" where
  "declared_embeddings C k = {e. \<exists>c\<in>C. content c = k \<and> embedding c = Some e}"

definition content_conflict :: "Claim set \<Rightarrow> bytes \<Rightarrow> bool" where
  "content_conflict C k \<longleftrightarrow> (\<exists>e\<in>declared_embeddings C k. \<exists>e'\<in>declared_embeddings C k. e \<noteq> e')"

definition assessable :: "Claim set \<Rightarrow> Claim \<Rightarrow> bool" where
  "assessable C c \<longleftrightarrow> embedding c \<noteq> None \<and> \<not> content_conflict C (content c)"

definition near :: "Claim set \<Rightarrow> u32 \<Rightarrow> Claim \<Rightarrow> Claim \<Rightarrow> bool" where
  "near C threshold c c' \<longleftrightarrow> c \<in> C \<and> c' \<in> C \<and> assessable C c \<and> assessable C c' \<and>
     hamming_distance (the (embedding c)) (the (embedding c')) \<le> threshold"

definition connected :: "Claim set \<Rightarrow> u32 \<Rightarrow> Claim \<Rightarrow> Claim \<Rightarrow> bool" where
  "connected C threshold = conn {(c, c'). near C threshold c c'}"

definition anchor :: "Claim set \<Rightarrow> u32 \<Rightarrow> Claim \<Rightarrow> ClaimHash" where
  "anchor C threshold c = Min (claim_id ` {c'. connected C threshold c c'})"

definition group_of :: "blake3 \<Rightarrow> Claim set \<Rightarrow> u32 \<Rightarrow> Claim \<Rightarrow> CorrelationGroup" where
  "group_of B C threshold c =
     (if assessable C c then \<lparr>cg_key = cluster_key B (anchor C threshold c), cg_assessed = True\<rparr>
      else \<lparr>cg_key = effective_correlation_cell B c, cg_assessed = False\<rparr>)"

subsection \<open>Consistency pass\<close>

lemma declared_embeddings_snoc:
  "declared_embeddings (insert c C) k =
     declared_embeddings C k \<union> (if content c = k then set_option (embedding c) else {})"
  by (auto simp: declared_embeddings_def)

lemma consistency_pass:
  "foldl consistency_step (Map.empty, {}) claims = (seen, inconsistent) \<Longrightarrow>
     (seen k = None \<longleftrightarrow> declared_embeddings (set claims) k = {}) \<and>
     (\<forall>e. seen k = Some e \<longrightarrow> e \<in> declared_embeddings (set claims) k) \<and>
     (k \<in> inconsistent \<longleftrightarrow> content_conflict (set claims) k)"
proof (induction claims arbitrary: seen inconsistent k rule: rev_induct)
  case Nil
  then show ?case by (auto simp: content_conflict_def declared_embeddings_def)
next
  case (snoc c claims)
  obtain seen0 inc0 where f: "foldl consistency_step (Map.empty, {}) claims = (seen0, inc0)"
    by fastforce
  note IH = snoc.IH [OF f]
  have step: "consistency_step (seen0, inc0) c = (seen, inconsistent)"
    using snoc.prems f by simp
  show ?case
  proof (cases "embedding c")
    case None
    then have "seen = seen0" "inconsistent = inc0" using step by (auto simp: consistency_step_def)
    then show ?thesis using IH None by (simp add: content_conflict_def declared_embeddings_snoc)
  next
    case (Some e)
    show ?thesis
    proof (cases "seen0 (content c)")
      case None
      then have s: "seen = seen0(content c \<mapsto> e)" "inconsistent = inc0"
        using step Some by (auto simp: consistency_step_def)
      have "declared_embeddings (set claims) (content c) = {}" using IH None by blast
      then show ?thesis unfolding s using IH [of k] Some
        by (cases "content c = k") (auto simp: content_conflict_def declared_embeddings_snoc)
    next
      case prev: (Some prev)
      then have "prev \<in> declared_embeddings (set claims) (content c)" using IH by blast
      moreover have s: "seen = seen0" "inconsistent = (if prev \<noteq> e then insert (content c) inc0 else inc0)"
        using step Some prev by (auto simp: consistency_step_def split: if_splits)
      ultimately show ?thesis unfolding s using IH [of k] Some
        by (cases "content c = k") (auto simp: content_conflict_def declared_embeddings_snoc)
    qed
  qed
qed

lemma assessable_flags_nth:
  "i < length claims \<Longrightarrow> assessable_flags claims ! i \<longleftrightarrow> assessable (set claims) (claims ! i)"
proof -
  obtain seen inc where f: "foldl consistency_step (Map.empty, {}) claims = (seen, inc)"
    by fastforce
  have "k \<in> inc \<longleftrightarrow> content_conflict (set claims) k" for k
    using consistency_pass [OF f] by blast
  then show "i < length claims \<Longrightarrow> ?thesis"
    by (simp add: assessable_flags_def f assessable_def)
qed


subsection \<open>Union pass\<close>

text \<open>The pairs of indices the two loops unite.\<close>

definition near_pairs :: "Claim list \<Rightarrow> u32 \<Rightarrow> (nat \<times> nat) list" where
  "near_pairs claims threshold =
     concat (map (\<lambda>i. map (Pair i) (filter (\<lambda>j. near (set claims) threshold (claims ! i) (claims ! j))
       [i + 1..<length claims])) [0..<length claims])"

lemma set_near_pairs:
  "set (near_pairs claims threshold) =
     {(i, j). i < j \<and> j < length claims \<and> near (set claims) threshold (claims ! i) (claims ! j)}"
  unfolding near_pairs_def by (force simp: image_iff)

lemma union_pass_pairs:
  "opt_fold (union_outer claims (assessable_flags claims) threshold) [0..<length claims] p =
     opt_fold (\<lambda>p (i, j). unite p i j) (near_pairs claims threshold) p"
proof -
  let ?near = "\<lambda>i j. near (set claims) threshold (claims ! i) (claims ! j)"
  have inner: "opt_fold (union_inner claims (assessable_flags claims) threshold i) [Suc i..<length claims] p
      = opt_fold (\<lambda>p j. if ?near i j then unite p i j else Some p) [Suc i..<length claims] p"
    if "i < length claims" "assessable (set claims) (claims ! i)" for i p
    using that
    by (intro opt_fold_cong)
      (auto simp: union_inner_def near_def assessable_flags_nth assessable_def split: option.split)
  have "union_outer claims (assessable_flags claims) threshold p i =
      opt_fold (\<lambda>p (i, j). unite p i j)
        (map (Pair i) (filter (?near i) [i + 1..<length claims])) p" if "i < length claims" for i p
  proof (cases "assessable (set claims) (claims ! i)")
    case True
    then show ?thesis
      using that by (simp add: union_outer_def assessable_flags_nth inner opt_fold_filter opt_fold_map
          del: upt_Suc)
  next
    case False
    then have "filter (?near i) [i + 1..<length claims] = []"
      by (auto simp: filter_empty_conv near_def)
    then show ?thesis using that False by (simp add: union_outer_def assessable_flags_nth del: upt_Suc)
  qed
  then have "opt_fold (union_outer claims (assessable_flags claims) threshold) [0..<length claims] p =
      opt_fold (\<lambda>p i. opt_fold (\<lambda>p (i, j). unite p i j)
        (map (Pair i) (filter (?near i) [i + 1..<length claims])) p) [0..<length claims] p"
    by (intro opt_fold_cong) auto
  then show ?thesis by (simp only: opt_fold_concat near_pairs_def)
qed

lemma union_pass:
  "\<exists>p. opt_fold (union_outer claims (assessable_flags claims) threshold) [0..<length claims] [0..<length claims] = Some p
     \<and> uf_valid (length claims) p
     \<and> (\<forall>i<length claims. \<forall>j<length claims.
          uf_same p i j \<longleftrightarrow> conn (set (near_pairs claims threshold)) i j)"
  unfolding union_pass_pairs
  using uf.components [of "length claims" "[0..<length claims]" "{}" "near_pairs claims threshold"]
  by (simp add: uf_init set_near_pairs case_prod_unfold)

text \<open>Connected indices are connected claims.\<close>

lemma near_sym: "near C t c c' \<longleftrightarrow> near C t c' c"
  by (auto simp: near_def ham.within_sym)

lemma near_refl: "c \<in> C \<Longrightarrow> assessable C c \<Longrightarrow> near C t c c"
  by (simp add: near_def)

lemma connected_field: "connected C t c c' \<Longrightarrow> c = c' \<or> c \<in> C \<and> c' \<in> C \<and> assessable C c \<and> assessable C c'"
  unfolding connected_def
  by (induction rule: conn_induct) (auto simp: near_def)

lemma connected_refl [simp]: "connected C t c c"
  and connected_commute: "connected C t c c' \<longleftrightarrow> connected C t c' c"
  and connected_trans: "connected C t c c' \<Longrightarrow> connected C t c' c'' \<Longrightarrow> connected C t c c''"
  and near_connected: "near C t c c' \<Longrightarrow> connected C t c c'"
  unfolding connected_def by (simp, rule conn_commute, rule conn_trans, assumption+, rule conn_edge, simp)

lemma conn_pairs_nth:
  assumes i: "i < length claims" "assessable (set claims) (claims ! i)" and j: "j < length claims"
  shows "conn (set (near_pairs claims t)) i j \<longleftrightarrow> connected (set claims) t (claims ! i) (claims ! j)"
proof
  assume "conn (set (near_pairs claims t)) i j"
  then show "connected (set claims) t (claims ! i) (claims ! j)"
  proof (induction rule: conn_induct)
    case (edge j k)
    then have "near (set claims) t (claims ! j) (claims ! k)"
      using near_sym by (auto simp: set_near_pairs)
    with edge.IH show ?case using near_connected connected_trans by blast
  qed simp
next
  have step: "conn (set (near_pairs claims t)) k l"
    if "k < length claims" "l < length claims" "near (set claims) t (claims ! k) (claims ! l)" for k l
  proof (cases k l rule: linorder_cases)
    case greater
    then have "conn (set (near_pairs claims t)) l k"
      using that near_sym [of "set claims" t "claims ! k" "claims ! l"]
      by (intro conn_edge) (simp add: set_near_pairs)
    then show ?thesis by (rule conn_sym)
  qed (use that in \<open>auto intro!: conn_edge simp: set_near_pairs\<close>)
  have "\<forall>j<length claims. claims ! j = c \<longrightarrow> conn (set (near_pairs claims t)) i j"
    if "connected (set claims) t (claims ! i) c" for c
    using that unfolding connected_def
  proof (induction rule: conn_induct)
    case refl
    then show ?case using i step near_refl by (metis nth_mem)
  next
    case (edge c c')
    then have n: "near (set claims) t c c'" using near_sym by auto
    then obtain k where "k < length claims" "claims ! k = c" by (auto simp: near_def in_set_conv_nth)
    then show ?case using edge.IH n step conn_trans by metis
  qed
  then show "connected (set claims) t (claims ! i) (claims ! j) \<Longrightarrow> conn (set (near_pairs claims t)) i j"
    using j by blast
qed


subsection \<open>Anchors and groups\<close>

definition ids_at :: "Claim list \<Rightarrow> nat list \<Rightarrow> nat set \<Rightarrow> nat \<Rightarrow> ClaimHash set" where
  "ids_at claims p ks r =
     (\<lambda>k. claim_id (claims ! k)) ` {k \<in> ks. assessable (set claims) (claims ! k) \<and> rooted p k r}"

definition min_opt :: "'a::linorder set \<Rightarrow> 'a option" where
  "min_opt S = (if S = {} then None else Some (Min S))"

lemma min_opt_insert:
  "finite S \<Longrightarrow> min_opt (insert c S) =
     Some (case min_opt S of Some m \<Rightarrow> if c < m then c else m | None \<Rightarrow> c)"
proof (cases "S = {}")
  case False
  assume "finite S"
  then have "Min (insert c S) = min c (Min S)" using False by (rule Min_insert)
  also have "\<dots> = (if c < Min S then c else Min S)" by (auto simp: min_def)
  finally show ?thesis using False by (simp only: min_opt_def) simp
qed (simp add: min_opt_def)

lemma ids_at_insert:
  "ids_at claims p (insert x ks) r =
     (if assessable (set claims) (claims ! x) \<and> rooted p x r
      then insert (claim_id (claims ! x)) (ids_at claims p ks r) else ids_at claims p ks r)"
  by (auto simp: ids_at_def)

lemma finite_ids_at [simp]: "finite ks \<Longrightarrow> finite (ids_at claims p ks r)"
  by (simp add: ids_at_def)

lemma min_id_pass:
  assumes "uf_valid (length claims) p"
  shows "\<exists>p' m. opt_fold (min_id_step claims (assessable_flags claims)) [0..<length claims] (p, Map.empty) = Some (p', m)
    \<and> uf_valid (length claims) p' \<and> rooted p' = rooted p
    \<and> m = (\<lambda>r. min_opt (ids_at claims p {0..<length claims} r))"
proof -
  let ?n = "length claims"
  let ?I = "\<lambda>ks (p', m). uf_valid ?n p' \<and> rooted p' = rooted p \<and> m = (\<lambda>r. min_opt (ids_at claims p (set ks) r))"
  have "\<exists>st. opt_fold (min_id_step claims (assessable_flags claims)) [0..<?n] (p, Map.empty) = Some st
    \<and> ?I [0..<?n] st"
  proof (rule opt_fold_invariant)
    show "?I [] (p, Map.empty)" using assms by (simp add: ids_at_def min_opt_def)
  next
    fix ks x st
    assume I: "?I ks st" and x: "x \<in> set [0..<?n]"
    obtain p1 m where st: "st = (p1, m)" by (cases st)
    have I': "uf_valid ?n p1" "rooted p1 = rooted p" "m = (\<lambda>r. min_opt (ids_at claims p (set ks) r))"
      using I st by auto
    show "\<exists>s'. min_id_step claims (assessable_flags claims) st x = Some s' \<and> ?I (ks @ [x]) s'"
    proof (cases "assessable (set claims) (claims ! x)")
      case False
      then show ?thesis using x I' by (simp add: min_id_step_def st assessable_flags_nth ids_at_insert)
    next
      case True
      obtain p2 rx where f: "find_root p1 x = Some (p2, rx)" "rooted p x rx" "uf_valid ?n p2" "rooted p2 = rooted p"
        using find_root_correct [OF I'(1), of x] x I'(2) by auto
      have "rooted p x r \<longleftrightarrow> r = rx" for r using f(2) rooted_det by blast
      then have "(\<lambda>r. min_opt (ids_at claims p (set (ks @ [x])) r)) =
          m(rx \<mapsto> (case m rx of Some v \<Rightarrow> if claim_id (claims ! x) < v then claim_id (claims ! x) else v
            | None \<Rightarrow> claim_id (claims ! x)))"
        using True by (auto simp: fun_eq_iff I'(3) ids_at_insert min_opt_insert)
      then show ?thesis
        using True x f by (simp add: min_id_step_def st assessable_flags_nth Let_def)
    qed
  qed
  then show ?thesis by auto
qed

lemma anchor_at:
  assumes same: "\<forall>i<length claims. \<forall>j<length claims.
      uf_same p i j \<longleftrightarrow> conn (set (near_pairs claims t)) i j"
    and i: "i < length claims" "assessable (set claims) (claims ! i)" "rooted p i r"
    and v: "uf_valid (length claims) p"
  shows "min_opt (ids_at claims p {0..<length claims} r) = Some (anchor (set claims) t (claims ! i))"
proof -
  let ?C = "set claims"
  have rooted: "rooted p k r \<longleftrightarrow> connected ?C t (claims ! i) (claims ! k)" if k: "k < length claims" for k
  proof -
    obtain s where s: "rooted p k s" using v k by (auto simp: uf_valid_def)
    have "rooted p k r \<longleftrightarrow> uf_same p i k" using s i(3) rooted_det by (auto simp: uf_same_def)
    then show ?thesis using same i k conn_pairs_nth [OF i(1,2) k, of t] by blast
  qed
  have "{claims ! k | k. k < length claims \<and> assessable ?C (claims ! k) \<and> rooted p k r}
      = {c. connected ?C t (claims ! i) c}" (is "?L = ?R")
  proof
    show "?L \<subseteq> ?R" using rooted by auto
    show "?R \<subseteq> ?L"
    proof
      fix c assume "c \<in> ?R"
      then have c: "connected ?C t (claims ! i) c" by simp
      then have "c \<in> ?C \<and> assessable ?C c" using connected_field [OF c] i by auto
      then show "c \<in> ?L" using rooted c by (auto simp: in_set_conv_nth)
    qed
  qed
  moreover have "ids_at claims p {0..<length claims} r = claim_id ` ?L"
    by (auto simp: ids_at_def)
  ultimately have "ids_at claims p {0..<length claims} r = claim_id ` {c. connected ?C t (claims ! i) c}"
    by simp
  moreover have "{c. connected ?C t (claims ! i) c} \<noteq> {}"
    using connected_refl [of ?C t "claims ! i"] by blast
  ultimately show ?thesis by (simp add: min_opt_def anchor_def)
qed

lemma group_pass:
  assumes v: "uf_valid (length claims) p" and v': "uf_valid (length claims) p'" and r: "rooted p' = rooted p"
    and same: "\<forall>i<length claims. \<forall>j<length claims.
      uf_same p i j \<longleftrightarrow> conn (set (near_pairs claims t)) i j"
    and m: "m = (\<lambda>r. min_opt (ids_at claims p {0..<length claims} r))"
  shows "\<exists>p''. opt_fold (group_step B claims (assessable_flags claims) m) [0..<length claims] (p', []) =
    Some (p'', map (group_of B (set claims) t) claims)"
proof -
  let ?n = "length claims"
  let ?I = "\<lambda>ks (q, out). uf_valid ?n q \<and> rooted q = rooted p \<and>
    out = map (\<lambda>k. group_of B (set claims) t (claims ! k)) ks"
  have "\<exists>st. opt_fold (group_step B claims (assessable_flags claims) m) [0..<?n] (p', []) = Some st
    \<and> ?I [0..<?n] st"
  proof (rule opt_fold_invariant)
    show "?I [] (p', [])" using v' r by simp
  next
    fix ks x st
    assume I: "?I ks st" and x: "x \<in> set [0..<?n]"
    obtain q out where st: "st = (q, out)" by (cases st)
    have I': "uf_valid ?n q" "rooted q = rooted p" "out = map (\<lambda>k. group_of B (set claims) t (claims ! k)) ks"
      using I st by auto
    show "\<exists>s'. group_step B claims (assessable_flags claims) m st x = Some s' \<and> ?I (ks @ [x]) s'"
    proof (cases "assessable (set claims) (claims ! x)")
      case False
      then show ?thesis using x I' by (simp add: group_step_def st assessable_flags_nth group_of_def)
    next
      case True
      obtain q2 rx where f: "find_root q x = Some (q2, rx)" "rooted p x rx" "uf_valid ?n q2" "rooted q2 = rooted p"
        using find_root_correct [OF I'(1), of x] x I'(2) by auto
      have "m rx = Some (anchor (set claims) t (claims ! x))"
        unfolding m using anchor_at [OF same] x True f(2) v by simp
      then show ?thesis
        using True x f I' by (simp add: group_step_def st assessable_flags_nth group_of_def)
    qed
  qed
  then show ?thesis by (auto simp: map_nth intro!: nth_equalityI)
qed

text \<open>The loops end, no index is out of range, and every claim gets its group.\<close>

lemma correlation_groups_eq:
  "correlation_groups B claims threshold = Some (map (group_of B (set claims) threshold) claims)"
proof -
  obtain p where p: "opt_fold (union_outer claims (assessable_flags claims) threshold)
        [0..<length claims] [0..<length claims] = Some p"
    "uf_valid (length claims) p"
    "\<forall>i<length claims. \<forall>j<length claims.
      uf_same p i j \<longleftrightarrow> conn (set (near_pairs claims threshold)) i j"
    using union_pass by blast
  obtain p' m where m: "opt_fold (min_id_step claims (assessable_flags claims)) [0..<length claims] (p, Map.empty) = Some (p', m)"
    "uf_valid (length claims) p'" "rooted p' = rooted p"
    "m = (\<lambda>r. min_opt (ids_at claims p {0..<length claims} r))"
    using min_id_pass [OF p(2)] by blast
  obtain p'' where "opt_fold (group_step B claims (assessable_flags claims) m) [0..<length claims] (p', [])
      = Some (p'', map (group_of B (set claims) threshold) claims)"
    using group_pass [OF p(2) m(2,3) p(3) m(4)] by blast
  with p(1) m(1) show ?thesis
    by (simp add: correlation_groups_def Let_def)
qed

section \<open>What the grouping guarantees\<close>

lemma finite_cluster: "finite C \<Longrightarrow> finite {c'. connected C t c c'}"
  using connected_field by (intro finite_subset [of "{c'. connected C t c c'}" "insert c C"]) auto

lemma anchor_in:
  assumes "finite C" "c \<in> C"
  shows "\<exists>c'\<in>C. connected C t c c' \<and> anchor C t c = claim_id c'"
proof -
  have "anchor C t c \<in> claim_id ` {c'. connected C t c c'}"
    unfolding anchor_def using assms finite_cluster connected_refl [of C t c] by (intro Min_in) blast+
  then show ?thesis using connected_field assms(2) by blast
qed

lemma anchor_connected: "connected C t c c' \<Longrightarrow> anchor C t c = anchor C t c'"
  unfolding anchor_def using connected_trans connected_commute
  by (intro arg_cong [of _ _ Min] arg_cong [of _ _ "image claim_id"]) blast

definition cluster_preimage :: "ClaimHash \<Rightarrow> bytes" where
  "cluster_preimage i = ascii ''aimp.correlation.cluster.v2'' @ i"

text \<open>All the byte strings that are hashed to a group key on a set of claims.\<close>

definition group_preimages :: "Claim set \<Rightarrow> bytes set" where
  "group_preimages C = cluster_preimage ` claim_id ` C \<union> fallback_preimage ` C"

lemma cluster_not_fallback: "cluster_preimage i \<noteq> fallback_preimage c"
  by (simp add: cluster_preimage_def fallback_preimage_def ascii_def split: option.split)

lemma cluster_key_eq:
  assumes "key_free B (group_preimages C)" "finite C" "c \<in> C" "c' \<in> C"
  shows "cluster_key B (anchor C t c) = cluster_key B (anchor C t c') \<longleftrightarrow> anchor C t c = anchor C t c'"
proof -
  have "cluster_preimage (anchor C t x) \<in> group_preimages C" if "x \<in> C" for x
    using anchor_in [OF assms(2) that, of t] unfolding group_preimages_def by (metis UnI1 imageI)
  then show ?thesis
    using key_freeD [OF assms(1)] assms(3,4)
    by (simp add: cluster_key_def flip: cluster_preimage_def) (simp add: cluster_preimage_def)
qed

lemma same_anchor_connected:
  assumes "finite C" "inj_on claim_id C" "c \<in> C" "c' \<in> C"
  shows "anchor C t c = anchor C t c' \<longleftrightarrow> connected C t c c'"
proof
  assume eq: "anchor C t c = anchor C t c'"
  obtain a where a: "a \<in> C" "connected C t c a" "anchor C t c = claim_id a"
    using anchor_in assms by metis
  obtain b where b: "b \<in> C" "connected C t c' b" "anchor C t c' = claim_id b"
    using anchor_in assms by metis
  have "a = b" using eq a b assms(2) by (simp add: inj_on_def)
  then show "connected C t c c'" using a b connected_trans connected_commute by metis
qed (rule anchor_connected)

text \<open>Two sets of claims that agree on ids, contents and embeddings are grouped alike.\<close>

definition same_evidence :: "(Claim \<Rightarrow> Claim) \<Rightarrow> bool" where
  "same_evidence f \<longleftrightarrow> (\<forall>c. claim_id (f c) = claim_id c \<and> content (f c) = content c
     \<and> embedding (f c) = embedding c \<and> correlation_cell (f c) = correlation_cell c
     \<and> claim_origin (f c) = claim_origin c)"

lemma same_evidence_assessable:
  assumes "same_evidence f"
  shows "assessable (f ` C) (f c) \<longleftrightarrow> assessable C c"
proof -
  have "declared_embeddings (f ` C) k = declared_embeddings C k" for k
    using assms by (auto simp: declared_embeddings_def same_evidence_def)
  then show ?thesis
    using assms by (simp add: assessable_def content_conflict_def same_evidence_def)
qed

lemma same_evidence_near:
  assumes "same_evidence f" "c \<in> C" "c' \<in> C"
  shows "near (f ` C) t (f c) (f c') \<longleftrightarrow> near C t c c'"
proof -
  have "embedding (f c) = embedding c" "embedding (f c') = embedding c'"
    using assms(1) by (simp_all add: same_evidence_def)
  then show ?thesis using assms by (simp add: near_def same_evidence_assessable)
qed

lemma same_evidence_connected:
  assumes f: "same_evidence f" and c: "c \<in> C" "assessable C c"
  shows "claim_id ` {x. connected (f ` C) t (f c) x} = claim_id ` {x. connected C t c x}"
proof -
  have fid: "claim_id (f x) = claim_id x" for x using f by (simp add: same_evidence_def)
  have fwd: "connected (f ` C) t (f c) (f x)" if "connected C t c x" for x
    using that unfolding connected_def
  proof (induction rule: conn_induct)
    case (edge y z)
    then have n: "near C t y z" using near_sym by auto
    then have "near (f ` C) t (f y) (f z)"
      using same_evidence_near [OF f] by (simp add: near_def)
    with edge.IH show ?case
      using near_connected connected_trans unfolding connected_def [symmetric] by blast
  qed simp
  have bwd: "\<forall>z\<in>C. f z = y \<longrightarrow> connected C t c z" if "connected (f ` C) t (f c) y" for y
    using that unfolding connected_def
  proof (induction rule: conn_induct)
    case refl
    have "near C t c z" if "z \<in> C" "f z = f c" for z
    proof -
      have "near (f ` C) t (f c) (f c)" using c f by (simp add: near_refl same_evidence_assessable)
      then show ?thesis using that c same_evidence_near [OF f, of c C z t] by simp
    qed
    then show ?case using near_connected unfolding connected_def [symmetric] by blast
  next
    case (edge y z)
    then have n: "near (f ` C) t y z" using near_sym by auto
    then obtain y0 where y0: "y0 \<in> C" "f y0 = y" by (auto simp: near_def)
    show ?case
    proof (intro ballI impI)
      fix z0 assume z0: "z0 \<in> C" "f z0 = z"
      have "near C t y0 z0" using n y0 z0 same_evidence_near [OF f, of y0 C z0 t] by simp
      then show "conn {(c, c'). near C t c c'} c z0"
        using edge.IH y0 near_connected connected_trans unfolding connected_def [symmetric] by blast
    qed
  qed
  have "claim_id x \<in> claim_id ` {x. connected C t c x}" if x: "connected (f ` C) t (f c) x" for x
  proof -
    have "x \<in> f ` C" using connected_field [OF x] c by auto
    then obtain z where "z \<in> C" "f z = x" by auto
    then show ?thesis using bwd [OF x] fid by (metis (mono_tags) image_eqI mem_Collect_eq)
  qed
  then show ?thesis using fwd fid by (auto simp: image_iff) metis
qed

lemma same_evidence_group:
  assumes "same_evidence f" "c \<in> C"
  shows "group_of B (f ` C) t (f c) = group_of B C t c"
proof (cases "assessable C c")
  case True
  then have "anchor (f ` C) t (f c) = anchor C t c"
    unfolding anchor_def using assms same_evidence_connected by metis
  then show ?thesis using True assms by (simp add: group_of_def same_evidence_assessable)
next
  case False
  then show ?thesis
    using assms(1) by (simp add: group_of_def same_evidence_assessable)
      (simp add: effective_correlation_cell_def same_evidence_def split: option.split)
qed

lemma same_content_group:
  assumes "c \<in> C" "c' \<in> C" "content c = content c'" "embedding c \<noteq> None" "embedding c' \<noteq> None"
  shows "(cg_assessed (group_of B C t c) \<longleftrightarrow> cg_assessed (group_of B C t c'))
    \<and> (cg_assessed (group_of B C t c) \<longrightarrow> group_of B C t c = group_of B C t c')"
proof -
  have "assessable C c \<longleftrightarrow> assessable C c'" using assms by (simp add: assessable_def)
  moreover have "anchor C t c = anchor C t c'" if "assessable C c" "assessable C c'"
  proof (intro anchor_connected near_connected)
    have "the (embedding c) = the (embedding c')"
      using that assms unfolding assessable_def content_conflict_def declared_embeddings_def by force
    then show "near C t c c'" using that assms by (simp add: near_def)
  qed
  ultimately show ?thesis by (auto simp: group_of_def)
qed

section \<open>Properties\<close>

text \<open>
  C1: The grouping of a list of claims always returns, without a panic, and gives every claim the
  group that the specification gives it within the set of claims: the union-find arrays with path
  halving, the hash maps and the loops are a correct implementation of connected components.
\<close>

theorem correlation_groups_refines:
  "correlation_groups B claims threshold = Some (map (group_of B (set claims) threshold) claims)"
  by (rule correlation_groups_eq)

text \<open>
  Two claims of a set with distinct ids get the same assessed group exactly when a chain of
  embeddings within the threshold connects them, and an assessed group is never the group of a
  claim that could not be assessed, up to collisions of the hash on the keys of this set.
\<close>

theorem same_group_iff_connected:
  assumes "key_free B (group_preimages C)" "finite C" "inj_on claim_id C" "c \<in> C" "c' \<in> C"
    and "assessable C c"
  shows "cg_key (group_of B C t c) = cg_key (group_of B C t c') \<longleftrightarrow> connected C t c c'"
proof (cases "assessable C c'")
  case True
  then show ?thesis
    using assms cluster_key_eq same_anchor_connected by (simp add: group_of_def)
next
  case False
  obtain a where a: "a \<in> C" "anchor C t c = claim_id a" using anchor_in [OF assms(2,4)] by blast
  have "cluster_key B (anchor C t c) \<noteq> effective_correlation_cell B c'"
    using key_freeD [OF assms(1), of "cluster_preimage (claim_id a)" "fallback_preimage c'"]
      a assms(5) cluster_not_fallback
    by (simp add: group_preimages_def cluster_key_def effective_correlation_cell_eq
        flip: cluster_preimage_def)
  moreover have "\<not> connected C t c c'"
    using connected_field [of C t c c'] False assms(6) by auto
  ultimately show ?thesis using False assms(6) by (simp add: group_of_def)
qed

theorem same_group_iff_connected_witness:
  "let a = sample_claim [1] [1] (Some qe_ZERO);
       b = sample_claim [2] [2] (Some (QuantizedEmbedding 7 0 0 0))\<lparr>fingerprint := \<lparr>fp_primary = [1], fp_secondary = 0\<rparr>\<rparr>
   in cg_key (group_of sample_hash {a, b} 30 a) = cg_key (group_of sample_hash {a, b} 30 b)"
proof -
  let ?a = "sample_claim [1] [1] (Some qe_ZERO)"
  let ?b = "sample_claim [2] [2] (Some (QuantizedEmbedding 7 0 0 0))\<lparr>fingerprint := \<lparr>fp_primary = [1], fp_secondary = 0\<rparr>\<rparr>"
  have "distinct (map (hash_key sample_hash)
      [cluster_preimage [1], cluster_preimage [2], fallback_preimage ?a, fallback_preimage ?b])"
    by code_simp
  then have "key_free sample_hash (set [cluster_preimage [1], cluster_preimage [2],
      fallback_preimage ?a, fallback_preimage ?b])"
    by (rule key_free_list)
  then have k: "key_free sample_hash (group_preimages {?a, ?b})"
    by (rule key_free_mono) (auto simp: group_preimages_def sample_claim_def)
  have as: "assessable {?a, ?b} ?a" "assessable {?a, ?b} ?b"
    by (auto simp: assessable_def content_conflict_def declared_embeddings_def sample_claim_def)
  have "hamming_distance qe_ZERO (QuantizedEmbedding 7 0 0 0) \<le> 30" by code_simp
  then have "near {?a, ?b} 30 ?a ?b"
    using as by (simp add: near_def sample_claim_def)
  then have "connected {?a, ?b} 30 ?a ?b" by (rule near_connected)
  moreover have "inj_on claim_id {?a, ?b}" by (auto simp: sample_claim_def)
  ultimately show ?thesis
    using same_group_iff_connected [OF k, of ?a ?b 30] as unfolding Let_def by blast
qed

text \<open>
  The declared embedding version buys nothing: whatever versions the claims declare, the
  grouping is the same.
\<close>

theorem embedding_version_irrelevant:
  "correlation_groups B (map (\<lambda>c. c\<lparr>embedding_version := v c\<rparr>) claims) threshold
     = correlation_groups B claims threshold"
proof -
  have "same_evidence (\<lambda>c. c\<lparr>embedding_version := v c\<rparr>)" by (simp add: same_evidence_def)
  from same_evidence_group [OF this, of _ "set claims" B threshold] show ?thesis
    by (simp add: correlation_groups_eq)
qed

text \<open>
  One content cannot be split into several assessed groups: claims of the same content that
  carry embeddings are either all assessed, in one group, or all unassessed.
\<close>

theorem content_not_split:
  assumes "c \<in> C" "c' \<in> C" "content c = content c'" "embedding c \<noteq> None" "embedding c' \<noteq> None"
  shows "(cg_assessed (group_of B C t c) \<longleftrightarrow> cg_assessed (group_of B C t c'))
    \<and> (cg_assessed (group_of B C t c) \<longrightarrow> group_of B C t c = group_of B C t c')"
  using assms by (rule same_content_group)

theorem content_not_split_witness:
  "let a = sample_claim [1] [1] (Some qe_ZERO); b = sample_claim [2] [2] (Some qe_ONES)
   in group_of sample_hash {a, b} 30 a \<noteq> group_of sample_hash {a, b} 30 b
      \<longrightarrow> \<not> cg_assessed (group_of sample_hash {a, b} 30 a)"
proof -
  let ?a = "sample_claim [1] [1] (Some qe_ZERO)"
  let ?b = "sample_claim [2] [2] (Some qe_ONES)"
  have "content ?a = content ?b" "embedding ?a \<noteq> None" "embedding ?b \<noteq> None"
    by (simp_all add: sample_claim_def)
  then show ?thesis
    using content_not_split [of ?a "{?a, ?b}" ?b sample_hash 30] unfolding Let_def by blast
qed

text \<open>
  The grouping does not depend on the order in which the claims arrive: two replicas with the
  same claims pair them with the same groups.
\<close>

theorem correlation_groups_order_independent:
  assumes "mset claims = mset claims'"
  shows "\<exists>gs gs'. correlation_groups B claims t = Some gs \<and> correlation_groups B claims' t = Some gs'
    \<and> mset (zip claims gs) = mset (zip claims' gs')"
proof -
  have "zip xs (map f xs) = map (\<lambda>x. (x, f x)) xs" for f :: "Claim \<Rightarrow> CorrelationGroup" and xs
    by (induction xs) simp_all
  then show ?thesis
    using assms mset_eq_setD [OF assms] by (simp add: correlation_groups_eq)
qed

theorem correlation_groups_order_independent_witness:
  "let a = sample_claim [1] [1] None; b = sample_claim [2] [2] (Some qe_ZERO)
   in \<exists>gs gs'. correlation_groups sample_hash [a, b] 30 = Some gs
      \<and> correlation_groups sample_hash [b, a] 30 = Some gs' \<and> mset (zip [a, b] gs) = mset (zip [b, a] gs')"
  unfolding Let_def by (rule correlation_groups_order_independent) simp

end
