(* ===== verification/Reputation_Tracking.thy ===== *)
theory Reputation_Tracking
  imports Log_Odds
begin

text \<open>
  Reputation (\<open>aimp_node/src/epistemic.rs\<close>, lines 1702-1718 and 2375-2431): the events, the
  in-memory tracker and its delegation. The locale \<open>reputation_tracker\<close> is the trait
  \<open>ReputationTracker\<close>: what the trust propagation, the reducers and the resolvers may assume of any
  tracker. It is interpreted on the in-memory tracker.
\<close>

section \<open>The in-memory tracker\<close>

datatype ReputationEvent = EquivocationDetected | ClaimConfirmed | ClaimContradicted | ActiveParticipation

record InMemoryReputationTracker =
  scores :: "bytes \<Rightarrow> Reputation option"

definition tracker_new :: InMemoryReputationTracker where
  "tracker_new = \<lparr>scores = Map.empty\<rparr>"

definition set_reputation :: "InMemoryReputationTracker \<Rightarrow> bytes \<Rightarrow> Reputation \<Rightarrow> InMemoryReputationTracker" where
  "set_reputation t origin rep = t\<lparr>scores := (scores t)(origin \<mapsto> rep)\<rparr>"

definition reputation :: "InMemoryReputationTracker \<Rightarrow> bytes \<Rightarrow> Reputation" where
  "reputation t origin = (case scores t origin of Some r \<Rightarrow> r | None \<Rightarrow> rep_ZERO)"

text \<open>\<open>u16::saturating_add\<close>.\<close>

definition u16_sat_add :: "u16 \<Rightarrow> u16 \<Rightarrow> u16" where
  "u16_sat_add a b = (if a > 65535 - b then 65535 else a + b)"

definition event_score :: "Reputation \<Rightarrow> ReputationEvent \<Rightarrow> u16" where
  "event_score current event =
     (case event of
        EquivocationDetected \<Rightarrow> 0
      | ClaimContradicted \<Rightarrow> usub_sat (bps current) 1000
      | ClaimConfirmed \<Rightarrow> min (u16_sat_add (bps current) 200) 10000
      | ActiveParticipation \<Rightarrow> min (u16_sat_add (bps current) 50) 10000)"

definition update_reputation ::
  "InMemoryReputationTracker \<Rightarrow> bytes \<Rightarrow> ReputationEvent \<Rightarrow> InMemoryReputationTracker" where
  "update_reputation t origin event =
     t\<lparr>scores := (scores t)(origin \<mapsto> from_bps (event_score (reputation t origin) event))\<rparr>"

definition delegate ::
  "InMemoryReputationTracker \<Rightarrow> bytes \<Rightarrow> bytes \<Rightarrow> Reputation \<Rightarrow> InMemoryReputationTracker" where
  "delegate t from to initial_rep =
     (let delegator_rep = reputation t from
      in if bps delegator_rep = 0 then t
         else let capped = from_bps (min (bps initial_rep) (bps delegator_rep));
                  t' = t\<lparr>scores := (scores t)(to \<mapsto> capped)\<rparr>;
                  cost = bps capped div 2;
                  new_delegator_rep = usub_sat (bps delegator_rep) cost
              in t'\<lparr>scores := (scores t')(from \<mapsto> from_bps new_delegator_rep)\<rparr>)"

section \<open>The trait\<close>

text \<open>
  What a tracker promises: reputations are basis points, an equivocator is at zero, an event touches
  the reputation of one identity, an identity at zero delegates nothing, and a delegation gives the
  receiver at most what the delegator had and touches no third identity.
\<close>

locale reputation_tracker =
  fixes rep :: "'s \<Rightarrow> bytes \<Rightarrow> Reputation"
    and upd :: "'s \<Rightarrow> bytes \<Rightarrow> ReputationEvent \<Rightarrow> 's"
    and del :: "'s \<Rightarrow> bytes \<Rightarrow> bytes \<Rightarrow> Reputation \<Rightarrow> 's"
    and ok :: "'s \<Rightarrow> bool"
  assumes rep_range: "ok s \<Longrightarrow> bps (rep s x) \<le> 10000"
    and upd_ok: "ok s \<Longrightarrow> ok (upd s x e)"
    and del_ok: "ok s \<Longrightarrow> ok (del s x y r)"
    and upd_other: "ok s \<Longrightarrow> y \<noteq> x \<Longrightarrow> rep (upd s x e) y = rep s y"
    and equivocator: "ok s \<Longrightarrow> bps (rep (upd s x EquivocationDetected) x) = 0"
    and contradicted: "ok s \<Longrightarrow> bps (rep (upd s x ClaimContradicted) x) \<le> bps (rep s x)"
    and del_gate: "ok s \<Longrightarrow> bps (rep s x) = 0 \<Longrightarrow> del s x y r = s"
    and del_cap: "ok s \<Longrightarrow> y \<noteq> x \<Longrightarrow> bps (rep s x) \<noteq> 0 \<Longrightarrow>
          bps (rep (del s x y r) y) \<le> bps (rep s x)"
    and del_cost: "ok s \<Longrightarrow> bps (rep (del s x y r) x) \<le> bps (rep s x)"
    and del_other: "ok s \<Longrightarrow> z \<noteq> x \<Longrightarrow> z \<noteq> y \<Longrightarrow> rep (del s x y r) z = rep s z"

text \<open>A history of operations on a tracker.\<close>

datatype tracker_op = Event bytes ReputationEvent | Delegation bytes bytes Reputation

context reputation_tracker begin

primrec run_op :: "'s \<Rightarrow> tracker_op \<Rightarrow> 's" where
  "run_op s (Event x e) = upd s x e"
| "run_op s (Delegation x y r) = del s x y r"

definition run :: "tracker_op list \<Rightarrow> 's \<Rightarrow> 's" where
  "run ops s = foldl run_op s ops"

text \<open>The identities of \<open>Z\<close> get no reward, and only identities of \<open>Z\<close> delegate to them.\<close>

primrec closed_op :: "bytes set \<Rightarrow> tracker_op \<Rightarrow> bool" where
  "closed_op Z (Event x e) \<longleftrightarrow> x \<in> Z \<longrightarrow> e = EquivocationDetected \<or> e = ClaimContradicted"
| "closed_op Z (Delegation x y r) \<longleftrightarrow> y \<in> Z \<longrightarrow> x \<in> Z"

lemma run_ok: "ok s \<Longrightarrow> ok (run ops s)"
  unfolding run_def
proof (induction ops arbitrary: s)
  case (Cons a ops)
  then show ?case by (cases a) (simp_all add: upd_ok del_ok)
qed simp

lemma closed_step:
  assumes "ok s" "\<forall>z\<in>Z. bps (rep s z) = 0" "closed_op Z a"
  shows "\<forall>z\<in>Z. bps (rep (run_op s a) z) = 0"
proof
  fix z assume z: "z \<in> Z"
  show "bps (rep (run_op s a) z) = 0"
  proof (cases a)
    case (Event x e)
    then show ?thesis
      using assms z upd_other [of s z x e] equivocator [of s x] contradicted [of s x]
      by (cases "x = z") auto
  next
    case (Delegation x y r)
    show ?thesis
    proof (cases "x \<in> Z")
      case True
      then show ?thesis using assms z Delegation del_gate by simp
    next
      case False
      then have "y \<notin> Z" using assms(3) Delegation by auto
      then have "z \<noteq> x" "z \<noteq> y" using False z by auto
      then show ?thesis using assms z Delegation del_other [of s z x y r] by simp
    qed
  qed
qed

text \<open>A set of identities without reputation stays without reputation, whatever they do among
  themselves: reputation enters only from outside.\<close>

lemma sybils_stay_at_zero:
  assumes "ok s" "\<forall>z\<in>Z. bps (rep s z) = 0" "\<forall>a\<in>set ops. closed_op Z a"
  shows "\<forall>z\<in>Z. bps (rep (run ops s) z) = 0"
  using assms unfolding run_def
proof (induction ops arbitrary: s)
  case (Cons a ops)
  then have "ok (run_op s a)" using run_ok [of s "[a]"] by (simp add: run_def)
  then show ?case using Cons closed_step [of s Z a] by simp
qed simp

text \<open>No identity ever has more than the largest reputation granted or earned.\<close>

lemma run_range: "ok s \<Longrightarrow> bps (rep (run ops s) x) \<le> 10000"
  using run_ok rep_range by blast

lemma weighted_evidence_bound:
  "ok s \<Longrightarrow> \<bar>lo_val (weight_evidence (rep s x) e)\<bar> \<le> \<bar>lo_val e\<bar>"
  using rep_range by (rule abs_weight_evidence_le)

end

section \<open>The in-memory tracker keeps the trait\<close>

definition tracker_valid :: "InMemoryReputationTracker \<Rightarrow> bool" where
  "tracker_valid t \<longleftrightarrow> (\<forall>x r. scores t x = Some r \<longrightarrow> valid_rep r)"

lemma reputation_valid: "tracker_valid t \<Longrightarrow> valid_rep (reputation t x)"
  by (auto simp: tracker_valid_def reputation_def rep_ZERO_def split: option.split)

lemma tracker_valid_update [simp]: "tracker_valid t \<Longrightarrow> tracker_valid (update_reputation t x e)"
  by (simp add: tracker_valid_def update_reputation_def)

lemma tracker_valid_delegate [simp]: "tracker_valid t \<Longrightarrow> tracker_valid (delegate t x y r)"
  by (simp add: tracker_valid_def delegate_def Let_def)

lemma bps_from_bps: "bps (from_bps b) = min b 10000"
  by (simp add: from_bps_def)

lemma usub_sat_le: "usub_sat a b \<le> a"
  by (auto simp: usub_sat_def word_le_nat_alt word_less_nat_alt unat_sub_if')

lemma reputation_delegate:
  assumes "bps (reputation t x) \<noteq> 0"
  shows "reputation (delegate t x y r) z =
    (let capped = min (min (bps r) (bps (reputation t x))) 10000
     in if z = x then from_bps (usub_sat (bps (reputation t x)) (capped div 2))
        else if z = y then from_bps (min (bps r) (bps (reputation t x)))
        else reputation t z)"
  using assms by (simp add: delegate_def Let_def reputation_def bps_from_bps split: option.splits)

lemma delegate_other:
  "z \<noteq> x \<Longrightarrow> z \<noteq> y \<Longrightarrow> reputation (delegate t x y r) z = reputation t z"
  by (cases "bps (reputation t x) = 0") (simp_all add: reputation_delegate Let_def, simp add: delegate_def)

interpretation tracker: reputation_tracker reputation update_reputation delegate tracker_valid
proof
  fix t x y r
  show "bps (reputation (delegate t x y r) x) \<le> bps (reputation t x)"
  proof (cases "bps (reputation t x) = 0")
    case True
    then show ?thesis by (simp add: delegate_def)
  next
    case False
    have "min (usub_sat (bps (reputation t x)) c) 10000 \<le> bps (reputation t x)" for c
      by (rule min.coboundedI1) (rule usub_sat_le)
    then show ?thesis using False by (simp add: reputation_delegate bps_from_bps Let_def)
  qed
next
  fix t x
  show "bps (reputation (update_reputation t x ClaimContradicted) x) \<le> bps (reputation t x)"
    using usub_sat_le [of "bps (reputation t x)" 1000]
    by (simp add: update_reputation_def reputation_def event_score_def bps_from_bps min.coboundedI1)
next
  fix t x y r
  assume "y \<noteq> x" "bps (reputation t x) \<noteq> 0"
  then show "bps (reputation (delegate t x y r) y) \<le> bps (reputation t x)"
    by (simp add: reputation_delegate bps_from_bps Let_def min.coboundedI1 min.coboundedI2)
next
  fix t x and y :: bytes and e
  assume "y \<noteq> x"
  then show "reputation (update_reputation t x e) y = reputation t y"
    by (simp add: update_reputation_def reputation_def)
qed (simp_all add: reputation_valid delegate_other,
    simp_all add: update_reputation_def reputation_def event_score_def bps_from_bps delegate_def)

section \<open>Properties\<close>

text \<open>
  C4: Identities without reputation cannot lift themselves: starting from a tracker in which none
  of them is known, no history of events and delegations in which they earn no reward and receive
  delegations only from each other gives any of them reputation, so their evidence stays neutral.
\<close>

theorem sybils_carry_no_weight:
  assumes "tracker_valid t" "\<forall>z\<in>Z. scores t z = None" "\<forall>a\<in>set ops. tracker.closed_op Z a" "z \<in> Z"
  shows "weight_evidence (reputation (tracker.run ops t) z) e = NEUTRAL"
proof -
  have "\<forall>z\<in>Z. bps (reputation t z) = 0"
    using assms(2) by (simp add: reputation_def rep_ZERO_def)
  then have "bps (reputation (tracker.run ops t) z) = 0"
    using tracker.sybils_stay_at_zero [of t Z ops] assms by blast
  then show ?thesis by (rule weight_evidence_zero)
qed

theorem sybils_carry_no_weight_witness:
  "weight_evidence (reputation (tracker.run [Delegation [1] [2] rep_FULL, Event [1] ClaimContradicted,
      Delegation [9] [8] rep_FULL] (set_reputation tracker_new [9] rep_FULL)) [2]) VERY_HIGH = NEUTRAL"
  by (rule sybils_carry_no_weight [where Z = "{[1], [2]}"])
    (auto simp: tracker_valid_def set_reputation_def tracker_new_def rep_FULL_def)

text \<open>
  C21: Every reputation of a tracker that starts with basis points stays in basis points through
  any history, and an identity caught in equivocation is at zero and can delegate nothing.
\<close>

theorem reputation_bounded:
  assumes "tracker_valid t"
  shows "bps (reputation (tracker.run ops t) x) \<le> 10000
    \<and> bps (reputation (update_reputation t y EquivocationDetected) y) = 0
    \<and> delegate (update_reputation t y EquivocationDetected) y z r = update_reputation t y EquivocationDetected"
  using assms tracker.run_range tracker.equivocator tracker.del_gate tracker.upd_ok by blast

theorem reputation_bounded_witness:
  "bps (reputation (tracker.run [Event [1] ClaimConfirmed] (set_reputation tracker_new [1] rep_FULL)) [1]) \<le> 10000"
  using reputation_bounded [of "set_reputation tracker_new [1] rep_FULL"]
  by (simp add: tracker_valid_def set_reputation_def tracker_new_def rep_FULL_def)

primrec delegation_chain :: "InMemoryReputationTracker \<Rightarrow> bytes list \<Rightarrow> InMemoryReputationTracker" where
  "delegation_chain t [] = t"
| "delegation_chain t (x # xs) =
     (case xs of [] \<Rightarrow> t | y # _ \<Rightarrow> delegation_chain (delegate t x y rep_FULL) xs)"

lemma chain_step:
  assumes "reputation t x = rep_FULL" "x \<noteq> y"
  shows "reputation (delegate t x y rep_FULL) z =
    (if z = x then Reputation 5000 else if z = y then rep_FULL else reputation t z)"
  using assms by (simp add: reputation_delegate Let_def rep_FULL_def from_bps_def usub_sat_def)

lemma delegation_chain_other:
  "z \<notin> set xs \<Longrightarrow> reputation (delegation_chain t xs) z = reputation t z"
proof (induction xs arbitrary: t)
  case (Cons x xs)
  then show ?case by (cases xs) (simp_all add: delegate_other)
qed simp

text \<open>
  Delegation is not bounded by twice the anchor's reputation: along a chain in which each new
  identity delegates all it received to the next one, every identity passed keeps half of the
  anchor's reputation, however long the chain is.
\<close>

theorem delegation_chain_unbounded:
  assumes "distinct xs" "xs \<noteq> []" "reputation t (hd xs) = rep_FULL" "x \<in> set (butlast xs)"
  shows "reputation (delegation_chain t xs) x = Reputation 5000"
  using assms
proof (induction xs arbitrary: t)
  case Nil
  then show ?case by simp
next
  case (Cons a xs)
  then obtain b ys where xs: "xs = b # ys" by (cases xs) auto
  have s: "reputation (delegate t a b rep_FULL) z =
      (if z = a then Reputation 5000 else if z = b then rep_FULL else reputation t z)" for z
    using Cons.prems xs by (intro chain_step) auto
  show ?case
  proof (cases "x = a")
    case True
    then show ?thesis
      using Cons.prems(1) s [of a] delegation_chain_other [of a xs "delegate t a b rep_FULL"]
      by (simp add: xs)
  next
    case False
    moreover have "delegation_chain t (a # xs) = delegation_chain (delegate t a b rep_FULL) xs"
      by (simp add: xs)
    moreover have "x \<in> set (butlast xs)" "reputation (delegate t a b rep_FULL) (hd xs) = rep_FULL"
      using False Cons.prems s [of b] by (auto simp: xs)
    ultimately show ?thesis
      using Cons.IH [of "delegate t a b rep_FULL"] Cons.prems(1) xs by simp
  qed
qed

theorem delegation_chain_unbounded_witness:
  "reputation (delegation_chain (set_reputation tracker_new [0] rep_FULL) [[0], [1], [2], [3], [4]]) [3]
     = Reputation 5000"
  by (rule delegation_chain_unbounded) (simp_all add: set_reputation_def tracker_new_def reputation_def)

text \<open>
  An unknown identity gains reputation without any delegation: one event of active
  participation lifts it from nothing to 50 basis points, from which it may delegate.
\<close>

theorem participation_without_delegation:
  "bps (reputation (update_reputation tracker_new x ActiveParticipation) x) = 50"
  by (simp add: update_reputation_def tracker_new_def reputation_def event_score_def u16_sat_add_def
      rep_ZERO_def bps_from_bps min_def)

end
