(* ===== verification/Cycles.thy ===== *)
theory Cycles
  imports Knowledge_Graph
begin

text \<open>
  Cycle detection in the knowledge graph (\<open>aimp_node/src/epistemic.rs\<close>, lines 1155-1295): the
  depth-first searches \<open>detect_cycles\<close> and \<open>cyclic_edge_indices\<close>, with their mutable sets of visited
  nodes and of nodes on the stack. The lemmas show that the marked edges are exactly a set of edges
  that close real cycles and without which the support graph is acyclic, which is what the trust
  propagation needs to converge.
\<close>

section \<open>The code\<close>

text \<open>Outgoing edges in the order of their targets (\<open>sort_unstable_by_key\<close> leaves the order of equal
  targets open; here it is the order of insertion).\<close>

definition sorted_indices :: "KnowledgeGraph \<Rightarrow> ClaimArenaId \<Rightarrow> nat list" where
  "sorted_indices g node =
     sort_key (\<lambda>idx. edge_to (kg_edges g ! idx)) (or_default (adjacency g node))"

definition all_nodes :: "KnowledgeGraph \<Rightarrow> ClaimArenaId list" where
  "all_nodes g = remdups_adj (sort (concat (map (\<lambda>e. [edge_from e, edge_to e]) (kg_edges g))))"

record dfs_state =
  visited :: "ClaimArenaId set"
  on_stack :: "ClaimArenaId set"
  cyclic :: "nat set"

definition enter :: "ClaimArenaId \<Rightarrow> dfs_state \<Rightarrow> dfs_state" where
  "enter node s = s\<lparr>visited := insert node (visited s), on_stack := insert node (on_stack s)\<rparr>"

definition leave :: "ClaimArenaId \<Rightarrow> dfs_state \<Rightarrow> dfs_state" where
  "leave node s = s\<lparr>on_stack := on_stack s - {node}\<rparr>"

text \<open>\<open>dfs_mark_cyclic\<close> and the loop over the outgoing edges in its body.\<close>

function (sequential)
  dfs_mark_cyclic :: "KnowledgeGraph \<Rightarrow> ClaimArenaId \<Rightarrow> dfs_state \<Rightarrow> dfs_state"
  and dfs_mark_edges :: "KnowledgeGraph \<Rightarrow> nat list \<Rightarrow> dfs_state \<Rightarrow> dfs_state"
where
  "dfs_mark_cyclic g node s = leave node (dfs_mark_edges g (sorted_indices g node) (enter node s))"
| "dfs_mark_edges g [] s = s"
| "dfs_mark_edges g (idx # idxs) s =
     (let edge = kg_edges g ! idx
      in if \<not> supportive edge then dfs_mark_edges g idxs s
         else if edge_to edge \<in> on_stack s then dfs_mark_edges g idxs (s\<lparr>cyclic := insert idx (cyclic s)\<rparr>)
         else if edge_to edge \<notin> visited s
         then dfs_mark_edges g idxs (dfs_mark_cyclic g (edge_to edge) s)
         else dfs_mark_edges g idxs s)"
  by pat_completeness auto

lemma visited_enter [simp]: "visited (enter node s) = insert node (visited s)"
  and on_stack_enter [simp]: "on_stack (enter node s) = insert node (on_stack s)"
  and cyclic_enter [simp]: "cyclic (enter node s) = cyclic s"
  and visited_leave [simp]: "visited (leave node s) = visited s"
  and on_stack_leave [simp]: "on_stack (leave node s) = on_stack s - {node}"
  and cyclic_leave [simp]: "cyclic (leave node s) = cyclic s"
  by (simp_all add: enter_def leave_def)

text \<open>The search only adds to the visited nodes, so it ends.\<close>

lemma dfs_mark_visited:
  "dfs_mark_cyclic_dfs_mark_edges_dom (Inl (g, node, s)) \<Longrightarrow> visited s \<subseteq> visited (dfs_mark_cyclic g node s)"
  "dfs_mark_cyclic_dfs_mark_edges_dom (Inr (g, idxs, s)) \<Longrightarrow> visited s \<subseteq> visited (dfs_mark_edges g idxs s)"
proof (induction g node s and g idxs s rule: dfs_mark_cyclic_dfs_mark_edges.pinduct)
  case (1 g node s)
  then show ?case by (auto simp: dfs_mark_cyclic.psimps)
next
  case (2 g s)
  then show ?case by (simp add: dfs_mark_edges.psimps)
next
  case (3 g idx idxs s)
  then show ?case
    by (auto simp: dfs_mark_edges.psimps(2) Let_def)
qed

termination dfs_mark_cyclic
  by (relation "inv_image (less_than <*lex*> less_than <*lex*> less_than)
      (\<lambda>x. case x of Inl (g, node, s) \<Rightarrow> (card (- insert node (visited s)), 1, 0)
        | Inr (g, idxs, s) \<Rightarrow> (card (- visited s), 0, length idxs))")
    (auto intro!: psubset_card_mono dest!: dfs_mark_visited(1) simp: card_mono le_neq_trans)

declare dfs_mark_cyclic.simps [simp del]

definition cyclic_edge_indices :: "KnowledgeGraph \<Rightarrow> nat set" where
  "cyclic_edge_indices g =
     cyclic (foldl (\<lambda>s start. if start \<notin> visited s then dfs_mark_cyclic g start s else s)
       \<lparr>visited = {}, on_stack = {}, cyclic = {}\<rparr> (all_nodes g))"

section \<open>What the search maintains\<close>

definition finished :: "dfs_state \<Rightarrow> ClaimArenaId set" where
  "finished s = visited s - on_stack s"

text \<open>The support edges that are not in \<open>C\<close> and leave a node of \<open>F\<close>.\<close>

definition kept_rel :: "EpistemicEdge list \<Rightarrow> nat set \<Rightarrow> ClaimArenaId set \<Rightarrow> (ClaimArenaId \<times> ClaimArenaId) set" where
  "kept_rel es C F = {(edge_from (es ! i), edge_to (es ! i)) | i.
     i < length es \<and> supportive (es ! i) \<and> i \<notin> C \<and> edge_from (es ! i) \<in> F}"

text \<open>An edge on a cycle: its target leads back to its source.\<close>

definition closes_cycle :: "EpistemicEdge list \<Rightarrow> nat \<Rightarrow> bool" where
  "closes_cycle es i \<longleftrightarrow> i < length es \<and> supportive (es ! i) \<and>
     (edge_to (es ! i), edge_from (es ! i)) \<in> (support_rel es)\<^sup>*"

definition dfs_inv :: "EpistemicEdge list \<Rightarrow> dfs_state \<Rightarrow> bool" where
  "dfs_inv es s \<longleftrightarrow> on_stack s \<subseteq> visited s
     \<and> acyclic (kept_rel es (cyclic s) (finished s))
     \<and> snd ` kept_rel es (cyclic s) (finished s) \<subseteq> finished s
     \<and> (\<forall>i\<in>cyclic s. closes_cycle es i)"

text \<open>What a part of the search leaves behind.\<close>

definition grown :: "dfs_state \<Rightarrow> dfs_state \<Rightarrow> bool" where
  "grown s s' \<longleftrightarrow> visited s \<subseteq> visited s' \<and> on_stack s' = on_stack s \<and> cyclic s \<subseteq> cyclic s'"

lemma grown_refl [simp]: "grown s s"
  by (simp add: grown_def)

lemma grown_trans: "grown s s' \<Longrightarrow> grown s' s'' \<Longrightarrow> grown s s''"
  by (auto simp: grown_def)

lemma grown_finished: "grown s s' \<Longrightarrow> finished s \<subseteq> finished s'"
  by (auto simp: grown_def finished_def)

lemma kept_rel_mono: "C \<subseteq> C' \<Longrightarrow> kept_rel es C' F \<subseteq> kept_rel es C F"
  by (auto simp: kept_rel_def)

lemma dfs_inv_mark:
  assumes "dfs_inv es s" "closes_cycle es idx"
  shows "dfs_inv es (s\<lparr>cyclic := insert idx (cyclic s)\<rparr>)"
proof -
  have sub: "kept_rel es (insert idx (cyclic s)) (finished s) \<subseteq> kept_rel es (cyclic s) (finished s)"
    by (rule kept_rel_mono) auto
  moreover have "acyclic (kept_rel es (cyclic s) (finished s))" using assms by (simp add: dfs_inv_def)
  ultimately have "acyclic (kept_rel es (insert idx (cyclic s)) (finished s))"
    by (rule acyclic_subset [rotated])
  then show ?thesis using assms sub by (auto simp: dfs_inv_def finished_def)
qed

lemma acyclic_add_source:
  assumes "acyclic r" "n \<notin> Range r" "n \<notin> X" "r' \<subseteq> r \<union> {n} \<times> X"
  shows "acyclic r'"
proof -
  have key: "y \<noteq> n \<and> (x \<noteq> n \<longrightarrow> (x, y) \<in> r\<^sup>+)" if "(x, y) \<in> r'\<^sup>+" for x y
    using that
  proof (induction rule: trancl_induct)
    case (base y)
    then show ?case using assms by auto
  next
    case (step y z)
    then have "(y, z) \<in> r" using assms by auto
    then show ?case using step assms(2) by (auto intro: trancl_into_trancl)
  qed
  then show ?thesis using assms(1) unfolding acyclic_def by blast
qed

lemma dfs_inv_enter:
  assumes "dfs_inv es s" "node \<notin> visited s"
  shows "dfs_inv es (enter node s)"
proof -
  have "finished (enter node s) = finished s" using assms(2) by (auto simp: finished_def)
  then show ?thesis using assms by (auto simp: dfs_inv_def)
qed

lemma dfs_inv_leave:
  assumes inv: "dfs_inv es s" and node: "node \<in> on_stack s"
    and edges: "\<forall>i<length es. supportive (es ! i) \<longrightarrow> edge_from (es ! i) = node \<longrightarrow>
      i \<in> cyclic s \<or> edge_to (es ! i) \<in> finished s"
  shows "dfs_inv es (leave node s)"
proof -
  have fin: "finished (leave node s) = insert node (finished s)" "node \<notin> finished s"
    using inv node by (auto simp: finished_def dfs_inv_def)
  have kept: "kept_rel es (cyclic s) (insert node (finished s))
      \<subseteq> kept_rel es (cyclic s) (finished s) \<union> {node} \<times> finished s"
    using edges by (auto simp: kept_rel_def)
  have range: "snd ` kept_rel es (cyclic s) (finished s) \<subseteq> finished s"
    using inv by (simp add: dfs_inv_def)
  then have "node \<notin> Range (kept_rel es (cyclic s) (finished s))" using fin(2) by force
  then have "acyclic (kept_rel es (cyclic s) (insert node (finished s)))"
    using inv fin(2) kept by (intro acyclic_add_source [OF _ _ _ kept]) (auto simp: dfs_inv_def)
  moreover have "snd ` kept_rel es (cyclic s) (insert node (finished s)) \<subseteq> insert node (finished s)"
    using kept range by force
  ultimately show ?thesis using inv by (auto simp: dfs_inv_def fin(1))
qed

text \<open>The node whose edges are scanned can be reached from every node on the stack.\<close>

definition stack_leads :: "EpistemicEdge list \<Rightarrow> dfs_state \<Rightarrow> ClaimArenaId \<Rightarrow> bool" where
  "stack_leads es s x \<longleftrightarrow> on_stack s \<subseteq> ((support_rel es)\<^sup>*)\<inverse> `` {x}"

lemma support_edge: "i < length es \<Longrightarrow> supportive (es ! i) \<Longrightarrow>
    (edge_from (es ! i), edge_to (es ! i)) \<in> support_rel es"
  by (auto simp: support_rel_def)

lemma set_sorted_indices:
  "kg_valid g \<Longrightarrow> i \<in> set (sorted_indices g x) \<longleftrightarrow> i < length (kg_edges g) \<and> edge_from (kg_edges g ! i) = x"
  by (simp add: sorted_indices_def kg.adj_iff)

lemma dfs_mark_inv:
  "kg_valid g \<Longrightarrow> dfs_inv (kg_edges g) s \<Longrightarrow> node \<notin> visited s \<Longrightarrow> stack_leads (kg_edges g) s node \<Longrightarrow>
     dfs_inv (kg_edges g) (dfs_mark_cyclic g node s) \<and> grown s (dfs_mark_cyclic g node s)
     \<and> node \<in> visited (dfs_mark_cyclic g node s)"
  "kg_valid g \<Longrightarrow> dfs_inv (kg_edges g) s \<Longrightarrow> set idxs \<subseteq> set (sorted_indices g x) \<Longrightarrow> x \<in> on_stack s \<Longrightarrow>
     stack_leads (kg_edges g) s x \<Longrightarrow>
     dfs_inv (kg_edges g) (dfs_mark_edges g idxs s) \<and> grown s (dfs_mark_edges g idxs s)
     \<and> (\<forall>i\<in>set idxs. supportive (kg_edges g ! i) \<longrightarrow> i \<in> cyclic (dfs_mark_edges g idxs s)
          \<or> edge_to (kg_edges g ! i) \<in> finished (dfs_mark_edges g idxs s))"
proof (induction g node s and g idxs s arbitrary: and x rule: dfs_mark_cyclic_dfs_mark_edges.induct)
  case (1 g node s)
  let ?s = "dfs_mark_edges g (sorted_indices g node) (enter node s)"
  have leads: "stack_leads (kg_edges g) (enter node s) node"
    using 1 by (auto simp: stack_leads_def)
  have IH: "dfs_inv (kg_edges g) ?s" "grown (enter node s) ?s"
    "\<forall>i\<in>set (sorted_indices g node). supportive (kg_edges g ! i) \<longrightarrow> i \<in> cyclic ?s
          \<or> edge_to (kg_edges g ! i) \<in> finished ?s"
    using 1(1) [of node] 1(2,3) leads dfs_inv_enter [OF 1(3,4)] by simp_all
  have n: "node \<notin> on_stack s" using 1 by (auto simp: dfs_inv_def)
  have "dfs_inv (kg_edges g) (leave node ?s)"
    using IH 1 by (intro dfs_inv_leave) (auto simp: grown_def set_sorted_indices)
  moreover have "grown s (leave node ?s)" "node \<in> visited ?s"
    using IH(2) n by (auto simp: grown_def)
  ultimately show ?case by (simp add: dfs_mark_cyclic.simps)
next
  case (2 g s)
  then show ?case by simp
next
  case (3 g idx idxs s)
  let ?e = "kg_edges g ! idx"
  have idx: "idx < length (kg_edges g)" "edge_from ?e = x"
    using 3 by (auto simp: set_sorted_indices)
  have rest: "set idxs \<subseteq> set (sorted_indices g x)" using 3 by simp
  show ?case
  proof (cases "supportive ?e")
    case False
    then show ?thesis using "3.IH"(1) [OF refl _ "3.prems"(1,2) rest "3.prems"(4,5)] by simp
  next
    case sup: True
    show ?thesis
    proof (cases "edge_to ?e \<in> on_stack s")
      case True
      let ?s = "s\<lparr>cyclic := insert idx (cyclic s)\<rparr>"
      have "closes_cycle (kg_edges g) idx"
        using "3.prems"(5) True idx sup by (auto simp: closes_cycle_def stack_leads_def)
      then have "dfs_inv (kg_edges g) ?s"
        using "3.prems"(2) by (intro dfs_inv_mark)
      then have IH: "dfs_inv (kg_edges g) (dfs_mark_edges g idxs ?s)" "grown ?s (dfs_mark_edges g idxs ?s)"
        "\<forall>i\<in>set idxs. supportive (kg_edges g ! i) \<longrightarrow> i \<in> cyclic (dfs_mark_edges g idxs ?s)
          \<or> edge_to (kg_edges g ! i) \<in> finished (dfs_mark_edges g idxs ?s)"
        using "3.IH"(2) [OF refl _ True "3.prems"(1) _ rest] "3.prems"(4,5) sup
        by (simp_all add: stack_leads_def)
      then have "grown s (dfs_mark_edges g idxs ?s)" "idx \<in> cyclic (dfs_mark_edges g idxs ?s)"
        by (auto simp: grown_def)
      then show ?thesis using IH sup True by simp
    next
      case nst: False
      show ?thesis
      proof (cases "edge_to ?e \<in> visited s")
        case True
        have IH: "dfs_inv (kg_edges g) (dfs_mark_edges g idxs s)" "grown s (dfs_mark_edges g idxs s)"
          "\<forall>i\<in>set idxs. supportive (kg_edges g ! i) \<longrightarrow> i \<in> cyclic (dfs_mark_edges g idxs s)
            \<or> edge_to (kg_edges g ! i) \<in> finished (dfs_mark_edges g idxs s)"
          using "3.IH"(5) [OF refl _ nst _ "3.prems"(1,2) rest "3.prems"(4,5)] sup True by simp_all
        have "edge_to ?e \<in> finished s" using True nst by (simp add: finished_def)
        then have "edge_to ?e \<in> finished (dfs_mark_edges g idxs s)"
          using grown_finished [OF IH(2)] by blast
        then show ?thesis using IH sup nst True by simp
      next
        case False
        let ?s = "dfs_mark_cyclic g (edge_to ?e) s"
        have "stack_leads (kg_edges g) s (edge_to ?e)"
          using "3.prems"(5) support_edge [OF idx(1) sup] idx(2)
          by (auto simp: stack_leads_def intro: rtrancl_into_rtrancl)
        then have m: "dfs_inv (kg_edges g) ?s" "grown s ?s" "edge_to ?e \<in> visited ?s"
          using "3.IH"(3) [OF refl _ nst False "3.prems"(1,2) False] sup by simp_all
        have IH: "dfs_inv (kg_edges g) (dfs_mark_edges g idxs ?s)" "grown ?s (dfs_mark_edges g idxs ?s)"
          "\<forall>i\<in>set idxs. supportive (kg_edges g ! i) \<longrightarrow> i \<in> cyclic (dfs_mark_edges g idxs ?s)
            \<or> edge_to (kg_edges g ! i) \<in> finished (dfs_mark_edges g idxs ?s)"
          using "3.IH"(4) [OF refl _ nst False "3.prems"(1) m(1) rest] "3.prems"(4,5) sup m(2)
          by (simp_all add: grown_def stack_leads_def)
        have "edge_to ?e \<in> finished ?s" using m nst by (simp add: finished_def grown_def)
        then have "edge_to ?e \<in> finished (dfs_mark_edges g idxs ?s)"
          using grown_finished [OF IH(2)] by blast
        then show ?thesis using IH sup nst False grown_trans [OF m(2) IH(2)] by simp
      qed
    qed
  qed
qed

section \<open>The whole search\<close>

lemma set_all_nodes: "set (all_nodes g) = edge_from ` set (kg_edges g) \<union> edge_to ` set (kg_edges g)"
  by (auto simp: all_nodes_def)

lemma cyclic_search:
  assumes "kg_valid g"
  shows "\<exists>s. cyclic_edge_indices g = cyclic s \<and> dfs_inv (kg_edges g) s \<and> on_stack s = {}
    \<and> set (all_nodes g) \<subseteq> visited s"
proof -
  let ?step = "\<lambda>s start. if start \<notin> visited s then dfs_mark_cyclic g start s else s"
  let ?s0 = "\<lparr>visited = {}, on_stack = {}, cyclic = {}\<rparr>"
  have "dfs_inv (kg_edges g) (foldl ?step ?s0 ns) \<and> on_stack (foldl ?step ?s0 ns) = {}
      \<and> set ns \<subseteq> visited (foldl ?step ?s0 ns)" for ns
  proof (induction ns rule: rev_induct)
    case Nil
    then show ?case by (simp add: dfs_inv_def finished_def kept_rel_def acyclic_def)
  next
    case (snoc n ns)
    let ?s = "foldl ?step ?s0 ns"
    show ?case
    proof (cases "n \<in> visited ?s")
      case True
      then show ?thesis using snoc by simp
    next
      case False
      have "stack_leads (kg_edges g) ?s n" using snoc by (simp add: stack_leads_def)
      then have "dfs_inv (kg_edges g) (dfs_mark_cyclic g n ?s)" "grown ?s (dfs_mark_cyclic g n ?s)"
        "n \<in> visited (dfs_mark_cyclic g n ?s)"
        using dfs_mark_inv(1) [OF assms _ False] snoc by blast+
      then show ?thesis using snoc False by (auto simp: grown_def)
    qed
  qed
  then show ?thesis unfolding cyclic_edge_indices_def by blast
qed

text \<open>The support relation without the marked edges.\<close>

definition acyclic_part :: "KnowledgeGraph \<Rightarrow> (ClaimArenaId \<times> ClaimArenaId) set" where
  "acyclic_part g = kept_rel (kg_edges g) (cyclic_edge_indices g) UNIV"

lemma cyclic_edge_indices_sound:
  "kg_valid g \<Longrightarrow> i \<in> cyclic_edge_indices g \<Longrightarrow> closes_cycle (kg_edges g) i"
  using cyclic_search [of g] by (auto simp: dfs_inv_def)

lemma acyclic_part: "kg_valid g \<Longrightarrow> acyclic (acyclic_part g)"
proof -
  assume "kg_valid g"
  then obtain s where s: "cyclic_edge_indices g = cyclic s" "dfs_inv (kg_edges g) s" "on_stack s = {}"
    "set (all_nodes g) \<subseteq> visited s"
    using cyclic_search by blast
  have "acyclic_part g \<subseteq> kept_rel (kg_edges g) (cyclic s) (finished s)"
    using s by (force simp: acyclic_part_def kept_rel_def finished_def set_all_nodes)
  moreover have "acyclic (kept_rel (kg_edges g) (cyclic s) (finished s))"
    using s by (simp add: dfs_inv_def)
  ultimately show ?thesis by (rule acyclic_subset [rotated])
qed

lemma cyclic_empty_iff:
  assumes "kg_valid g"
  shows "cyclic_edge_indices g = {} \<longleftrightarrow> acyclic (support_rel (kg_edges g))"
proof
  assume "cyclic_edge_indices g = {}"
  then have "acyclic_part g = support_rel (kg_edges g)"
    by (auto simp: acyclic_part_def kept_rel_def support_rel_def in_set_conv_nth)
  then show "acyclic (support_rel (kg_edges g))" using acyclic_part [OF assms] by simp
next
  assume ac: "acyclic (support_rel (kg_edges g))"
  have "False" if "i \<in> cyclic_edge_indices g" for i
  proof -
    have i: "closes_cycle (kg_edges g) i" using cyclic_edge_indices_sound [OF assms that] .
    then have "(edge_from (kg_edges g ! i), edge_from (kg_edges g ! i)) \<in> (support_rel (kg_edges g))\<^sup>+"
      using support_edge [of i "kg_edges g"] by (auto simp: closes_cycle_def intro: rtrancl_into_trancl2)
    then show False using ac by (simp add: acyclic_def)
  qed
  then show "cyclic_edge_indices g = {}" by blast
qed

section \<open>Reporting the cycles\<close>

record cycle_state =
  cs_visited :: "ClaimArenaId set"
  cs_on_stack :: "ClaimArenaId set"
  cs_path :: "ClaimArenaId list"
  cs_cycles :: "ClaimArenaId list list"

definition cs_enter :: "ClaimArenaId \<Rightarrow> cycle_state \<Rightarrow> cycle_state" where
  "cs_enter node s = s\<lparr>cs_visited := insert node (cs_visited s),
     cs_on_stack := insert node (cs_on_stack s), cs_path := cs_path s @ [node]\<rparr>"

definition cs_leave :: "ClaimArenaId \<Rightarrow> cycle_state \<Rightarrow> cycle_state" where
  "cs_leave node s = s\<lparr>cs_path := butlast (cs_path s), cs_on_stack := cs_on_stack s - {node}\<rparr>"

text \<open>\<open>path[pos..]\<close> from the first occurrence of the node, if it occurs.\<close>

definition report :: "ClaimArenaId \<Rightarrow> cycle_state \<Rightarrow> cycle_state" where
  "report next s =
     (if next \<in> set (cs_path s)
      then s\<lparr>cs_cycles := cs_cycles s @ [dropWhile (\<lambda>n. n \<noteq> next) (cs_path s)]\<rparr> else s)"

function (sequential)
  dfs_cycles :: "KnowledgeGraph \<Rightarrow> ClaimArenaId \<Rightarrow> cycle_state \<Rightarrow> cycle_state"
  and dfs_cycles_edges :: "KnowledgeGraph \<Rightarrow> nat list \<Rightarrow> cycle_state \<Rightarrow> cycle_state"
where
  "dfs_cycles g node s = cs_leave node (dfs_cycles_edges g (sorted_indices g node) (cs_enter node s))"
| "dfs_cycles_edges g [] s = s"
| "dfs_cycles_edges g (idx # idxs) s =
     (let edge = kg_edges g ! idx
      in if \<not> supportive edge then dfs_cycles_edges g idxs s
         else if edge_to edge \<in> cs_on_stack s then dfs_cycles_edges g idxs (report (edge_to edge) s)
         else if edge_to edge \<notin> cs_visited s
         then dfs_cycles_edges g idxs (dfs_cycles g (edge_to edge) s)
         else dfs_cycles_edges g idxs s)"
  by pat_completeness auto

lemma cs_simps [simp]:
  "cs_visited (cs_enter node s) = insert node (cs_visited s)"
  "cs_on_stack (cs_enter node s) = insert node (cs_on_stack s)"
  "cs_path (cs_enter node s) = cs_path s @ [node]"
  "cs_cycles (cs_enter node s) = cs_cycles s"
  "cs_visited (cs_leave node s) = cs_visited s"
  "cs_on_stack (cs_leave node s) = cs_on_stack s - {node}"
  "cs_path (cs_leave node s) = butlast (cs_path s)"
  "cs_cycles (cs_leave node s) = cs_cycles s"
  "cs_visited (report n s) = cs_visited s"
  "cs_on_stack (report n s) = cs_on_stack s"
  "cs_path (report n s) = cs_path s"
  by (simp_all add: cs_enter_def cs_leave_def report_def)

lemma dfs_cycles_visited:
  "dfs_cycles_dfs_cycles_edges_dom (Inl (g, node, s)) \<Longrightarrow> cs_visited s \<subseteq> cs_visited (dfs_cycles g node s)"
  "dfs_cycles_dfs_cycles_edges_dom (Inr (g, idxs, s)) \<Longrightarrow> cs_visited s \<subseteq> cs_visited (dfs_cycles_edges g idxs s)"
proof (induction g node s and g idxs s rule: dfs_cycles_dfs_cycles_edges.pinduct)
  case (1 g node s)
  then show ?case by (auto simp: dfs_cycles.psimps)
next
  case (2 g s)
  then show ?case by (simp add: dfs_cycles_edges.psimps)
next
  case (3 g idx idxs s)
  then show ?case
    by (auto simp: dfs_cycles_edges.psimps(2) Let_def)
qed

termination dfs_cycles
  by (relation "inv_image (less_than <*lex*> less_than <*lex*> less_than)
      (\<lambda>x. case x of Inl (g, node, s) \<Rightarrow> (card (- insert node (cs_visited s)), 1, 0)
        | Inr (g, idxs, s) \<Rightarrow> (card (- cs_visited s), 0, length idxs))")
    (auto intro!: psubset_card_mono dest!: dfs_cycles_visited(1) simp: card_mono le_neq_trans)

declare dfs_cycles.simps [simp del]

definition detect_cycles :: "KnowledgeGraph \<Rightarrow> ClaimArenaId list list" where
  "detect_cycles g =
     cs_cycles (foldl (\<lambda>s start. if start \<notin> cs_visited s then dfs_cycles g start s else s)
       \<lparr>cs_visited = {}, cs_on_stack = {}, cs_path = [], cs_cycles = []\<rparr> (all_nodes g))"

text \<open>A cycle: a path along support edges whose last node supports its first.\<close>

definition is_cycle :: "EpistemicEdge list \<Rightarrow> ClaimArenaId list \<Rightarrow> bool" where
  "is_cycle es c \<longleftrightarrow> c \<noteq> [] \<and> successively (\<lambda>a b. (a, b) \<in> support_rel es) c
     \<and> (last c, hd c) \<in> support_rel es"

text \<open>The two searches walk in step: the state of the one that reports against the state of the
  one that marks.\<close>

definition in_step :: "EpistemicEdge list \<Rightarrow> cycle_state \<Rightarrow> dfs_state \<Rightarrow> bool" where
  "in_step es t s \<longleftrightarrow> cs_visited t = visited s \<and> cs_on_stack t = on_stack s
     \<and> set (cs_path t) = on_stack s \<and> (cs_cycles t = [] \<longleftrightarrow> cyclic s = {})
     \<and> successively (\<lambda>a b. (a, b) \<in> support_rel es) (cs_path t)
     \<and> (\<forall>c\<in>set (cs_cycles t). is_cycle es c) \<and> on_stack s \<subseteq> visited s"

lemma in_step_enter:
  assumes "in_step es t s" "cs_path t = [] \<or> (last (cs_path t), node) \<in> support_rel es"
  shows "in_step es (cs_enter node t) (enter node s)"
  using assms by (auto simp: in_step_def successively_append_iff)

lemma report_cycle:
  assumes "in_step es t s" "n \<in> on_stack s" "(last (cs_path t), n) \<in> support_rel es"
  shows "in_step es (report n t) (s\<lparr>cyclic := insert idx (cyclic s)\<rparr>)"
proof -
  let ?c = "dropWhile (\<lambda>m. m \<noteq> n) (cs_path t)"
  have n: "n \<in> set (cs_path t)" using assms by (simp add: in_step_def)
  then have ne: "?c \<noteq> []" by auto
  then have hd: "hd ?c = n" using hd_dropWhile [of "\<lambda>m. m \<noteq> n"] by blast
  have split: "cs_path t = takeWhile (\<lambda>m. m \<noteq> n) (cs_path t) @ ?c" by simp
  then have "last ?c = last (cs_path t)" using ne by (metis last_appendR)
  moreover have "successively (\<lambda>a b. (a, b) \<in> support_rel es) ?c"
    using assms(1) split unfolding in_step_def by (metis successively_append_iff)
  ultimately have "is_cycle es ?c" using ne hd assms(3) by (simp add: is_cycle_def)
  then show ?thesis using assms(1) n by (auto simp: in_step_def report_def)
qed

lemma in_step_leave:
  assumes "in_step es t s" "cs_path t = p @ [node]" "node \<notin> set p"
  shows "in_step es (cs_leave node t) (leave node s)"
  using assms by (auto simp: in_step_def successively_append_iff)

lemma searches_in_step:
  "kg_valid g \<Longrightarrow> in_step (kg_edges g) t s \<Longrightarrow> node \<notin> visited s \<Longrightarrow>
     cs_path t = [] \<or> (last (cs_path t), node) \<in> support_rel (kg_edges g) \<Longrightarrow>
     in_step (kg_edges g) (dfs_cycles g node t) (dfs_mark_cyclic g node s)
     \<and> cs_path (dfs_cycles g node t) = cs_path t"
  "kg_valid g \<Longrightarrow> in_step (kg_edges g) t s \<Longrightarrow> set idxs \<subseteq> set (sorted_indices g x) \<Longrightarrow>
     cs_path t \<noteq> [] \<Longrightarrow> last (cs_path t) = x \<Longrightarrow>
     in_step (kg_edges g) (dfs_cycles_edges g idxs t) (dfs_mark_edges g idxs s)
     \<and> cs_path (dfs_cycles_edges g idxs t) = cs_path t"
proof (induction g node s and g idxs s arbitrary: t and t x rule: dfs_mark_cyclic_dfs_mark_edges.induct)
  case (1 g node s)
  let ?t = "dfs_cycles_edges g (sorted_indices g node) (cs_enter node t)"
  have IH: "in_step (kg_edges g) ?t (dfs_mark_edges g (sorted_indices g node) (enter node s))"
    "cs_path ?t = cs_path t @ [node]"
    using "1.IH" [of "cs_enter node t" node] "1.prems" in_step_enter by simp_all
  have "node \<notin> set (cs_path t)" using "1.prems"(2,3) by (auto simp: in_step_def)
  then have "in_step (kg_edges g) (cs_leave node ?t) (leave node (dfs_mark_edges g (sorted_indices g node) (enter node s)))"
    using IH by (intro in_step_leave)
  then show ?case using IH(2) by (simp add: dfs_cycles.simps dfs_mark_cyclic.simps)
next
  case (2 g s)
  then show ?case by simp
next
  case (3 g idx idxs s)
  let ?e = "kg_edges g ! idx"
  have idx: "idx < length (kg_edges g)" "edge_from ?e = x" and rest: "set idxs \<subseteq> set (sorted_indices g x)"
    using "3.prems"(1,3) by (auto simp: set_sorted_indices)
  have same: "cs_visited t = visited s" "cs_on_stack t = on_stack s" using "3.prems"(2) by (auto simp: in_step_def)
  note IH = "3.IH"
  show ?case
  proof (cases "supportive ?e")
    case False
    then show ?thesis using IH(1) [OF refl _ "3.prems"(1,2) rest "3.prems"(4,5)] by simp
  next
    case sup: True
    then have edge: "(last (cs_path t), edge_to ?e) \<in> support_rel (kg_edges g)"
      using support_edge [OF idx(1) sup] idx(2) "3.prems"(5) by simp
    consider "edge_to ?e \<in> on_stack s" | "edge_to ?e \<notin> on_stack s" "edge_to ?e \<notin> visited s"
      | "edge_to ?e \<notin> on_stack s" "edge_to ?e \<in> visited s" by blast
    then show ?thesis
    proof cases
      case 1
      have "in_step (kg_edges g) (report (edge_to ?e) t) (s\<lparr>cyclic := insert idx (cyclic s)\<rparr>)"
        using "3.prems"(2) 1 edge by (rule report_cycle)
      then show ?thesis
        using IH(2) [OF refl _ 1 "3.prems"(1) _ rest, of "report (edge_to ?e) t"] "3.prems"(4,5) sup 1 same
        by simp
    next
      case 2
      then have "in_step (kg_edges g) (dfs_cycles g (edge_to ?e) t) (dfs_mark_cyclic g (edge_to ?e) s)
          \<and> cs_path (dfs_cycles g (edge_to ?e) t) = cs_path t"
        using IH(3) [OF refl _ 2 "3.prems"(1,2) 2(2)] sup edge by simp
      then show ?thesis
        using IH(4) [OF refl _ 2 "3.prems"(1) _ rest, of "dfs_cycles g (edge_to ?e) t"] "3.prems"(4,5) sup 2 same
        by simp
    next
      case 3
      then show ?thesis
        using IH(5) [OF refl _ _ _ "3.prems"(1,2) rest "3.prems"(4,5)] sup same by simp
    qed
  qed
qed

lemma detect_cycles_in_step:
  assumes "kg_valid g"
  shows "(\<forall>c\<in>set (detect_cycles g). is_cycle (kg_edges g) c)
    \<and> (detect_cycles g = [] \<longleftrightarrow> cyclic_edge_indices g = {})"
proof -
  let ?mark = "\<lambda>ns. foldl (\<lambda>s start. if start \<notin> visited s then dfs_mark_cyclic g start s else s)
       \<lparr>visited = {}, on_stack = {}, cyclic = {}\<rparr> ns"
  let ?find = "\<lambda>ns. foldl (\<lambda>s start. if start \<notin> cs_visited s then dfs_cycles g start s else s)
       \<lparr>cs_visited = {}, cs_on_stack = {}, cs_path = [], cs_cycles = []\<rparr> ns"
  have "in_step (kg_edges g) (?find ns) (?mark ns) \<and> cs_path (?find ns) = []" for ns
  proof (induction ns rule: rev_induct)
    case Nil
    then show ?case by (simp add: in_step_def)
  next
    case (snoc n ns)
    then have "cs_visited (?find ns) = visited (?mark ns)" by (simp add: in_step_def)
    then show ?case using snoc searches_in_step(1) [OF assms, of "?find ns" "?mark ns" n] by auto
  qed
  then show ?thesis unfolding detect_cycles_def cyclic_edge_indices_def in_step_def by blast
qed

section \<open>Properties\<close>

text \<open>
  Every edge the search marks lies on a cycle of supporting edges, without the marked edges
  the support graph is acyclic, and nothing is marked exactly when it was acyclic to begin with.
\<close>

theorem cyclic_edges_break_cycles:
  "let g = build_from_claims claims raws
   in (\<forall>i\<in>cyclic_edge_indices g. closes_cycle (kg_edges g) i) \<and> acyclic (acyclic_part g)
      \<and> (cyclic_edge_indices g = {} \<longleftrightarrow> acyclic (support_rel (kg_edges g)))"
  using cyclic_edge_indices_sound acyclic_part cyclic_empty_iff build_from_claims_eq(2)
  unfolding Let_def by blast

text \<open>
  C12: Every cycle that is reported is a cycle of supporting edges, and no cycle is reported
  exactly when the support graph is acyclic.
\<close>

theorem detect_cycles_correct:
  "let g = build_from_claims claims raws
   in (\<forall>c\<in>set (detect_cycles g). is_cycle (kg_edges g) c)
      \<and> (detect_cycles g = [] \<longleftrightarrow> acyclic (support_rel (kg_edges g)))"
  using detect_cycles_in_step [OF build_from_claims_eq(2)] cyclic_empty_iff [OF build_from_claims_eq(2)]
  unfolding Let_def by blast

text \<open>Two claims that support each other: one of the two edges is marked.\<close>

definition sample_edge :: "ClaimHash \<Rightarrow> ClaimHash \<Rightarrow> Relation \<Rightarrow> RawEpistemicEdge" where
  "sample_edge a b r =
     \<lparr>from_hash = a, from_fingerprint = \<lparr>fp_primary = [], fp_secondary = 0\<rparr>, to_hash = b,
      to_fingerprint = \<lparr>fp_primary = [], fp_secondary = 0\<rparr>, raw_relation = r, raw_strength = rep_FULL\<rparr>"

definition mutual_graph :: KnowledgeGraph where
  "mutual_graph = build_from_claims [sample_claim [1] [1] None, sample_claim [2] [2] None]
     [sample_edge [1] [2] Supports, sample_edge [2] [1] DerivedFrom]"

lemma mutual_graph_edges:
  "kg_edges mutual_graph =
     [\<lparr>edge_from = 0, edge_to = 1, relation = Supports, strength = rep_FULL\<rparr>,
      \<lparr>edge_from = 1, edge_to = 0, relation = DerivedFrom, strength = rep_FULL\<rparr>]"
  by (simp add: mutual_graph_def build_from_claims_eq List.map_filter_def resolve_edge_def
      resolve_endpoint_def resolution_index_def index_step_def sample_edge_def sample_claim_def
      is_summary_def)

lemma mutual_graph_cyclic: "\<not> acyclic (support_rel (kg_edges mutual_graph))"
proof -
  have "(0, 1) \<in> support_rel (kg_edges mutual_graph)" "(1, 0) \<in> support_rel (kg_edges mutual_graph)"
    using support_edge [of 0 "kg_edges mutual_graph"] support_edge [of 1 "kg_edges mutual_graph"]
    by (simp_all add: supportive_def mutual_graph_edges)
  then have "(0, 0) \<in> (support_rel (kg_edges mutual_graph))\<^sup>+" by (rule trancl_trans [OF r_into_trancl r_into_trancl])
  then show ?thesis by (auto simp: acyclic_def)
qed

theorem cyclic_edges_break_cycles_witness:
  "cyclic_edge_indices mutual_graph \<noteq> {} \<and> acyclic (acyclic_part mutual_graph)"
  using cyclic_edges_break_cycles
    [of "[sample_claim [1] [1] None, sample_claim [2] [2] None]"
        "[sample_edge [1] [2] Supports, sample_edge [2] [1] DerivedFrom]"] mutual_graph_cyclic
  unfolding Let_def mutual_graph_def by blast

theorem detect_cycles_correct_witness:
  "detect_cycles mutual_graph \<noteq> [] \<and> is_cycle (kg_edges mutual_graph) (hd (detect_cycles mutual_graph))"
  using detect_cycles_correct
    [of "[sample_claim [1] [1] None, sample_claim [2] [2] None]"
        "[sample_edge [1] [2] Supports, sample_edge [2] [1] DerivedFrom]"] mutual_graph_cyclic
  unfolding Let_def mutual_graph_def by (auto intro: bspec [OF _ hd_in_set])

end
