(* ===== verification/Trust.thy ===== *)
theory Trust
  imports Correlation Reputation_Tracking Cycles
begin

text \<open>
  Trust propagation (\<open>propagate_trust_correlated\<close> and its wrappers in
  \<open>aimp_node/src/epistemic.rs\<close>, lines 1297-1668): temporal decay, the fixed-point iteration over
  supporting edges (pass 1) and the simultaneous, capped subtraction of contradictions (pass 2).

  A hash map is the list of its entries; \<open>trust_of\<close> is the lookup with \<open>unwrap_or(NEUTRAL)\<close>. The
  reputation tracker is the function \<open>rep\<close> from identities to reputations. The \<open>i64\<close> intermediates
  of a single edge fit: \<open>2^31 * (65535 * 10000) / 10000 * 65535 < 2^63\<close>; a sum over edges would need
  \<open>2^32\<close> edges to leave the range, so both are integers. The one product that a large graph can
  overflow, the weight of the contradictions times 10000, is wrapped.
\<close>

section \<open>Hash maps as lists of entries\<close>

definition push_entry :: "'k \<Rightarrow> 'v \<Rightarrow> ('k \<times> 'v list) list \<Rightarrow> ('k \<times> 'v list) list" where
  "push_entry k x m = AList.update k (or_default (map_of m k) @ [x]) m"

definition add_entry :: "'k \<Rightarrow> int \<Rightarrow> ('k \<times> int) list \<Rightarrow> ('k \<times> int) list" where
  "add_entry k x m = AList.update k ((case map_of m k of Some v \<Rightarrow> v | None \<Rightarrow> 0) + x) m"

lemma distinct_keys_update: "distinct (map fst m) \<Longrightarrow> distinct (map fst (AList.update k v m))"
  by (rule distinct_update)

lemma push_fold:
  "distinct (map fst (foldl (\<lambda>m (k, x). push_entry k x m) [] xs))
   \<and> map_of (foldl (\<lambda>m (k, x). push_entry k x m) [] xs) k =
      (let ys = map snd (filter (\<lambda>e. fst e = k) xs) in if ys = [] then None else Some ys)"
proof (induction xs rule: rev_induct)
  case Nil
  then show ?case by simp
next
  case (snoc e xs)
  then show ?case
    by (cases e) (auto simp: push_entry_def distinct_update update_conv Let_def filter_empty_conv)
qed

lemma add_fold:
  "distinct (map fst (foldl (\<lambda>m (k, x). add_entry k x m) [] xs))
   \<and> map_of (foldl (\<lambda>m (k, x). add_entry k x m) [] xs) k =
      (let ys = map snd (filter (\<lambda>e. fst e = k) xs) in if ys = [] then None else Some (sum_list ys))"
proof (induction xs rule: rev_induct)
  case Nil
  then show ?case by simp
next
  case (snoc e xs)
  then show ?case
    by (cases e) (auto simp: add_entry_def distinct_update update_conv Let_def filter_empty_conv
        split: if_splits)
qed

text \<open>A loop over the entries of one map that inserts under the same key into another.\<close>

lemma fold_update:
  "distinct (map fst inc) \<Longrightarrow>
   map_of (foldl (\<lambda>m (k, x). AList.update k (h (map_of m k) k x) m) m0 inc) k =
     (case map_of inc k of None \<Rightarrow> map_of m0 k | Some x \<Rightarrow> Some (h (map_of m0 k) k x))"
proof (induction inc rule: rev_induct)
  case Nil
  then show ?case by simp
next
  case (snoc e inc)
  obtain k' x where e: "e = (k', x)" by (cases e)
  then have "map_of inc k' = None" using snoc.prems by (force simp: map_of_eq_None_iff)
  with snoc show ?case by (auto simp: e update_conv map_add_def split: option.splits)
qed

section \<open>The code\<close>

type_synonym trust_map = "(ClaimArenaId \<times> LogOdds) list"

definition trust_of :: "trust_map \<Rightarrow> ClaimArenaId \<Rightarrow> LogOdds" where
  "trust_of trust k = (case map_of trust k of Some v \<Rightarrow> v | None \<Rightarrow> NEUTRAL)"

subsection \<open>Temporal decay\<close>

definition decay_value :: "Claim list \<Rightarrow> u64 \<Rightarrow> u64 \<Rightarrow> ClaimArenaId \<Rightarrow> LogOdds \<Rightarrow> LogOdds" where
  "decay_value claims current_tick half_life_ticks arena_id v =
     (if unat arena_id < length claims then
        let age = usub_sat current_tick (claim_tick (claims ! unat arena_id));
            decay_steps = age div half_life_ticks
        in if decay_steps > 0
           then let shifts = unat (min decay_steps 30) in lo_new (drop_bit shifts (lo_val v))
           else v
      else v)"

definition decay_base :: "Claim list \<Rightarrow> u64 \<Rightarrow> u64 \<Rightarrow> trust_map \<Rightarrow> trust_map" where
  "decay_base claims current_tick half_life_ticks base_trust =
     (if half_life_ticks > 0 \<and> current_tick > 0
      then map (\<lambda>(a, v). (a, decay_value claims current_tick half_life_ticks a v)) base_trust
      else base_trust)"

subsection \<open>Pass 1\<close>

definition source_trust :: "trust_map \<Rightarrow> ClaimArenaId \<Rightarrow> LogOdds" where
  "source_trust trust x = lo_new (max (lo_val (trust_of trust x)) 0)"

definition author_rep :: "(bytes \<Rightarrow> Reputation) \<Rightarrow> Claim list \<Rightarrow> ClaimArenaId \<Rightarrow> int" where
  "author_rep rep claims x =
     (if unat x < length claims then uint (bps (rep (claim_origin (claims ! unat x)))) else 0)"

definition flows :: "KnowledgeGraph \<Rightarrow> nat set \<Rightarrow> nat \<Rightarrow> bool" where
  "flows g cyclic_edges i \<longleftrightarrow> i \<notin> cyclic_edges \<and> supportive (kg_edges g ! i)"

definition edge_bps :: "KnowledgeGraph \<Rightarrow> nat \<Rightarrow> int" where
  "edge_bps g i = uint (bps (strength (kg_edges g ! i)))"

definition total_out :: "KnowledgeGraph \<Rightarrow> nat set \<Rightarrow> ClaimArenaId \<Rightarrow> int" where
  "total_out g cyclic_edges x =
     (let total_out_strength =
        (case adjacency g x of
           Some indices \<Rightarrow> sum_list (map (edge_bps g) (filter (flows g cyclic_edges) indices))
         | None \<Rightarrow> 1)
      in max total_out_strength 1)"

definition contribution ::
  "KnowledgeGraph \<Rightarrow> nat set \<Rightarrow> (bytes \<Rightarrow> Reputation) \<Rightarrow> Claim list \<Rightarrow> trust_map \<Rightarrow> nat \<Rightarrow> int" where
  "contribution g cyclic_edges rep claims trust idx =
     (let edge = kg_edges g ! idx;
          from_trust = lo_val (source_trust trust (edge_from edge));
          share_bps = edge_bps g idx * 10000 sdiv total_out g cyclic_edges (edge_from edge)
      in from_trust * share_bps sdiv 10000 * author_rep rep claims (edge_from edge) sdiv 10000)"

definition source_id :: "Claim list \<Rightarrow> ClaimArenaId \<Rightarrow> ClaimHash" where
  "source_id claims x = (if unat x < length claims then claim_id (claims ! unat x) else replicate 32 0)"

definition source_group :: "CorrelationGroup list \<Rightarrow> ClaimArenaId \<Rightarrow> CorrelationGroup" where
  "source_group groups x =
     (if unat x < length groups then groups ! unat x else \<lparr>cg_key = 0, cg_assessed = False\<rparr>)"

text \<open>The evidence that the edge \<open>idx\<close> delivers, with its target.\<close>

definition delivered ::
  "KnowledgeGraph \<Rightarrow> nat set \<Rightarrow> (bytes \<Rightarrow> Reputation) \<Rightarrow> Claim list \<Rightarrow> CorrelationGroup list
    \<Rightarrow> trust_map \<Rightarrow> nat \<Rightarrow> ClaimArenaId \<times> evidence" where
  "delivered g cyclic_edges rep claims groups trust idx =
     (let edge = kg_edges g ! idx
      in (edge_to edge,
          (lo_new (clampi i32_min i32_max (contribution g cyclic_edges rep claims trust idx)),
           source_group groups (edge_from edge), source_id claims (edge_from edge))))"

definition incoming ::
  "KnowledgeGraph \<Rightarrow> nat set \<Rightarrow> (bytes \<Rightarrow> Reputation) \<Rightarrow> Claim list \<Rightarrow> CorrelationGroup list
    \<Rightarrow> trust_map \<Rightarrow> (ClaimArenaId \<times> evidence list) list" where
  "incoming g cyclic_edges rep claims groups trust =
     foldl (\<lambda>m (k, x). push_entry k x m) []
       (map (delivered g cyclic_edges rep claims groups trust)
         (filter (flows g cyclic_edges) [0..<length (kg_edges g)]))"

definition apply_support ::
  "u16 \<Rightarrow> trust_map \<Rightarrow> trust_map \<Rightarrow> (ClaimArenaId \<times> evidence list) list \<Rightarrow> trust_map" where
  "apply_support discount_bps base_trust new_trust inc =
     foldl (\<lambda>m (target, contribs).
        let bonus = aggregate_hierarchical contribs discount_bps UNASSESSED_DISCOUNT_BPS;
            base_val = trust_of base_trust target;
            current = (case map_of m target of Some v \<Rightarrow> v | None \<Rightarrow> base_val)
        in AList.update target (lo_update current bonus) m) new_trust inc"

definition pass1_step ::
  "KnowledgeGraph \<Rightarrow> nat set \<Rightarrow> (bytes \<Rightarrow> Reputation) \<Rightarrow> Claim list \<Rightarrow> CorrelationGroup list
    \<Rightarrow> u16 \<Rightarrow> trust_map \<Rightarrow> trust_map \<Rightarrow> trust_map \<Rightarrow> trust_map" where
  "pass1_step g cyclic_edges rep claims groups discount_bps base_trust decayed_base trust =
     apply_support discount_bps base_trust decayed_base
       (incoming g cyclic_edges rep claims groups trust)"

definition trust_changed :: "trust_map \<Rightarrow> trust_map \<Rightarrow> bool" where
  "trust_changed trust new_trust \<longleftrightarrow> (\<exists>(k, v)\<in>set new_trust. trust_of trust k \<noteq> v)"

primrec pass1_loop :: "(trust_map \<Rightarrow> trust_map) \<Rightarrow> nat \<Rightarrow> trust_map \<Rightarrow> trust_map" where
  "pass1_loop step 0 trust = trust"
| "pass1_loop step (Suc n) trust =
     (let new_trust = step trust
      in if trust_changed trust new_trust then pass1_loop step n new_trust else new_trust)"

subsection \<open>Pass 2\<close>

definition weighted :: "KnowledgeGraph \<Rightarrow> trust_map \<Rightarrow> (EpistemicEdge \<Rightarrow> bool) \<Rightarrow> ClaimArenaId \<Rightarrow> int" where
  "weighted g stabilized P target =
     sum_list (map (\<lambda>e. lo_val (source_trust stabilized (edge_from e)))
       (filter (\<lambda>e. edge_to e = target \<and> P e) (kg_edges g)))"

definition dynamic_alpha :: "KnowledgeGraph \<Rightarrow> trust_map \<Rightarrow> u16 \<Rightarrow> ClaimArenaId \<Rightarrow> int" where
  "dynamic_alpha g stabilized damping_bps target =
     (let weighted_support = weighted g stabilized supportive target;
          weighted_contradict = weighted g stabilized (\<lambda>e. relation e = Contradicts) target;
          tot = weighted_support + weighted_contradict + 1;
          ratio = wrap64 (weighted_contradict * 10000) sdiv tot
      in min (uint (word_of_int ratio :: u32)) (uint damping_bps))"

definition raw_penalty ::
  "(bytes \<Rightarrow> Reputation) \<Rightarrow> Claim list \<Rightarrow> trust_map \<Rightarrow> EpistemicEdge \<Rightarrow> int" where
  "raw_penalty rep claims stabilized edge =
     (let effective_weight = uint (bps (strength edge)) * author_rep rep claims (edge_from edge) sdiv 10000
      in lo_val (source_trust stabilized (edge_from edge)) * effective_weight sdiv 10000)"

definition capped_penalty ::
  "KnowledgeGraph \<Rightarrow> (bytes \<Rightarrow> Reputation) \<Rightarrow> Claim list \<Rightarrow> u16 \<Rightarrow> trust_map \<Rightarrow> EpistemicEdge \<Rightarrow> int" where
  "capped_penalty g rep claims damping_bps stabilized edge =
     (let raw = raw_penalty rep claims stabilized edge;
          target_trust = lo_val (trust_of stabilized (edge_to edge));
          max_penalty = (if target_trust > 0
            then target_trust * dynamic_alpha g stabilized damping_bps (edge_to edge) sdiv 10000
            else \<bar>raw\<bar>)
      in min \<bar>raw\<bar> max_penalty)"

definition penalties ::
  "KnowledgeGraph \<Rightarrow> (bytes \<Rightarrow> Reputation) \<Rightarrow> Claim list \<Rightarrow> u16 \<Rightarrow> trust_map \<Rightarrow> (ClaimArenaId \<times> int) list" where
  "penalties g rep claims damping_bps stabilized =
     foldl (\<lambda>m (k, x). add_entry k x m) []
       (map (\<lambda>e. (edge_to e, capped_penalty g rep claims damping_bps stabilized e))
         (filter (\<lambda>e. relation e = Contradicts) (kg_edges g)))"

definition apply_penalties :: "u16 \<Rightarrow> trust_map \<Rightarrow> (ClaimArenaId \<times> int) list \<Rightarrow> trust_map" where
  "apply_penalties damping_bps stabilized pens =
     foldl (\<lambda>m (node, total_penalty).
        let target = lo_val (trust_of stabilized node);
            global_max = (if target > 0 then target * uint damping_bps sdiv 10000 else total_penalty);
            globally_capped = min total_penalty global_max;
            current = (case map_of m node of Some v \<Rightarrow> v | None \<Rightarrow> NEUTRAL)
        in AList.update node (lo_new (sat32 (lo_val current - clampi 0 i32_max globally_capped))) m)
       stabilized pens"

definition pass2 ::
  "KnowledgeGraph \<Rightarrow> (bytes \<Rightarrow> Reputation) \<Rightarrow> Claim list \<Rightarrow> u16 \<Rightarrow> trust_map \<Rightarrow> trust_map" where
  "pass2 g rep claims damping_bps stabilized =
     apply_penalties damping_bps stabilized (penalties g rep claims damping_bps stabilized)"

subsection \<open>The whole propagation\<close>

definition DEFAULT_SUPPORT_THRESHOLD :: u32 where "DEFAULT_SUPPORT_THRESHOLD = 30"

definition propagate_trust_correlated ::
  "blake3 \<Rightarrow> KnowledgeGraph \<Rightarrow> trust_map \<Rightarrow> u8 \<Rightarrow> u16 \<Rightarrow> Claim list \<Rightarrow> (bytes \<Rightarrow> Reputation)
    \<Rightarrow> u64 \<Rightarrow> u64 \<Rightarrow> u16 \<Rightarrow> trust_map option" where
  "propagate_trust_correlated B g base_trust max_iterations damping_bps claims rep
      current_tick half_life_ticks discount_bps =
     (let cyclic_edges = cyclic_edge_indices g;
          decayed_base = decay_base claims current_tick half_life_ticks base_trust
      in do {
        claim_groups \<leftarrow> correlation_groups B claims DEFAULT_SUPPORT_THRESHOLD;
        let trust = pass1_loop
          (pass1_step g cyclic_edges rep claims claim_groups discount_bps base_trust decayed_base)
          (unat max_iterations) decayed_base;
        Some (pass2 g rep claims damping_bps trust)
      })"

definition propagate_trust_advanced ::
  "blake3 \<Rightarrow> KnowledgeGraph \<Rightarrow> trust_map \<Rightarrow> u8 \<Rightarrow> u16 \<Rightarrow> Claim list \<Rightarrow> (bytes \<Rightarrow> Reputation)
    \<Rightarrow> u64 \<Rightarrow> u64 \<Rightarrow> trust_map option" where
  "propagate_trust_advanced B g base_trust max_iterations damping_bps claims rep current_tick half_life_ticks =
     propagate_trust_correlated B g base_trust max_iterations damping_bps claims rep
       current_tick half_life_ticks DEFAULT_DISCOUNT_BPS"

definition propagate_trust_full ::
  "blake3 \<Rightarrow> KnowledgeGraph \<Rightarrow> trust_map \<Rightarrow> u8 \<Rightarrow> u16 \<Rightarrow> Claim list \<Rightarrow> (bytes \<Rightarrow> Reputation)
    \<Rightarrow> trust_map option" where
  "propagate_trust_full B g base_trust max_iterations damping_bps claims rep =
     propagate_trust_advanced B g base_trust max_iterations damping_bps claims rep 0 0"

definition propagate_trust :: "blake3 \<Rightarrow> KnowledgeGraph \<Rightarrow> trust_map \<Rightarrow> u8 \<Rightarrow> trust_map option" where
  "propagate_trust B g base_trust max_iterations =
     propagate_trust_full B g base_trust max_iterations 5000 [] (reputation tracker_new)"

section \<open>Contradictions are capped\<close>

lemma source_trust_val: "lo_val (source_trust t x) = max (lo_val (trust_of t x)) 0"
  using lo_val_in_i32 [of "trust_of t x"]
  by (simp add: source_trust_def i32_min_def i32_max_def max_def)

lemma author_rep_nonneg: "0 \<le> author_rep rep claims x"
  by (simp add: author_rep_def)

lemma dynamic_alpha_nonneg: "0 \<le> dynamic_alpha g t d x"
  by (simp add: dynamic_alpha_def Let_def)

lemma capped_penalty_nonneg: "0 \<le> capped_penalty g rep claims d t e"
  using dynamic_alpha_nonneg [of g t d "edge_to e"]
  by (simp add: capped_penalty_def Let_def sdiv_sign(1))

lemma penalties_lookup:
  "distinct (map fst (penalties g rep claims d t))"
  "map_of (penalties g rep claims d t) k =
     (let es = filter (\<lambda>e. relation e = Contradicts \<and> edge_to e = k) (kg_edges g)
      in if es = [] then None else Some (sum_list (map (capped_penalty g rep claims d t) es)))"
  unfolding penalties_def
  using add_fold [of "map (\<lambda>e. (edge_to e, capped_penalty g rep claims d t e))
      (filter (\<lambda>e. relation e = Contradicts) (kg_edges g))" k]
  by (auto simp: filter_map comp_def Let_def conj_commute cong: filter_cong)

definition penalised :: "u16 \<Rightarrow> int \<Rightarrow> int \<Rightarrow> int" where
  "penalised d v tot =
     sat32 (v - clampi 0 i32_max (min tot (if v > 0 then v * uint d sdiv 10000 else tot)))"

lemma pass2_lookup:
  "map_of (pass2 g rep claims d t) k =
     (case map_of (penalties g rep claims d t) k of
        None \<Rightarrow> map_of t k
      | Some tot \<Rightarrow> Some (lo_new (penalised d (lo_val (trust_of t k)) tot)))"
proof -
  let ?h = "\<lambda>old node total_penalty.
        let target = lo_val (trust_of t node);
            global_max = (if target > 0 then target * uint d sdiv 10000 else total_penalty);
            globally_capped = min total_penalty global_max;
            current = (case old of Some v \<Rightarrow> v | None \<Rightarrow> NEUTRAL)
        in lo_new (sat32 (lo_val current - clampi 0 i32_max globally_capped))"
  have "map_of (pass2 g rep claims d t) k =
      (case map_of (penalties g rep claims d t) k of None \<Rightarrow> map_of t k
       | Some x \<Rightarrow> Some (?h (map_of t k) k x))"
    using fold_update [OF penalties_lookup(1) [of g rep claims d t], of ?h t k]
    unfolding pass2_def apply_penalties_def Let_def by simp
  moreover have "?h (map_of t k) k x = lo_new (penalised d (lo_val (trust_of t k)) x)" for x
    by (simp add: penalised_def trust_of_def Let_def split: option.split)
  ultimately show ?thesis by (simp only:)
qed

lemma penalised_range:
  assumes "0 \<le> tot" "in_i32 v"
  shows "in_i32 (penalised d v tot)" "penalised d v tot \<le> v" "0 < v \<Longrightarrow> v - v * uint d div 10000 \<le> penalised d v tot"
proof -
  show "in_i32 (penalised d v tot)"
    by (simp add: penalised_def sat32_def clampi_def i32_min_def i32_max_def)
  have c: "0 \<le> clampi 0 i32_max k" for k by (simp add: clampi_def i32_max_def)
  then show "penalised d v tot \<le> v"
    using assms(2) c [of "min tot (if v > 0 then v * uint d sdiv 10000 else tot)"]
    by (auto simp: penalised_def sat32_def clampi_def i32_min_def i32_max_def)
  assume v: "0 < v"
  then have nn: "0 \<le> v * uint d" by simp
  have "clampi 0 i32_max (min tot (v * uint d sdiv 10000)) \<le> v * uint d div 10000"
    using nn by (simp add: clampi_def i32_max_def sdiv_nonneg pos_imp_zdiv_nonneg_iff)
  then show "v - v * uint d div 10000 \<le> penalised d v tot"
    using v assms(2) by (auto simp: penalised_def sat32_def clampi_def i32_min_def i32_max_def)
qed

lemma penalised_0 [simp]: "in_i32 v \<Longrightarrow> penalised d v 0 = v"
  by (simp add: penalised_def clampi_def sdiv_nonneg pos_imp_zdiv_nonneg_iff min_def i32_max_def sat32_def)

lemma sum_list_capped_nonneg: "0 \<le> sum_list (map (capped_penalty g rep claims d t) es)"
  by (intro sum_list_nonneg) (auto simp: capped_penalty_nonneg)

lemma pass2_value:
  "lo_val (trust_of (pass2 g rep claims d t) k) =
     penalised d (lo_val (trust_of t k))
       (sum_list (map (capped_penalty g rep claims d t)
          (filter (\<lambda>e. relation e = Contradicts \<and> edge_to e = k) (kg_edges g))))"
proof -
  have "lo_val (lo_new (penalised d (lo_val (trust_of t k)) tot)) = penalised d (lo_val (trust_of t k)) tot"
    if "0 \<le> tot" for tot
    using penalised_range(1) [OF that] by (intro lo_val_new) simp
  then show ?thesis
    using sum_list_capped_nonneg [of g rep claims d t]
    unfolding trust_of_def [of "pass2 g rep claims d t"] pass2_lookup penalties_lookup(2)
    by (auto simp: Let_def trust_of_def)
qed

lemma pass2_bounds:
  shows "lo_val (trust_of (pass2 g rep claims d t) k) \<le> lo_val (trust_of t k)"
    and "0 < lo_val (trust_of t k) \<Longrightarrow>
      lo_val (trust_of t k) - lo_val (trust_of t k) * uint d div 10000
        \<le> lo_val (trust_of (pass2 g rep claims d t) k)"
  unfolding pass2_value using sum_list_capped_nonneg
  by (auto intro: penalised_range)

text \<open>A contradiction from a source that is not trusted is not heard.\<close>

lemma silent_penalty:
  assumes "lo_val (trust_of t (edge_from e)) \<le> 0"
  shows "capped_penalty g rep claims d t e = 0"
  using assms dynamic_alpha_nonneg [of g t d "edge_to e"]
  by (simp add: capped_penalty_def raw_penalty_def source_trust_val Let_def sdiv_sign(1))

lemma weighted_silent:
  assumes "kg_edges g' = kg_edges g @ es" "\<forall>e\<in>set es. lo_val (trust_of t (edge_from e)) \<le> 0"
  shows "weighted g' t P k = weighted g t P k"
proof -
  have "sum_list (map (\<lambda>e. lo_val (source_trust t (edge_from e))) (filter Q es)) = 0" for Q
    using assms(2) by (induction es) (auto simp: source_trust_val)
  then show ?thesis by (simp add: weighted_def assms(1))
qed

lemma pass2_silent:
  assumes "kg_edges g' = kg_edges g @ es"
    and "\<forall>e\<in>set es. relation e = Contradicts \<and> lo_val (trust_of t (edge_from e)) \<le> 0"
  shows "trust_of (pass2 g' rep claims d t) k = trust_of (pass2 g rep claims d t) k"
proof -
  have cap: "capped_penalty g' rep claims d t e = capped_penalty g rep claims d t e" for e
    using weighted_silent [OF assms(1), of t] assms(2)
    by (simp add: capped_penalty_def dynamic_alpha_def cong: if_cong)
  have "sum_list (map (capped_penalty g rep claims d t) (filter P es)) = 0" for P
    using assms(2) silent_penalty [of t] by (induction es) auto
  then have "lo_val (trust_of (pass2 g' rep claims d t) k) = lo_val (trust_of (pass2 g rep claims d t) k)"
    by (simp add: pass2_value assms(1) cap cong: map_cong)
  then show ?thesis by (simp add: lo_val_inject)
qed

section \<open>Trust is divided, not copied\<close>

lemma contribution_range:
  assumes "kg_valid g" "i < length (kg_edges g)" "flows g C i" "\<And>x. bps (rep x) \<le> 10000"
    and "x = edge_from (kg_edges g ! i)"
  shows "0 \<le> contribution g C rep claims t i"
    and "10000 * contribution g C rep claims t i
      \<le> lo_val (source_trust t x) * (edge_bps g i * 10000 div total_out g C x)"
proof -
  let ?f = "lo_val (source_trust t x)" and ?s = "edge_bps g i * 10000 div total_out g C x"
    and ?r = "author_rep rep claims x"
  have T: "1 \<le> total_out g C x" by (simp add: total_out_def Let_def)
  have f: "0 \<le> ?f" by (simp add: source_trust_val)
  have e: "0 \<le> edge_bps g i" by (simp add: edge_bps_def)
  have s: "0 \<le> ?s" using T e by (simp add: pos_imp_zdiv_nonneg_iff)
  have r: "0 \<le> ?r" "?r \<le> 10000"
    using assms(4) by (simp_all add: author_rep_def word_le_def)
  have q: "0 \<le> ?f * ?s div 10000" using f s by (simp add: pos_imp_zdiv_nonneg_iff)
  have c: "contribution g C rep claims t i = ?f * ?s div 10000 * ?r div 10000"
    using T e f s q r by (simp add: contribution_def Let_def assms(5) sdiv_nonneg)
  show "0 \<le> contribution g C rep claims t i"
    unfolding c using q r by (simp add: pos_imp_zdiv_nonneg_iff)
  have "?f * ?s div 10000 * ?r \<le> ?f * ?s div 10000 * 10000"
    using q r by (intro mult_left_mono)
  then have "?f * ?s div 10000 * ?r div 10000 \<le> ?f * ?s div 10000"
    using zdiv_mono1 [of "?f * ?s div 10000 * ?r" "?f * ?s div 10000 * 10000" 10000] by simp
  moreover have "10000 * (?f * ?s div 10000) \<le> ?f * ?s" by simp
  ultimately show "10000 * contribution g C rep claims t i \<le> ?f * ?s" unfolding c by linarith
qed

lemma sum_list_div_le:
  assumes "0 < T" "\<forall>i\<in>set is. 0 \<le> (f i :: int)"
  shows "T * sum_list (map (\<lambda>i. f i * 10000 div T) is) \<le> 10000 * sum_list (map f is)"
  using assms(2)
proof (induction "is")
  case (Cons i "is")
  have "T * (f i * 10000 div T) \<le> f i * 10000"
    using assms(1) minus_mod_eq_mult_div [of "f i * 10000" T] pos_mod_sign [of T "f i * 10000"] by linarith
  with Cons show ?case by (simp add: distrib_left)
qed simp

lemma flow_conservation:
  assumes g: "kg_valid g" and rep: "\<And>x. bps (rep x) \<le> 10000"
  shows "sum_list (map (contribution g C rep claims t)
      (filter (flows g C) (out_edges (kg_edges g) x))) \<le> lo_val (source_trust t x)"
proof -
  let ?is = "filter (flows g C) (out_edges (kg_edges g) x)"
  let ?T = "total_out g C x" and ?f = "lo_val (source_trust t x)"
  have f: "0 \<le> ?f" by (simp add: source_trust_val)
  have T: "0 < ?T" by (simp add: total_out_def Let_def)
  have "sum_list (map (edge_bps g) ?is) \<le> ?T"
  proof (cases "adjacency g x")
    case None
    then have "?is = []" using g by (metis filter.simps(1) kg_valid_def or_default_simps(1))
    then have "sum_list (map (edge_bps g) ?is) = 0" by simp
    then show ?thesis using T by linarith
  next
    case (Some l)
    then have "out_edges (kg_edges g) x = l" using g by (metis kg_valid_def or_default_simps(2))
    then show ?thesis by (simp add: total_out_def Some)
  qed
  moreover have "?T * sum_list (map (\<lambda>i. edge_bps g i * 10000 div ?T) ?is)
      \<le> 10000 * sum_list (map (edge_bps g) ?is)"
    using T by (intro sum_list_div_le) (simp_all add: edge_bps_def)
  ultimately have "?T * sum_list (map (\<lambda>i. edge_bps g i * 10000 div ?T) ?is) \<le> ?T * 10000" by linarith
  then have share: "sum_list (map (\<lambda>i. edge_bps g i * 10000 div ?T) ?is) \<le> 10000"
    using T by simp
  have "10000 * contribution g C rep claims t i \<le> ?f * (edge_bps g i * 10000 div ?T)" if "i \<in> set ?is" for i
    using that by (intro contribution_range(2) [OF g _ _ rep]) (auto simp: out_edges_def)
  then have "10000 * sum_list (map (contribution g C rep claims t) ?is)
      \<le> ?f * sum_list (map (\<lambda>i. edge_bps g i * 10000 div ?T) ?is)"
    unfolding sum_list_const_mult [symmetric] map_map by (intro sum_list_mono) auto
  also have "\<dots> \<le> ?f * 10000" using share f by (rule mult_left_mono)
  finally show ?thesis by simp
qed

section \<open>Pass 1 converges\<close>

lemma incoming_lookup:
  "distinct (map fst (incoming g C rep claims groups t))"
  "map_of (incoming g C rep claims groups t) k =
     (let is = filter (\<lambda>i. flows g C i \<and> edge_to (kg_edges g ! i) = k) [0..<length (kg_edges g)]
      in if is = [] then None else Some (map (\<lambda>i. snd (delivered g C rep claims groups t i)) is))"
  unfolding incoming_def
  using push_fold [of "map (delivered g C rep claims groups t)
      (filter (flows g C) [0..<length (kg_edges g)])" k]
  by (auto simp: filter_map comp_def Let_def delivered_def conj_commute cong: filter_cong)

lemma pass1_step_lookup:
  "map_of (pass1_step g C rep claims groups dis base decayed t) k =
     (case map_of (incoming g C rep claims groups t) k of
        None \<Rightarrow> map_of decayed k
      | Some cs \<Rightarrow> Some (lo_update (case map_of decayed k of Some v \<Rightarrow> v | None \<Rightarrow> trust_of base k)
          (aggregate_hierarchical cs dis UNASSESSED_DISCOUNT_BPS)))"
  unfolding pass1_step_def apply_support_def Let_def
  using fold_update [OF incoming_lookup(1) [of g C rep claims groups t],
      of "\<lambda>old k cs. lo_update (case old of Some v \<Rightarrow> v | None \<Rightarrow> trust_of base k)
          (aggregate_hierarchical cs dis UNASSESSED_DISCOUNT_BPS)" decayed k]
  by simp

text \<open>The step reads the trust of the predecessors of a node only.\<close>

lemma contribution_local:
  "trust_of t (edge_from (kg_edges g ! i)) = trust_of t' (edge_from (kg_edges g ! i)) \<Longrightarrow>
   contribution g C rep claims t i = contribution g C rep claims t' i"
  by (simp add: contribution_def source_trust_def)

lemma pass1_step_local:
  assumes "\<And>u. (u, k) \<in> kept_rel (kg_edges g) C UNIV \<Longrightarrow> trust_of t u = trust_of t' u"
  shows "map_of (pass1_step g C rep claims groups dis base decayed t) k =
    map_of (pass1_step g C rep claims groups dis base decayed t') k"
proof -
  let ?is = "filter (\<lambda>i. flows g C i \<and> edge_to (kg_edges g ! i) = k) [0..<length (kg_edges g)]"
  have "delivered g C rep claims groups t i = delivered g C rep claims groups t' i" if "i \<in> set ?is" for i
  proof -
    have "(edge_from (kg_edges g ! i), k) \<in> kept_rel (kg_edges g) C UNIV"
      using that by (auto simp: kept_rel_def flows_def)
    then show ?thesis using assms contribution_local [of t g i t'] by (simp add: delivered_def)
  qed
  then have "map_of (incoming g C rep claims groups t) k = map_of (incoming g C rep claims groups t') k"
    unfolding incoming_lookup(2) Let_def by (auto cong: map_cong)
  then show ?thesis by (simp add: pass1_step_lookup)
qed

text \<open>Without a chain of \<open>n + 1\<close> supporting edges, \<open>n\<close> steps reach the fixed point.\<close>

lemma iterate_stable:
  fixes step :: "trust_map \<Rightarrow> trust_map" and R :: "(ClaimArenaId \<times> ClaimArenaId) set"
  assumes local: "\<And>t t' k. (\<And>u. (u, k) \<in> R \<Longrightarrow> trust_of t u = trust_of t' u) \<Longrightarrow>
      trust_of (step t) k = trust_of (step t') k"
    and start: "\<And>k. k \<notin> Range R \<Longrightarrow> trust_of (step t0) k = trust_of t0 k"
  shows "k \<notin> Range (R ^^ Suc n) \<Longrightarrow> trust_of ((step ^^ Suc n) t0) k = trust_of ((step ^^ n) t0) k"
proof (induction n arbitrary: k)
  case 0
  then show ?case using start by simp
next
  case (Suc n)
  have "trust_of ((step ^^ Suc n) t0) u = trust_of ((step ^^ n) t0) u" if "(u, k) \<in> R" for u
  proof (rule Suc.IH)
    show "u \<notin> Range (R ^^ Suc n)"
      using Suc.prems that by (auto simp: Range_iff)
  qed
  then show ?case using local [of k "(step ^^ Suc n) t0" "(step ^^ n) t0"] by simp
qed

lemma pass1_loop_cases:
  "pass1_loop step n t = (step ^^ n) t
   \<or> (\<exists>m<n. pass1_loop step n t = step ((step ^^ m) t) \<and> \<not> trust_changed ((step ^^ m) t) (step ((step ^^ m) t)))"
proof (induction n arbitrary: t)
  case (Suc n)
  show ?case
  proof (cases "trust_changed t (step t)")
    case True
    have shift: "(step ^^ m) (step t) = (step ^^ Suc m) t" for m by (simp add: funpow_swap1)
    from Suc [of "step t"] show ?thesis
    proof (elim disjE exE conjE)
      assume "pass1_loop step n (step t) = (step ^^ n) (step t)"
      then show ?thesis using True by (simp add: Let_def shift del: funpow.simps)
    next
      fix m
      assume "m < n" "pass1_loop step n (step t) = step ((step ^^ m) (step t))"
        "\<not> trust_changed ((step ^^ m) (step t)) (step ((step ^^ m) (step t)))"
      then show ?thesis using True by (intro disjI2 exI [of _ "Suc m"]) (simp add: Let_def shift del: funpow.simps)
    qed
  next
    case False
    then show ?thesis by (auto simp: Let_def intro!: disjI2 exI [of _ 0])
  qed
qed simp

lemma not_changed:
  assumes "\<not> trust_changed t t'" "distinct (map fst t')" "fst ` set t \<subseteq> fst ` set t'"
  shows "trust_of t k = trust_of t' k"
proof (cases "map_of t' k")
  case None
  then have "map_of t k = None" using assms(3) by (auto simp: map_of_eq_None_iff)
  then show ?thesis using None by (simp add: trust_of_def)
next
  case (Some v)
  then have "(k, v) \<in> set t'" by (rule map_of_SomeD)
  then have "trust_of t k = v" using assms(1) by (auto simp: trust_changed_def)
  then show ?thesis using Some by (simp add: trust_of_def)
qed

lemma pass1_step_keys:
  "k \<in> fst ` set (pass1_step g C rep claims groups dis base decayed t) \<longleftrightarrow>
     k \<in> fst ` set decayed \<or> (\<exists>i<length (kg_edges g). flows g C i \<and> edge_to (kg_edges g ! i) = k)"
proof -
  have "map_of (pass1_step g C rep claims groups dis base decayed t) k = None \<longleftrightarrow>
      map_of decayed k = None \<and> (\<forall>i<length (kg_edges g). flows g C i \<longrightarrow> edge_to (kg_edges g ! i) \<noteq> k)"
    unfolding pass1_step_lookup incoming_lookup(2)
    by (auto simp: Let_def filter_empty_conv split: if_splits)
  then show ?thesis by (auto simp: map_of_eq_None_iff)
qed

lemma pass1_step_distinct:
  "distinct (map fst decayed) \<Longrightarrow> distinct (map fst (pass1_step g C rep claims groups dis base decayed t))"
proof -
  have "distinct (map fst m) \<Longrightarrow>
      distinct (map fst (foldl (\<lambda>m (target, contribs). AList.update target (f m target contribs) m) m inc))"
    for m :: trust_map and f and inc :: "(ClaimArenaId \<times> evidence list) list"
    by (induction inc arbitrary: m) (auto intro: distinct_update)
  then show "distinct (map fst decayed) \<Longrightarrow> ?thesis"
    unfolding pass1_step_def apply_support_def Let_def .
qed

lemma relpow_empty_mono:
  fixes R :: "('a \<times> 'a) set"
  shows "R ^^ Suc n = {} \<Longrightarrow> n \<le> m \<Longrightarrow> R ^^ Suc m = {}"
proof -
  assume "R ^^ Suc n = {}" "n \<le> m"
  moreover have "R ^^ Suc m = R ^^ Suc n O R ^^ (m - n)"
    using \<open>n \<le> m\<close> relpow_add [of "Suc n" "m - n" R] by simp
  ultimately show ?thesis by simp
qed

lemma pass1_fixed_point:
  defines "step \<equiv> \<lambda>g rep claims groups dis base decayed. pass1_step g (cyclic_edge_indices g) rep claims groups dis base decayed"
  assumes "acyclic_part g ^^ Suc D = {}" "D \<le> n" "distinct (map fst decayed)"
  shows "trust_of (step g rep claims groups dis base decayed (pass1_loop (step g rep claims groups dis base decayed) n decayed)) k
    = trust_of (pass1_loop (step g rep claims groups dis base decayed) n decayed) k"
proof -
  let ?step = "pass1_step g (cyclic_edge_indices g) rep claims groups dis base decayed"
  let ?R = "acyclic_part g"
  have local: "trust_of (?step t) k = trust_of (?step t') k" if "\<And>u. (u, k) \<in> ?R \<Longrightarrow> trust_of t u = trust_of t' u"
    for t t' k
    using pass1_step_local [of k g "cyclic_edge_indices g" t t'] that
    by (simp add: trust_of_def [of "?step _"] acyclic_part_def)
  have start: "trust_of (?step decayed) k = trust_of decayed k" if "k \<notin> Range ?R" for k
  proof -
    have "\<not> (\<exists>i<length (kg_edges g). flows g (cyclic_edge_indices g) i \<and> edge_to (kg_edges g ! i) = k)"
      using that by (auto simp: acyclic_part_def kept_rel_def flows_def)
    then have "map_of (incoming g (cyclic_edge_indices g) rep claims groups decayed) k = None"
      by (auto simp: incoming_lookup(2) Let_def filter_empty_conv)
    then show ?thesis by (simp add: trust_of_def pass1_step_lookup)
  qed
  have "trust_of (?step (pass1_loop ?step n decayed)) k = trust_of (pass1_loop ?step n decayed) k"
    using pass1_loop_cases [of ?step n decayed]
  proof (elim disjE exE conjE)
    assume "pass1_loop ?step n decayed = (?step ^^ n) decayed"
    moreover have "k \<notin> Range (?R ^^ Suc n)" using relpow_empty_mono [OF assms(2,3)] by auto
    ultimately show ?thesis using iterate_stable [of ?R ?step decayed k n, OF local start] by simp
  next
    fix m
    let ?t = "(?step ^^ m) decayed"
    assume r: "pass1_loop ?step n decayed = ?step ?t" "\<not> trust_changed ?t (?step ?t)"
    have "fst ` set ?t \<subseteq> fst ` set (?step ?t)"
      by (cases m) (auto simp: pass1_step_keys subset_iff simp del: image_iff)
    then have "trust_of ?t u = trust_of (?step ?t) u" for u
      using r(2) pass1_step_distinct [OF assms(4)] by (intro not_changed)
    then show ?thesis unfolding r(1) by (intro local) simp
  qed
  then show ?thesis by (simp add: step_def)
qed

text \<open>The depth of a graph is below the number of its nodes.\<close>

lemma acyclic_depth:
  assumes "acyclic R" "finite (Field R)"
  shows "R ^^ Suc (card (Field R) - 1) = {}"
proof (rule ccontr)
  define n where "n = card (Field R) - 1"
  let ?n = "Suc n"
  assume "R ^^ Suc (card (Field R) - 1) \<noteq> {}"
  then have "R ^^ ?n \<noteq> {}" unfolding n_def .
  then obtain f where f: "\<forall>i<?n. (f i, f (Suc i)) \<in> R" by (auto simp: relpow_fun_conv simp del: relpow.simps)
  have chain: "(f i, f (i + Suc d)) \<in> R\<^sup>+" if "i + Suc d \<le> ?n" for i d
    using that
  proof (induction d)
    case 0
    then show ?case using f by auto
  next
    case (Suc d)
    then have "(f (i + Suc d), f (i + Suc (Suc d))) \<in> R" using f by simp
    with Suc show ?case by (auto intro: trancl_into_trancl)
  qed
  have "inj_on f {0..?n}"
  proof (rule inj_onI, rule ccontr)
    fix i j assume ij: "i \<in> {0..?n}" "j \<in> {0..?n}" "f i = f j" "i \<noteq> j"
    have "False" if "i < j" "j \<le> ?n" "f i = f j" for i j
      using chain [of i "j - i - 1"] that assms(1) by (simp add: acyclic_def)
    then show False using ij by (metis atLeastAtMost_iff linorder_neqE_nat)
  qed
  moreover have "f ` {0..?n} \<subseteq> Field R"
  proof
    fix x assume "x \<in> f ` {0..?n}"
    then obtain i where i: "x = f i" "i \<le> ?n" by auto
    show "x \<in> Field R"
    proof (cases "i < ?n")
      case True
      then show ?thesis using f i by (auto intro: FieldI1)
    next
      case False
      then have "(f n, f i) \<in> R" using f i by (simp add: le_Suc_eq)
      then show ?thesis using i by (auto intro: FieldI2)
    qed
  qed
  ultimately have "card {0..?n} \<le> card (Field R)"
    using assms(2) by (metis card_image card_mono)
  then show False by (simp add: n_def)
qed

text \<open>The longest path of the support graph without the edges that the cycle detection marks.\<close>

lemma acyclic_part_depth:
  assumes "kg_valid g"
  obtains D where "acyclic_part g ^^ D \<noteq> {}" "acyclic_part g ^^ Suc D = {}" "D \<le> length (all_nodes g) - 1"
proof -
  let ?R = "acyclic_part g" let ?P = "\<lambda>D. ?R ^^ Suc D = {}"
  have field: "Field ?R \<subseteq> set (all_nodes g)"
    by (auto simp: acyclic_part_def kept_rel_def Field_def set_all_nodes)
  then have fin: "finite (Field ?R)" by (rule finite_subset) simp
  note last = acyclic_depth [OF acyclic_part [OF assms] fin]
  have "card (Field ?R) \<le> length (all_nodes g)"
    using card_mono [OF finite_set field] card_length [of "all_nodes g"] by linarith
  then have "(LEAST D. ?P D) \<le> length (all_nodes g) - 1" using Least_le [of ?P, OF last] by linarith
  moreover have "?P (LEAST D. ?P D)" by (rule LeastI [of ?P, OF last])
  moreover have "?R ^^ (LEAST D. ?P D) \<noteq> {}"
  proof (cases "LEAST D. ?P D")
    case (Suc k)
    then have "\<not> ?P k" using not_less_Least [of k ?P] by simp
    then show ?thesis using Suc by simp
  next
    case 0
    then show ?thesis by (simp only: relpow.simps) blast
  qed
  ultimately show ?thesis using that by blast
qed

lemma decay_base_keys [simp]: "map fst (decay_base claims now half base) = map fst base"
  by (simp add: decay_base_def case_prod_unfold comp_def)

lemma propagate_eq:
  "propagate_trust_correlated B g base max_iterations damping claims rep now half dis =
     Some (pass2 g rep claims damping
       (pass1_loop
         (pass1_step g (cyclic_edge_indices g) rep claims
           (map (group_of B (set claims) DEFAULT_SUPPORT_THRESHOLD) claims) dis base
           (decay_base claims now half base))
         (unat max_iterations) (decay_base claims now half base)))"
  by (simp add: propagate_trust_correlated_def correlation_groups_eq Let_def)

section \<open>Temporal decay\<close>

lemma decay_value_range:
  assumes v: "0 \<le> lo_val v"
  shows "0 \<le> lo_val (decay_value claims now half a v) \<and> lo_val (decay_value claims now half a v) \<le> lo_val v"
proof -
  have d: "0 \<le> drop_bit n (lo_val v) \<and> drop_bit n (lo_val v) \<le> lo_val v" for n
    using v zdiv_mono2 [of "lo_val v" 1 "2 ^ n"]
    by (simp add: drop_bit_eq_div pos_imp_zdiv_nonneg_iff)
  have "lo_val (lo_new (drop_bit n (lo_val v))) = drop_bit n (lo_val v)" for n
    using d [of n] lo_val_in_i32(2) [of v]
    by (intro lo_val_new conjI) (simp_all only: i32_min_def, linarith+)
  then show ?thesis using v d by (simp add: decay_value_def Let_def)
qed

text \<open>A claim whose age is a full half-life counts at most half.\<close>

lemma decay_halves:
  assumes "0 \<le> lo_val v" "unat a < length claims" "half > 0"
    and "half \<le> usub_sat now (claim_tick (claims ! unat a))"
  shows "2 * lo_val (decay_value claims now half a v) \<le> lo_val v"
proof -
  let ?steps = "usub_sat now (claim_tick (claims ! unat a)) div half"
  have pos: "0 < ?steps"
    using assms(3,4) by (simp add: word_less_nat_alt word_le_nat_alt unat_div div_greater_zero_iff)
  then have "1 \<le> unat (min ?steps 30)" by (simp add: min_def word_less_nat_alt)
  then obtain n where n: "unat (min ?steps 30) = Suc n" by (cases "unat (min ?steps 30)") auto
  have d: "2 * drop_bit (Suc n) (lo_val v) \<le> lo_val v \<and> 0 \<le> drop_bit (Suc n) (lo_val v)"
    using assms(1) zdiv_mono2 [of "lo_val v" 2 "2 ^ Suc n"]
    by (simp add: drop_bit_eq_div pos_imp_zdiv_nonneg_iff del: drop_bit_Suc)
  then have "lo_val (lo_new (drop_bit (Suc n) (lo_val v))) = drop_bit (Suc n) (lo_val v)"
    using lo_val_in_i32(2) [of v]
    by (intro lo_val_new conjI) (simp_all only: i32_min_def, linarith+)
  then show ?thesis using d pos assms(2) n by (simp add: decay_value_def Let_def del: drop_bit_Suc)
qed

section \<open>Properties\<close>

text \<open>
  C10: Trust propagation never fails, and it ends at a fixed point when it has iterations enough. Without
  the edges that cycle detection marks, the support graph of any graph that \<open>add_edge\<close> builds has a
  longest path, of D edges, fewer than it has nodes. With at least D iterations one more iteration of
  pass 1 would change the trust of no claim, so that many iterations as nodes always suffice, and
  contradictions are subtracted once, from that fixed point.
\<close>

theorem propagation_converges:
  assumes "kg_valid g" "distinct (map fst base)"
  shows "\<exists>D t. acyclic_part g ^^ D \<noteq> {} \<and> acyclic_part g ^^ Suc D = {} \<and> D \<le> length (all_nodes g) - 1
    \<and> propagate_trust_correlated B g base max_iterations damping claims rep now half dis =
        Some (pass2 g rep claims damping t)
    \<and> (D \<le> unat max_iterations \<longrightarrow>
        (\<forall>k. trust_of (pass1_step g (cyclic_edge_indices g) rep claims
            (map (group_of B (set claims) DEFAULT_SUPPORT_THRESHOLD) claims) dis base
            (decay_base claims now half base) t) k = trust_of t k))"
proof -
  from acyclic_part_depth [OF assms(1)] obtain D where
    D: "acyclic_part g ^^ D \<noteq> {}" "acyclic_part g ^^ Suc D = {}" "D \<le> length (all_nodes g) - 1" .
  have "distinct (map fst (decay_base claims now half base))" using assms(2) by simp
  note still = pass1_fixed_point [OF D(2) _ this]
  show ?thesis unfolding propagate_eq using D still by blast
qed

lemma mutual_graph_nodes: "kg_valid mutual_graph" "length (all_nodes mutual_graph) = 2"
  unfolding mutual_graph_def by (rule build_from_claims_eq)
    (simp add: all_nodes_def mutual_graph_edges [unfolded mutual_graph_def])

theorem propagation_converges_witness:
  "\<exists>t. propagate_trust_correlated sample_hash mutual_graph [(0, lo_new 4000)] 4 5000 [] (\<lambda>_. rep_FULL) 0 0 3000 =
      Some (pass2 mutual_graph (\<lambda>_. rep_FULL) [] 5000 t)
    \<and> trust_of (pass1_step mutual_graph (cyclic_edge_indices mutual_graph) (\<lambda>_. rep_FULL) [] [] 3000 [(0, lo_new 4000)]
        (decay_base [] 0 0 [(0, lo_new 4000)]) t) 1 = trust_of t 1"
proof -
  have "distinct (map fst [(0 :: u32, lo_new 4000)])" by simp
  from propagation_converges [OF mutual_graph_nodes(1) this, of sample_hash 4 5000 "[]" "\<lambda>_. rep_FULL" 0 0 3000]
  obtain D t where D: "D \<le> 1"
    and t: "propagate_trust_correlated sample_hash mutual_graph [(0, lo_new 4000)] 4 5000 [] (\<lambda>_. rep_FULL) 0 0 3000 =
        Some (pass2 mutual_graph (\<lambda>_. rep_FULL) [] 5000 t)"
    and still: "D \<le> unat (4 :: u8) \<longrightarrow> (\<forall>k. trust_of (pass1_step mutual_graph (cyclic_edge_indices mutual_graph) (\<lambda>_. rep_FULL) []
        (map (group_of sample_hash (set []) DEFAULT_SUPPORT_THRESHOLD) []) 3000 [(0, lo_new 4000)]
        (decay_base [] 0 0 [(0, lo_new 4000)]) t) k = trust_of t k)"
    unfolding mutual_graph_nodes(2) by auto
  have "D \<le> unat (4 :: u8)" using D by simp
  then show ?thesis using t still unfolding list.map(1) by blast
qed

text \<open>
  C6: Contradictions are capped. Whatever contradicting edges a graph has, pass 2 never raises the
  trust of a claim, and takes at most the damping share from a positive one, so it does not turn
  a positive trust negative for a damping of at most 100%.
\<close>

theorem contradiction_cap:
  assumes "0 < lo_val (trust_of t k)" "damping \<le> 10000"
  shows "lo_val (trust_of t k) - lo_val (trust_of t k) * uint damping div 10000
      \<le> lo_val (trust_of (pass2 g rep claims damping t) k)
    \<and> lo_val (trust_of (pass2 g rep claims damping t) k) \<le> lo_val (trust_of t k)
    \<and> 0 \<le> lo_val (trust_of (pass2 g rep claims damping t) k)"
proof -
  have "uint damping \<le> 10000" using assms(2) by (simp add: word_le_def)
  then have "lo_val (trust_of t k) * uint damping \<le> lo_val (trust_of t k) * 10000"
    using assms(1) by (intro mult_left_mono) simp_all
  then have "lo_val (trust_of t k) * uint damping div 10000 \<le> lo_val (trust_of t k)" by linarith
  then show ?thesis using pass2_bounds(1) [of g rep claims damping t k] pass2_bounds(2) [of t k damping g rep claims] assms(1) by auto
qed

theorem contradiction_cap_witness:
  "2000 \<le> lo_val (trust_of (pass2 mutual_graph (\<lambda>_. rep_FULL) [] 5000 [(1, lo_new 4000)]) 1)"
  using contradiction_cap [of "[(1, lo_new 4000)]" 1 5000 mutual_graph "\<lambda>_. rep_FULL" "[]"]
  by (simp add: trust_of_def)

text \<open>
  Untrusted sources have no voice. Adding any number of contradicting edges whose sources have
  no positive trust changes the trust of no claim: neither the penalties nor the damping ratio see
  them.
\<close>

theorem untrusted_contradictions_silent:
  assumes "kg_edges g' = kg_edges g @ es"
    and "\<forall>e\<in>set es. relation e = Contradicts \<and> lo_val (trust_of t (edge_from e)) \<le> 0"
  shows "trust_of (pass2 g' rep claims damping t) k = trust_of (pass2 g rep claims damping t) k"
  using assms by (rule pass2_silent)

theorem untrusted_contradictions_silent_witness:
  "let e = \<lparr>edge_from = 7, edge_to = 1, relation = Contradicts, strength = rep_FULL\<rparr>
   in trust_of (pass2 (add_edge mutual_graph e) (\<lambda>_. rep_FULL) [] 5000 [(1, lo_new 4000)]) 1
     = trust_of (pass2 mutual_graph (\<lambda>_. rep_FULL) [] 5000 [(1, lo_new 4000)]) 1"
  unfolding Let_def
  by (rule untrusted_contradictions_silent
      [where es = "[\<lparr>edge_from = 7, edge_to = 1, relation = Contradicts, strength = rep_FULL\<rparr>]"])
    (simp_all add: kg.edges_add trust_of_def)

text \<open>
  C30: Trust is divided, not copied. Over all the supporting edges that leave a claim, what is
  delivered sums to at most the claim's own positive trust, and each edge delivers a non-negative
  amount; a claim without positive trust delivers nothing.
\<close>

theorem trust_is_divided:
  assumes "kg_valid g" "\<forall>x. bps (rep x) \<le> 10000"
  shows "sum_list (map (contribution g C rep claims t)
      (filter (flows g C) (out_edges (kg_edges g) x))) \<le> max (lo_val (trust_of t x)) 0
    \<and> (\<forall>i\<in>set (filter (flows g C) (out_edges (kg_edges g) x)). 0 \<le> contribution g C rep claims t i)"
proof
  show "sum_list (map (contribution g C rep claims t)
      (filter (flows g C) (out_edges (kg_edges g) x))) \<le> max (lo_val (trust_of t x)) 0"
    using flow_conservation [of g rep C claims t x] assms by (simp add: source_trust_val)
  show "\<forall>i\<in>set (filter (flows g C) (out_edges (kg_edges g) x)). 0 \<le> contribution g C rep claims t i"
    using contribution_range(1) [OF assms(1)] assms(2) by (auto simp: out_edges_def)
qed

theorem trust_is_divided_witness:
  "sum_list (map (contribution mutual_graph {1} (\<lambda>_. rep_FULL) [] [(0, lo_new 4000)])
      (filter (flows mutual_graph {1}) (out_edges (kg_edges mutual_graph) 0))) \<le> 4000"
proof -
  have "kg_valid mutual_graph" unfolding mutual_graph_def by (rule build_from_claims_eq)
  then show ?thesis
    using trust_is_divided [of mutual_graph "\<lambda>_. rep_FULL" "{1}" "[]" "[(0, lo_new 4000)]" 0]
    by (simp add: trust_of_def rep_FULL_def)
qed

end
