(* ===== verification/Reducer.thy ===== *)
theory Reducer
  imports Correlation Reputation_Tracking
begin

text \<open>
  Semantic reduction (\<open>ExactMatchReducer\<close> in \<open>aimp_node/src/epistemic.rs\<close>, lines 1720-1734 and
  1782-2184): plain reduction, reduction weighted by reputation with correlation groups, and the
  epoch-aligned bucketing. The locale \<open>claim_reducer\<close> states what replicas need of a reducer to
  compact the same claims to the same summaries. BLAKE3 is the parameter \<open>B\<close>, the reputation
  tracker the function \<open>rep\<close>; \<open>i128\<close> intermediates fit and are integers.
\<close>

section \<open>The code\<close>

definition can_reduce :: "Claim list \<Rightarrow> bool" where
  "can_reduce claims \<longleftrightarrow>
     \<not> length claims < 2 \<and> (let key = fingerprint (hd claims) in \<forall>c\<in>set claims. fingerprint c = key)"

text \<open>\<open>dedup_by_key(|c| c.id)\<close>: of neighbours with the same id the first stays.\<close>

fun dedup_by_id :: "Claim list \<Rightarrow> Claim list" where
  "dedup_by_id (x # y # zs) =
     (if claim_id x = claim_id y then dedup_by_id (x # zs) else x # dedup_by_id (y # zs))"
| "dedup_by_id xs = xs"

definition sorted_claims :: "Claim list \<Rightarrow> Claim list" where
  "sorted_claims claims = dedup_by_id (sort_key claim_id claims)"

definition le_bytes32 :: "u32 \<Rightarrow> bytes" where
  "le_bytes32 w = map (\<lambda>i. ucast (drop_bit (8 * i) w)) [0..<4]"

subsection \<open>Statistics of a summary\<close>

definition evidence_mean :: "LogOdds \<Rightarrow> LogOdds list \<Rightarrow> int" where
  "evidence_mean aggregated evidence =
     (let n = int (length evidence) in if n > 0 then lo_val aggregated sdiv n else 0)"

definition evidence_variance :: "LogOdds \<Rightarrow> LogOdds list \<Rightarrow> 64 word" where
  "evidence_variance aggregated evidence =
     (let n = int (length evidence); mean = evidence_mean aggregated evidence
      in if n > 1
         then let sum_sq = sum_list (map (\<lambda>lo. (lo_val lo - mean) * (lo_val lo - mean)) evidence)
              in word_of_int (clampi i64_min i64_max (sum_sq sdiv n))
         else 0)"

definition min_or :: "'a::linorder \<Rightarrow> 'a list \<Rightarrow> 'a" where
  "min_or d xs = (if xs = [] then d else Min (set xs))"

definition max_or :: "'a::linorder \<Rightarrow> 'a list \<Rightarrow> 'a" where
  "max_or d xs = (if xs = [] then d else Max (set xs))"

definition summary_id ::
  "blake3 \<Rightarrow> Claim \<Rightarrow> nat \<Rightarrow> u64 \<Rightarrow> u64 \<Rightarrow> LogOdds \<Rightarrow> 64 word \<Rightarrow> ClaimHash" where
  "summary_id B c n_sources t_start t_end aggregated variance =
     B (fp_primary (fingerprint c) @ le_bytes32 (of_nat n_sources) @ le_bytes64 t_start @ le_bytes64 t_end
        @ le_bytes32 (word_of_int (lo_val aggregated)) @ le_bytes64 variance
        @ (case correlation_cell c of Some cell \<Rightarrow> le_bytes64 (cell_key cell) | None \<Rightarrow> []))"

definition build_summary ::
  "blake3 \<Rightarrow> nat \<Rightarrow> Claim list \<Rightarrow> bytes \<Rightarrow> nat \<Rightarrow> LogOdds list \<Rightarrow> LogOdds \<Rightarrow> Claim" where
  "build_summary B n_claims ordered data n_sources evidence aggregated =
     (let c = hd ordered;
          variance = evidence_variance aggregated evidence;
          t_start = min_or 0 (map claim_tick ordered);
          t_end = max_or 0 (map claim_tick ordered);
          i = summary_id B c n_sources t_start t_end aggregated variance
      in \<lparr>claim_id = i, fingerprint = fingerprint c, claim_origin = replicate 32 0,
          kind = Summary (of_nat n_claims) t_start t_end data aggregated (of_nat n_sources) variance
            (min_or NEUTRAL evidence) (max_or NEUTRAL evidence),
          confidence = aggregated, evidence_source = i, claim_tick = t_end,
          correlation_cell = correlation_cell c, embedding = None, embedding_version = 0\<rparr>)"

subsection \<open>Plain reduction\<close>

text \<open>\<open>max_by_key\<close>: of several maxima the last one.\<close>

fun max_by_key :: "('a \<Rightarrow> 'k::linorder) \<Rightarrow> 'a list \<Rightarrow> 'a option" where
  "max_by_key k [] = None"
| "max_by_key k (x # xs) =
     (case max_by_key k xs of None \<Rightarrow> Some x | Some y \<Rightarrow> if k y \<ge> k x then Some y else Some x)"

definition summary_window :: "Claim \<Rightarrow> ((u64 \<times> LogOdds) \<times> bytes) option" where
  "summary_window c =
     (case kind c of Summary _ ts te d lo _ _ _ _ \<Rightarrow> Some ((te - ts, lo), d) | _ \<Rightarrow> None)"

definition reduced_data :: "Claim list \<Rightarrow> bytes option" where
  "reduced_data ordered =
     (case kind (hd ordered) of
        Observation _ d \<Rightarrow> Some d
      | Summary _ _ _ d _ _ _ _ _ \<Rightarrow>
          (case max_by_key fst (List.map_filter summary_window ordered) of
             Some (_, best) \<Rightarrow> Some best
           | None \<Rightarrow> Some d)
      | _ \<Rightarrow> None)"

definition source_step ::
  "ClaimHash list \<times> LogOdds list \<Rightarrow> Claim \<Rightarrow> ClaimHash list \<times> LogOdds list" where
  "source_step st c =
     (case st of (sources, evidence) \<Rightarrow>
        if evidence_source c \<in> set sources then st
        else (sources @ [evidence_source c], evidence @ [declared_confidence c]))"

definition reduce :: "blake3 \<Rightarrow> Claim list \<Rightarrow> Claim option" where
  "reduce B claims =
     (if \<not> can_reduce claims then None
      else let ordered = sorted_claims claims
           in case reduced_data ordered of
                None \<Rightarrow> None
              | Some data \<Rightarrow>
                  let (sources, evidence) = foldl source_step ([], []) ordered;
                      aggregated = aggregate evidence
                  in Some (build_summary B (length claims) ordered data (length sources) evidence aggregated))"

definition group_key :: "Claim \<Rightarrow> u64" where
  "group_key c = fp_secondary (fingerprint c)"

definition lossiness :: u8 where "lossiness = 10"

subsection \<open>Reduction weighted by reputation\<close>

definition first_data :: "Claim list \<Rightarrow> bytes option" where
  "first_data ordered =
     (case kind (hd ordered) of
        Observation _ d \<Rightarrow> Some d
      | Summary _ _ _ d _ _ _ _ _ \<Rightarrow> Some d
      | _ \<Rightarrow> None)"

definition weighted_step ::
  "(bytes \<Rightarrow> Reputation) \<Rightarrow> ClaimHash list \<times> evidence list \<Rightarrow> Claim \<times> CorrelationGroup
    \<Rightarrow> ClaimHash list \<times> evidence list" where
  "weighted_step rep st cg =
     (case st of (sources, evidence) \<Rightarrow> case cg of (c, grp) \<Rightarrow>
        let r = rep (claim_origin c)
        in if bps r = 0 then st
           else if evidence_source c \<in> set sources then st
           else (sources @ [evidence_source c],
                 evidence @ [(weight_evidence r (declared_confidence c), grp, claim_id c)]))"

definition reduce_with_reputation_correlated ::
  "blake3 \<Rightarrow> Claim list \<Rightarrow> (bytes \<Rightarrow> Reputation) \<Rightarrow> u16 \<Rightarrow> Claim option" where
  "reduce_with_reputation_correlated B claims rep discount_bps =
     (if \<not> can_reduce claims then None
      else let ordered = sorted_claims claims
           in case first_data ordered of
                None \<Rightarrow> None
              | Some data \<Rightarrow>
                  (case correlation_groups B ordered 30 of
                     None \<Rightarrow> None
                   | Some groups \<Rightarrow>
                       let (sources, evidence) = foldl (weighted_step rep) ([], []) (zip ordered groups)
                       in if evidence = [] then None
                          else let aggregated = aggregate_hierarchical evidence discount_bps UNASSESSED_DISCOUNT_BPS
                               in Some (build_summary B (length claims) ordered data (length sources)
                                    (map fst evidence) aggregated)))"

definition reduce_with_reputation :: "blake3 \<Rightarrow> Claim list \<Rightarrow> (bytes \<Rightarrow> Reputation) \<Rightarrow> Claim option" where
  "reduce_with_reputation B claims rep = reduce_with_reputation_correlated B claims rep DEFAULT_DISCOUNT_BPS"

subsection \<open>Epoch-aligned reduction\<close>

definition bucket_key :: "u64 \<Rightarrow> Claim \<Rightarrow> u64 \<times> u64 option" where
  "bucket_key grid_size c = (claim_tick c div grid_size, map_option cell_key (correlation_cell c))"

definition buckets :: "u64 \<Rightarrow> Claim list \<Rightarrow> ((u64 \<times> u64 option) \<times> Claim list) list" where
  "buckets grid_size claims = bt_fold (bucket_key grid_size) (\<lambda>_. []) (\<lambda>c cs. cs @ [c]) claims"

definition reduce_epoch_aligned_correlated ::
  "blake3 \<Rightarrow> Claim list \<Rightarrow> u64 \<Rightarrow> (bytes \<Rightarrow> Reputation) option \<Rightarrow> u16 \<Rightarrow> Claim list" where
  "reduce_epoch_aligned_correlated B claims grid_size reputations discount_bps =
     (if grid_size = 0 \<or> length claims < 2 then []
      else List.map_filter
        (\<lambda>(_, cs). case reputations of
            Some rep \<Rightarrow> reduce_with_reputation_correlated B cs rep discount_bps
          | None \<Rightarrow> reduce B cs)
        (buckets grid_size claims))"

definition reduce_epoch_aligned ::
  "blake3 \<Rightarrow> Claim list \<Rightarrow> u64 \<Rightarrow> (bytes \<Rightarrow> Reputation) option \<Rightarrow> Claim list" where
  "reduce_epoch_aligned B claims grid_size reputations =
     reduce_epoch_aligned_correlated B claims grid_size reputations DEFAULT_DISCOUNT_BPS"

section \<open>Sorted and deduplicated claims\<close>

lemma dedup_by_id_sub: "set (dedup_by_id xs) \<subseteq> set xs"
  by (induction xs rule: dedup_by_id.induct) auto

lemma dedup_by_id_ids: "claim_id ` set (dedup_by_id xs) = claim_id ` set xs"
  by (induction xs rule: dedup_by_id.induct) auto

lemma dedup_by_id_Nil [simp]: "dedup_by_id xs = [] \<longleftrightarrow> xs = []"
  by (induction xs rule: dedup_by_id.induct) auto

lemma dedup_by_id_sorted:
  "sorted (map claim_id xs) \<Longrightarrow> sorted_wrt (<) (map claim_id (dedup_by_id xs))"
proof (induction xs rule: dedup_by_id.induct)
  case (1 x y zs)
  have "\<forall>z\<in>claim_id ` set (dedup_by_id (y # zs)). claim_id y \<le> z"
    using 1(3) unfolding dedup_by_id_ids by auto
  then show ?case using 1 by (cases "claim_id x = claim_id y") force+
qed simp_all

lemma sorted_claims_ids: "sorted_wrt (<) (map claim_id (sorted_claims claims))"
  unfolding sorted_claims_def by (intro dedup_by_id_sorted sorted_sort_key)

lemma sorted_claims_distinct: "distinct (map claim_id (sorted_claims claims))"
  using sorted_claims_ids strict_sorted_iff by blast

lemma set_sorted_claims: "set (sorted_claims claims) \<subseteq> set claims"
  using dedup_by_id_sub [of "sort_key claim_id claims"] by (simp add: sorted_claims_def)

lemma sorted_claims_Nil [simp]: "sorted_claims claims = [] \<longleftrightarrow> claims = []"
  by (metis dedup_by_id_Nil length_0_conv length_sort sorted_claims_def)

lemma sorted_claims_cong:
  assumes "set claims = set claims'" "inj_on claim_id (set claims)"
  shows "sorted_claims claims = sorted_claims claims'"
proof -
  have ids: "map claim_id (sorted_claims cs) = sorted_list_of_set (claim_id ` set cs)" for cs
    using sorted_claims_ids [of cs] dedup_by_id_ids [of "sort_key claim_id cs"]
      strict_sorted_equal [of "sorted_list_of_set (claim_id ` set cs)" "map claim_id (sorted_claims cs)"]
    by (simp add: sorted_claims_def)
  then have "map claim_id (sorted_claims claims) = map claim_id (sorted_claims claims')"
    using assms(1) by simp
  then show ?thesis
  proof (rule map_inj_on)
    show "inj_on claim_id (set (sorted_claims claims) \<union> set (sorted_claims claims'))"
      using set_sorted_claims assms by (metis inj_on_subset le_sup_iff)
  qed
qed

section \<open>Order and repetition of the input\<close>

lemma can_reduce_fingerprint: "can_reduce claims \<Longrightarrow> c \<in> set claims \<Longrightarrow> fingerprint c = fingerprint (hd claims)"
  by (simp add: can_reduce_def Let_def)

lemma can_reduce_iff:
  "can_reduce claims \<longleftrightarrow> 2 \<le> length claims \<and> (\<forall>c\<in>set claims. \<forall>c'\<in>set claims. fingerprint c = fingerprint c')"
proof (cases claims)
  case (Cons x xs)
  have "(\<forall>c\<in>set claims. fingerprint c = fingerprint x) \<longleftrightarrow>
      (\<forall>c\<in>set claims. \<forall>c'\<in>set claims. fingerprint c = fingerprint c')"
    unfolding Cons by (metis list.set_intros(1))
  moreover have "can_reduce claims \<longleftrightarrow> 2 \<le> length claims \<and> (\<forall>c\<in>set claims. fingerprint c = fingerprint x)"
    unfolding can_reduce_def Let_def by (simp add: Cons not_less Suc_le_eq)
  ultimately show ?thesis by (simp only:)
qed (simp add: can_reduce_def)

lemma can_reduce_perm:
  assumes "mset claims = mset claims'"
  shows "can_reduce claims = can_reduce claims'"
  unfolding can_reduce_iff mset_eq_length [OF assms] mset_eq_setD [OF assms] ..

definition ids_determine :: "Claim list \<Rightarrow> bool" where
  "ids_determine claims \<longleftrightarrow> inj_on claim_id (set claims)"

lemma reduce_perm [order_free]:
  assumes "ids_determine claims" "mset claims = mset claims'"
  shows "reduce B claims = reduce B claims'"
proof -
  have "sorted_claims claims = sorted_claims claims'"
    using assms mset_eq_setD [OF assms(2)] by (intro sorted_claims_cong) (auto simp: ids_determine_def)
  then show ?thesis
    unfolding reduce_def by (simp only: can_reduce_perm [OF assms(2)] mset_eq_length [OF assms(2)])
qed

lemma reduce_with_reputation_perm [order_free]:
  assumes "ids_determine claims" "mset claims = mset claims'"
  shows "reduce_with_reputation_correlated B claims rep d = reduce_with_reputation_correlated B claims' rep d"
proof -
  have "sorted_claims claims = sorted_claims claims'"
    using assms mset_eq_setD [OF assms(2)] by (intro sorted_claims_cong) (auto simp: ids_determine_def)
  then show ?thesis
    unfolding reduce_with_reputation_correlated_def
    by (simp only: can_reduce_perm [OF assms(2)] mset_eq_length [OF assms(2)])
qed

section \<open>The interface of a reducer\<close>

text \<open>
  A reducer gives replicas that hold the same claims the same summary. The client lemma is the
  epoch-aligned reduction: bucketing keeps the property, because the buckets of two permutations
  are permutations of each other.
\<close>

locale claim_reducer =
  fixes red :: "Claim list \<Rightarrow> Claim option"
  assumes order: "ids_determine claims \<Longrightarrow> mset claims = mset claims' \<Longrightarrow> red claims = red claims'"
begin

definition reduce_buckets :: "u64 \<Rightarrow> Claim list \<Rightarrow> Claim list" where
  "reduce_buckets grid_size claims = List.map_filter (\<lambda>(_, cs). red cs) (buckets grid_size claims)"

lemma buckets_eq:
  "buckets grid_size claims =
     map (\<lambda>k. (k, filter (\<lambda>c. bucket_key grid_size c = k) claims))
       (sorted_list_of_set (bucket_key grid_size ` set claims))"
proof -
  have "foldl (\<lambda>v e. v @ [e]) acc ys = acc @ ys" for acc ys :: "Claim list"
    by (induction ys arbitrary: acc) simp_all
  then show ?thesis by (simp add: buckets_def bt_fold_eq group_fold_def)
qed

lemma reduce_buckets_order:
  assumes "ids_determine claims" "mset claims = mset claims'"
  shows "reduce_buckets g claims = reduce_buckets g claims'"
proof -
  have "red (filter (\<lambda>c. bucket_key g c = k) claims) = red (filter (\<lambda>c. bucket_key g c = k) claims')" for k
    using assms by (intro order mset_filter_cong) (auto simp: ids_determine_def intro: inj_on_subset)
  then show ?thesis
    using mset_eq_setD [OF assms(2)] by (simp add: reduce_buckets_def buckets_eq List.map_filter_def filter_map comp_def)
qed

end

interpretation plain_reducer: claim_reducer "reduce B" for B
  by unfold_locales (rule reduce_perm)

interpretation weighted_reducer: claim_reducer "\<lambda>cs. reduce_with_reputation_correlated B cs rep d" for B rep d
  by unfold_locales (rule reduce_with_reputation_perm)

lemma reduce_epoch_aligned_eq:
  "reduce_epoch_aligned_correlated B claims g reps d =
     (if g = 0 \<or> length claims < 2 then []
      else case reps of
        Some rep \<Rightarrow> weighted_reducer.reduce_buckets B rep d g claims
      | None \<Rightarrow> plain_reducer.reduce_buckets B g claims)"
  by (auto simp: reduce_epoch_aligned_correlated_def weighted_reducer.reduce_buckets_def
      plain_reducer.reduce_buckets_def split: option.split)

section \<open>What enters a summary\<close>

lemma weighted_fold:
  "foldl (weighted_step rep) (srcs, ev) cgs = (srcs', ev') \<Longrightarrow>
     set ev' \<subseteq> set ev \<union> {(weight_evidence (rep (claim_origin c)) (declared_confidence c), g, claim_id c) | c g.
        (c, g) \<in> set cgs \<and> bps (rep (claim_origin c)) \<noteq> 0}
     \<and> length ev' \<le> length ev + length cgs
     \<and> (distinct srcs \<longrightarrow> distinct srcs') \<and> (length ev = length srcs \<longrightarrow> length ev' = length srcs')"
proof (induction cgs arbitrary: srcs ev)
  case (Cons cg cgs)
  obtain c g where cg: "cg = (c, g)" by (cases cg)
  from Cons.IH Cons.prems show ?case
    by (auto simp: cg weighted_step_def Let_def split: if_splits) (fastforce | force)+
qed simp

lemma assessed_keys_one:
  assumes "\<forall>e\<in>set ev. \<exists>c\<in>C. fst (snd e) = group_of B C t c"
    and "\<forall>c\<in>C. \<forall>c'\<in>C. content c = content c'"
  shows "length (assessed_keys ev) \<le> 1"
proof -
  have grp: "\<exists>c\<in>C. cg_assessed (group_of B C t c) \<and> k = cg_key (group_of B C t c)"
    if "k \<in> set (assessed_keys ev)" for k
  proof -
    have "k \<in> evidence_key ` set ev" and a: "group_assessed ev k"
      using that by (simp_all add: assessed_keys_def group_keys_def)
    then obtain e where e: "e \<in> set ev" "evidence_key e = k" by blast
    then obtain c where c: "c \<in> C" "fst (snd e) = group_of B C t c" using assms(1) by blast
    obtain lo g i where lgi: "e = (lo, g, i)" by (cases e)
    then have g: "g = group_of B C t c" "cg_key g = k" using c e(2) by (simp_all add: evidence_key_def)
    have "cg_assessed g" using a e(1) g(2) unfolding group_assessed_def lgi by blast
    then show ?thesis using c(1) g by blast
  qed
  have one: "k = k'" if k: "k \<in> set (assessed_keys ev)" "k' \<in> set (assessed_keys ev)" for k k'
  proof -
    obtain c c' where c: "c \<in> C" "cg_assessed (group_of B C t c)" "k = cg_key (group_of B C t c)"
      "c' \<in> C" "cg_assessed (group_of B C t c')" "k' = cg_key (group_of B C t c')"
      using grp k by metis
    have "embedding c \<noteq> None" "embedding c' \<noteq> None"
      using c(2,5) by (simp_all add: group_of_def assessable_def split: if_splits)
    moreover have "content c = content c'" using assms(2) c(1,4) by blast
    ultimately have "group_of B C t c = group_of B C t c'"
      using same_content_group [of c C c' B t] c by blast
    then show ?thesis using c(3,6) by simp
  qed
  have "distinct (assessed_keys ev)" by (simp add: assessed_keys_def group_keys_def)
  then have "length (assessed_keys ev) = card (set (assessed_keys ev))" by (simp add: distinct_card)
  also have "\<dots> \<le> 1" using one by (simp add: card_le_Suc0_iff_eq)
  finally show ?thesis .
qed

lemma zip_map_self: "zip xs (map f xs) = map (\<lambda>x. (x, f x)) xs"
  by (induction xs) simp_all

text \<open>What is known of the evidence of a weighted reduction.\<close>

lemma reduce_with_reputation_evidence:
  assumes "reduce_with_reputation_correlated B claims rep d = Some s"
  obtains srcs ev data where
    "foldl (weighted_step rep) ([], []) (map (\<lambda>c. (c, group_of B (set (sorted_claims claims)) 30 c)) (sorted_claims claims)) = (srcs, ev)"
    "ev \<noteq> []" "can_reduce claims"
    "s = build_summary B (length claims) (sorted_claims claims) data (length srcs) (map fst ev)
       (aggregate_hierarchical ev d UNASSESSED_DISCOUNT_BPS)"
  using assms that
  by (auto simp: reduce_with_reputation_correlated_def correlation_groups_eq zip_map_self Let_def
      split: if_splits option.splits prod.splits)

lemma build_summary_aggregated:
  "aggregated_logodds (kind (build_summary B n ordered data m ev agg)) = agg"
  "confidence (build_summary B n ordered data m ev agg) = agg"
  by (simp_all add: build_summary_def Let_def)

lemma length_dedup_by_id: "length (dedup_by_id xs) \<le> length xs"
  by (induction xs rule: dedup_by_id.induct) auto

lemma length_sorted_claims: "length (sorted_claims claims) \<le> length claims"
  using length_dedup_by_id [of "sort_key claim_id claims"] by (simp add: sorted_claims_def)

lemma summary_ceiling:
  assumes red: "reduce_with_reputation_correlated B claims rep DEFAULT_DISCOUNT_BPS = Some s"
    and rep: "\<forall>x. bps (rep x) \<le> 10000" and len: "length claims \<le> 4294967295"
  shows "\<bar>lo_val (confidence s)\<bar> \<le> 118404"
proof -
  obtain srcs ev data where ev: "foldl (weighted_step rep) ([], [])
      (map (\<lambda>c. (c, group_of B (set (sorted_claims claims)) 30 c)) (sorted_claims claims)) = (srcs, ev)"
    and ok: "can_reduce claims"
    and s: "confidence s = aggregate_hierarchical ev DEFAULT_DISCOUNT_BPS UNASSESSED_DISCOUNT_BPS"
    by (rule reduce_with_reputation_evidence [OF red]) (simp add: build_summary_aggregated)
  let ?C = "set (sorted_claims claims)"
  have sub: "set ev \<subseteq> {(weight_evidence (rep (claim_origin c)) (declared_confidence c), g, claim_id c) | c g.
      c \<in> ?C \<and> g = group_of B ?C 30 c}"
    using weighted_fold [OF ev] by auto
  have "length ev \<le> length (sorted_claims claims)" using weighted_fold [OF ev] by simp
  then have "length ev \<le> 4294967295" using len length_sorted_claims [of claims] by linarith
  moreover have "\<forall>e\<in>set ev. \<bar>lo_val (fst e)\<bar> \<le> 13816"
  proof
    fix e assume "e \<in> set ev"
    then obtain c where "fst e = weight_evidence (rep (claim_origin c)) (declared_confidence c)" using sub by auto
    moreover have "\<bar>lo_val (weight_evidence (rep (claim_origin c)) (declared_confidence c))\<bar>
        \<le> \<bar>lo_val (declared_confidence c)\<bar>" using rep by (intro abs_weight_evidence_le) simp
    moreover have "\<bar>lo_val (declared_confidence c)\<bar> \<le> 13816"
      using clamp_declared_bound [of "confidence c"] by (simp add: declared_confidence_def MAX_DECLARED_def)
    ultimately show "\<bar>lo_val (fst e)\<bar> \<le> 13816" by simp
  qed
  moreover have "length (assessed_keys ev) \<le> 1"
  proof (rule assessed_keys_one)
    show "\<forall>e\<in>set ev. \<exists>c\<in>?C. fst (snd e) = group_of B ?C 30 c"
    proof
      fix e assume "e \<in> set ev"
      then obtain c where "c \<in> ?C" "fst (snd e) = group_of B ?C 30 c" using sub by auto
      then show "\<exists>c\<in>?C. fst (snd e) = group_of B ?C 30 c" by blast
    qed
    show "\<forall>c\<in>?C. \<forall>c'\<in>?C. content c = content c'"
      using ok set_sorted_claims [of claims] unfolding can_reduce_iff by (metis subsetD)
  qed
  ultimately have n: "int (length (assessed_keys ev)) \<le> 1" and
    "10000 * \<bar>lo_val (aggregate_hierarchical ev DEFAULT_DISCOUNT_BPS UNASSESSED_DISCOUNT_BPS)\<bar>
      \<le> 19734 * (10000 * int (length (assessed_keys ev)) + 50000)"
    using hierarchical_bound [of ev 13816] by simp_all
  note this(2)
  also have "\<dots> \<le> 19734 * (10000 * 1 + 50000)" using n by (intro mult_left_mono add_mono) simp_all
  finally show ?thesis unfolding s by simp
qed

section \<open>Evidence sources count once\<close>

lemma source_fold:
  "foldl source_step ([], []) xs = (srcs, ev) \<Longrightarrow>
     set srcs = evidence_source ` set xs \<and> distinct srcs \<and> length ev = length srcs
     \<and> set ev \<subseteq> declared_confidence ` set xs"
proof (induction xs arbitrary: srcs ev rule: rev_induct)
  case (snoc x xs)
  obtain srcs0 ev0 where f: "foldl source_step ([], []) xs = (srcs0, ev0)" by fastforce
  have "source_step (srcs0, ev0) x = (srcs, ev)" using snoc.prems f by simp
  with snoc.IH [OF f] show ?case
    by (auto simp: source_step_def split: if_splits)
qed simp

lemma aggregate_bound:
  assumes "\<forall>x\<in>set xs. \<bar>lo_val x\<bar> \<le> M"
  shows "\<bar>lo_val (aggregate xs)\<bar> \<le> int (length xs) * M"
proof -
  have "(\<Sum>x\<leftarrow>map lo_val xs. \<bar>x\<bar>) \<le> int (length xs) * M"
    using assms by (intro sum_list_abs_le) auto
  then show ?thesis
    unfolding aggregate_def
    using abs_sat_sum_le [of 0 "map lo_val xs"] abs_safe_clamp_le [of "sat_sum 0 (map lo_val xs)"] by linarith
qed

lemma set_sorted_claims_eq: "ids_determine claims \<Longrightarrow> set (sorted_claims claims) = set claims"
proof -
  assume inj: "ids_determine claims"
  have "claim_id ` set (sorted_claims claims) = claim_id ` set claims"
    by (simp add: sorted_claims_def dedup_by_id_ids)
  then show ?thesis
    using inj set_sorted_claims [of claims] unfolding ids_determine_def by (metis inj_on_image_eq_iff order_refl)
qed

lemma reduce_evidence:
  assumes "reduce B claims = Some s"
  obtains srcs ev data where "foldl source_step ([], []) (sorted_claims claims) = (srcs, ev)"
    "s = build_summary B (length claims) (sorted_claims claims) data (length srcs) ev (aggregate ev)"
  using assms that by (auto simp: reduce_def Let_def split: if_splits option.splits prod.splits)

section \<open>Properties\<close>

text \<open>
  C13: Replicas that hold the same claims compact them to the same summaries, in the same order,
  whatever order the claims arrived in, with or without reputations.
\<close>

theorem epoch_reduction_order_independent:
  assumes "ids_determine claims" "mset claims = mset claims'"
  shows "reduce_epoch_aligned_correlated B claims g reps d = reduce_epoch_aligned_correlated B claims' g reps d"
proof -
  have "length claims = length claims'" using assms(2) by (rule mset_eq_length)
  then show ?thesis
    using plain_reducer.reduce_buckets_order [OF assms, of B g]
      weighted_reducer.reduce_buckets_order [OF assms]
    by (auto simp: reduce_epoch_aligned_eq split: option.split)
qed

definition sample_observation :: "u8 \<Rightarrow> int \<Rightarrow> Claim" where
  "sample_observation i k = (sample_claim [i] [i] None)\<lparr>confidence := lo_new k\<rparr>"

theorem epoch_reduction_order_independent_witness:
  "let a = sample_observation 1 13816; b = sample_observation 2 2197
   in reduce_epoch_aligned_correlated sample_hash [a, b] 100 None 3000
        = reduce_epoch_aligned_correlated sample_hash [b, a] 100 None 3000
      \<and> length (reduce_epoch_aligned_correlated sample_hash [a, b] 100 None 3000) = 1"
proof -
  have "ids_determine [sample_observation 1 13816, sample_observation 2 2197]"
    by (simp add: ids_determine_def sample_observation_def sample_claim_def)
  moreover have "length (reduce_epoch_aligned_correlated sample_hash
      [sample_observation 1 13816, sample_observation 2 2197] 100 None 3000) = 1" by code_simp
  ultimately show ?thesis
    using epoch_reduction_order_independent [of "[sample_observation 1 13816, sample_observation 2 2197]"
        "[sample_observation 2 2197, sample_observation 1 13816]"] by (simp add: Let_def)
qed

text \<open>
  The ceiling of a summary. Whatever the number of claims, identities, embeddings and declared
  versions behind one fingerprint, a reputation-weighted summary has a confidence of at most
  118404, below nine times the largest confidence a single source may declare.
\<close>

theorem summary_confidence_ceiling:
  assumes "reduce_with_reputation_correlated B claims rep DEFAULT_DISCOUNT_BPS = Some s"
    and "\<forall>x. bps (rep x) \<le> 10000" "length claims \<le> 4294967295"
  shows "\<bar>lo_val (confidence s)\<bar> \<le> 118404 \<and> 118404 < 9 * MAX_DECLARED"
  using summary_ceiling [OF assms] by (simp add: MAX_DECLARED_def)

theorem summary_confidence_ceiling_witness:
  "\<exists>s. reduce_with_reputation_correlated sample_hash
        [sample_observation 1 13816, sample_observation 2 2197] (\<lambda>_. rep_FULL) DEFAULT_DISCOUNT_BPS = Some s
     \<and> \<bar>lo_val (confidence s)\<bar> \<le> 118404"
proof -
  have "reduce_with_reputation_correlated sample_hash
      [sample_observation 1 13816, sample_observation 2 2197] (\<lambda>_. rep_FULL) DEFAULT_DISCOUNT_BPS \<noteq> None"
    by code_simp
  then obtain s where s: "reduce_with_reputation_correlated sample_hash
      [sample_observation 1 13816, sample_observation 2 2197] (\<lambda>_. rep_FULL) DEFAULT_DISCOUNT_BPS = Some s"
    by blast
  then show ?thesis using summary_confidence_ceiling [OF s] by (simp add: rep_FULL_def)
qed

text \<open>
  Echo-chamber protection. In a plain summary every evidence source counts once: the number of
  unique sources is that of the claims, and the confidence is at most that number times the largest
  declarable confidence, however often a source is repeated.
\<close>

theorem echo_chamber_protection:
  assumes "reduce B claims = Some s" "ids_determine claims"
  shows "unique_sources (kind s) = of_nat (card (evidence_source ` set claims))
    \<and> \<bar>lo_val (confidence s)\<bar> \<le> int (card (evidence_source ` set claims)) * MAX_DECLARED"
proof -
  obtain srcs ev data where f: "foldl source_step ([], []) (sorted_claims claims) = (srcs, ev)"
    and s: "s = build_summary B (length claims) (sorted_claims claims) data (length srcs) ev (aggregate ev)"
    using reduce_evidence [OF assms(1)] by metis
  have n: "length srcs = card (evidence_source ` set claims)" "length ev = length srcs"
    "set ev \<subseteq> declared_confidence ` set claims"
    using source_fold [OF f] distinct_card [of srcs] set_sorted_claims_eq [OF assms(2)] by auto
  have "\<bar>lo_val (aggregate ev)\<bar> \<le> int (length ev) * MAX_DECLARED"
    using n(3) clamp_declared_bound by (intro aggregate_bound) (auto simp: declared_confidence_def)
  then show ?thesis using n by (simp add: s build_summary_def Let_def)
qed

theorem echo_chamber_protection_witness:
  "let a = sample_observation 1 13816; b = (sample_observation 2 13816)\<lparr>evidence_source := [1]\<rparr>
   in lo_val (confidence (the (reduce sample_hash [a, b]))) \<le> 13816"
proof -
  let ?cs = "[sample_observation 1 13816, (sample_observation 2 13816)\<lparr>evidence_source := [1]\<rparr>]"
  have "reduce sample_hash ?cs \<noteq> None" by code_simp
  then obtain s where s: "reduce sample_hash ?cs = Some s" by blast
  have "ids_determine ?cs" by (simp add: ids_determine_def sample_observation_def sample_claim_def)
  moreover have "evidence_source ` set ?cs = {[1]}"
    by (simp add: sample_observation_def sample_claim_def)
  ultimately show ?thesis
    using echo_chamber_protection [OF s] unfolding Let_def s option.sel by (simp add: MAX_DECLARED_def abs_le_iff)
qed

text \<open>
  Reduction is not idempotent as the reducer's contract asks: a claim alone is not reduced,
  the same claim twice gives a summary that counts two claims.
\<close>

theorem reduce_not_idempotent:
  "reduce B [sample_observation 1 k] = None
   \<and> (\<exists>s. reduce B [sample_observation 1 k, sample_observation 1 k] = Some s \<and> source_count (kind s) = 2)"
  by (auto simp: reduce_def can_reduce_def Let_def sorted_claims_def reduced_data_def build_summary_def
      sample_observation_def sample_claim_def split: prod.split)

text \<open>
  Reduction is not associative as the reducer's contract asks: a summary that is reduced again
  enters with its confidence clamped to what a single source may declare, so the evidence of two
  sources that was compacted earlier counts as one.
\<close>

theorem reduce_not_associative:
  "let a = sample_observation 1 13816; b = sample_observation 2 13816; c = sample_observation 3 (- 13816)
   in lo_val (confidence (the (reduce sample_hash [the (reduce sample_hash [a, b]), c]))) = 0
    \<and> lo_val (confidence (the (reduce sample_hash [a, b, c]))) = 13816"
  unfolding Let_def by (rule conjI; code_simp)

end
