(* ===== verification/Belief.thy ===== *)
theory Belief
  imports Trust Reducer
begin

text \<open>
  Belief and resolution (\<open>aimp_node/src/epistemic.rs\<close>, lines 1676-1701, 1736-1781 and 2186-2374):
  the belief engine that turns propagated trust into accepted, rejected and uncertain claims, the
  resolvers of intents and contradictions, and the relevance scorer.
\<close>

section \<open>The belief engine\<close>

record BeliefState =
  accepted :: "ClaimArenaId list"
  rejected :: "ClaimArenaId list"
  uncertain :: "ClaimArenaId list"

record LogOddsBeliefEngine =
  accept_threshold :: LogOdds
  reject_threshold :: LogOdds
  max_contradiction_damping_bps :: u16

definition default_engine :: LogOddsBeliefEngine where
  "default_engine = \<lparr>accept_threshold = lo_new 2197, reject_threshold = lo_new (- 2197),
     max_contradiction_damping_bps = 5000\<rparr>"

definition base_weight :: "(bytes \<Rightarrow> Reputation) \<Rightarrow> Claim \<Rightarrow> LogOdds" where
  "base_weight rep c = weight_evidence (rep (claim_origin c)) (declared_confidence c)"

definition base_trust_of :: "(bytes \<Rightarrow> Reputation) \<Rightarrow> Claim list \<Rightarrow> trust_map" where
  "base_trust_of rep claims =
     foldl (\<lambda>m (i, c). AList.update (of_nat i) (base_weight rep c) m) [] (enumerate 0 claims)"

definition classify :: "LogOddsBeliefEngine \<Rightarrow> trust_map \<Rightarrow> BeliefState \<Rightarrow> nat \<Rightarrow> BeliefState" where
  "classify engine propagated state i =
     (let arena_id = of_nat i; final = lo_val (trust_of propagated arena_id)
      in if final \<ge> lo_val (accept_threshold engine)
         then state\<lparr>accepted := accepted state @ [arena_id]\<rparr>
         else if final \<le> lo_val (reject_threshold engine)
         then state\<lparr>rejected := rejected state @ [arena_id]\<rparr>
         else state\<lparr>uncertain := uncertain state @ [arena_id]\<rparr>)"

definition compute_beliefs ::
  "blake3 \<Rightarrow> LogOddsBeliefEngine \<Rightarrow> Claim list \<Rightarrow> KnowledgeGraph \<Rightarrow> (bytes \<Rightarrow> Reputation) \<Rightarrow> BeliefState option" where
  "compute_beliefs B engine claims g rep =
     do {
       propagated \<leftarrow> propagate_trust_full B g (base_trust_of rep claims) 5
         (max_contradiction_damping_bps engine) claims rep;
       Some (foldl (classify engine propagated) \<lparr>accepted = [], rejected = [], uncertain = []\<rparr>
         [0..<length claims])
     }"

section \<open>Resolvers and the relevance score\<close>

datatype Resolution = Winner Claim | Compromise Claim | Escalate string "ClaimHash list"

definition intent_key :: "(bytes \<Rightarrow> Reputation) \<Rightarrow> Claim \<Rightarrow> int \<times> u64" where
  "intent_key rep c = (lo_val (base_weight rep c), (- 1) - claim_tick c)"

definition resolve_intents :: "Claim list \<Rightarrow> (bytes \<Rightarrow> Reputation) \<Rightarrow> Resolution" where
  "resolve_intents intents rep =
     (case max_by_key (intent_key rep) intents of
        None \<Rightarrow> Escalate ''No intents'' []
      | Some winner \<Rightarrow> Winner winner)"

datatype ContradictionOutcome = PreferA LogOdds | PreferB LogOdds | Undecided

definition resolve_contradiction ::
  "Claim \<Rightarrow> Claim \<Rightarrow> KnowledgeGraph \<Rightarrow> (bytes \<Rightarrow> Reputation) \<Rightarrow> ContradictionOutcome" where
  "resolve_contradiction a b g rep =
     (let supports_a = fst (support_ratio g 0);
          supports_b = fst (support_ratio g 1);
          score_a = lo_val (base_weight rep a) + uint supports_a * 500;
          score_b = lo_val (base_weight rep b) + uint supports_b * 500
      in if score_a > score_b + 1000 then PreferA (lo_new (- 2000))
         else if score_b > score_a + 1000 then PreferB (lo_new (- 2000))
         else Undecided)"

definition DEFAULT_GC_THRESHOLD :: u16 where "DEFAULT_GC_THRESHOLD = 1000"

definition relevance_score :: "u64 \<Rightarrow> Claim \<Rightarrow> Claim list \<Rightarrow> KnowledgeGraph \<Rightarrow> u16" where
  "relevance_score half_life_ticks c active_intents g =
     (if dependents g 0 \<noteq> [] then 10000
      else let (supports, contradicts) = support_ratio g 0
           in if supports > 0 then 8000
              else if contradicts > supports then 500
              else let current_tick = max_or (claim_tick c) (map claim_tick active_intents);
                       age = usub_sat current_tick (claim_tick c)
                   in if half_life_ticks = 0 then 0
                      else let decay_steps = age div half_life_ticks
                           in if decay_steps \<ge> 14 then 0 else drop_bit (unat decay_steps) 10000)"

section \<open>Every claim is classified once\<close>

lemma classify_fold:
  "accepted (foldl (classify engine p) s is) = accepted s @
     map of_nat (filter (\<lambda>i. lo_val (trust_of p (of_nat i)) \<ge> lo_val (accept_threshold engine)) is)"
  "rejected (foldl (classify engine p) s is) = rejected s @
     map of_nat (filter (\<lambda>i. lo_val (trust_of p (of_nat i)) < lo_val (accept_threshold engine)
       \<and> lo_val (trust_of p (of_nat i)) \<le> lo_val (reject_threshold engine)) is)"
  "uncertain (foldl (classify engine p) s is) = uncertain s @
     map of_nat (filter (\<lambda>i. lo_val (trust_of p (of_nat i)) < lo_val (accept_threshold engine)
       \<and> lo_val (trust_of p (of_nat i)) > lo_val (reject_threshold engine)) is)"
  by (induction "is" arbitrary: s) (auto simp: classify_def Let_def not_le not_less)

lemma mset_three_way:
  "mset (filter P xs) + mset (filter (\<lambda>x. \<not> P x \<and> Q x) xs) + mset (filter (\<lambda>x. \<not> P x \<and> \<not> Q x) xs) = mset xs"
  by (induction xs) auto

lemma compute_beliefs_eq:
  "compute_beliefs B engine claims g rep =
     map_option (\<lambda>p. foldl (classify engine p) \<lparr>accepted = [], rejected = [], uncertain = []\<rparr> [0..<length claims])
       (propagate_trust_full B g (base_trust_of rep claims) 5 (max_contradiction_damping_bps engine) claims rep)"
  by (simp add: compute_beliefs_def split: Option.bind_split)

lemma propagate_full_eq:
  "propagate_trust_full B g base n damping claims rep =
     Some (pass2 g rep claims damping
       (pass1_loop
         (pass1_step g (cyclic_edge_indices g) rep claims
           (map (group_of B (set claims) DEFAULT_SUPPORT_THRESHOLD) claims) DEFAULT_DISCOUNT_BPS base base)
         (unat n) base))"
  by (simp add: propagate_trust_full_def propagate_trust_advanced_def propagate_eq decay_base_def)

section \<open>Claims without reputation\<close>

lemma base_trust_lookup:
  assumes "length claims \<le> 4294967296"
  shows "map_of (base_trust_of rep claims) k =
    (if unat k < length claims then Some (base_weight rep (claims ! unat k)) else None)"
  using assms
proof (induction claims rule: rev_induct)
  case Nil
  then show ?case by (simp add: base_trust_of_def)
next
  case (snoc c claims)
  have u: "unat (of_nat (length claims) :: u32) = length claims"
    using snoc.prems by (simp add: unat_of_nat)
  have "base_trust_of rep (claims @ [c]) =
      AList.update (of_nat (length claims)) (base_weight rep c) (base_trust_of rep claims)"
    by (simp add: base_trust_of_def enumerate_append_eq)
  moreover have "k = of_nat (length claims) \<longleftrightarrow> unat k = length claims"
    using u by (metis unat_inject)
  ultimately show ?case using snoc by (auto simp: update_conv nth_append)
qed

lemma silent_evidence:
  assumes "\<forall>e\<in>set ev. fst e = NEUTRAL"
  shows "aggregate_hierarchical ev d ud = NEUTRAL"
proof -
  have ds: "discounted_sum d r 0 ms = 0" if "\<forall>m\<in>set ms. fst m = NEUTRAL" for r ms
    using that by (induction ms arbitrary: r) auto
  have tot: "group_total d ev k = 0" for k
    unfolding group_total_def using assms by (intro ds) (force simp: group_members_def)
  have l2: "level2_sum ud r 0 gs = 0" if "\<forall>g\<in>set gs. fst g = 0" for r gs
    using that by (induction gs arbitrary: r) auto
  have "sat_sum 0 (map (group_total d ev) ks) = 0" for ks :: "u64 list"
    by (induction ks) (simp_all add: tot)
  then have "assessed_sum d ev = 0" by (simp add: assessed_sum_eq)
  moreover have "level2_sum ud 0 0 (sort_key group_rank_key (unassessed_groups d ev)) = 0"
    by (intro l2) (auto simp: unassessed_groups_def tot)
  ultimately show ?thesis
    by (cases "ev = []") (simp_all add: aggregate_hierarchical_eq, simp add: aggregate_hierarchical_def,
      simp add: safe_clamp_def NEUTRAL_def clampi_def safe_bounds)
qed

lemma lo_update_neutral: "lo_update NEUTRAL NEUTRAL = NEUTRAL"
  by (simp add: lo_update_def safe_clamp_def NEUTRAL_def clampi_def safe_bounds)

lemma pass1_loop_at:
  assumes "trust_of t k = v" "\<And>t. trust_of (step t) k = v"
  shows "trust_of (pass1_loop step n t) k = v"
  using assms(1) by (induction n arbitrary: t) (simp_all add: Let_def assms(2))

text \<open>A claim without own weight that only worthless claims support keeps no trust.\<close>

lemma unsupported_neutral:
  assumes base: "trust_of base k = NEUTRAL"
    and src: "\<forall>e\<in>set (kg_edges g). supportive e \<and> edge_to e = k \<longrightarrow> author_rep rep claims (edge_from e) = 0"
  shows "trust_of (pass1_loop (pass1_step g C rep claims groups dis base base) n base) k = NEUTRAL"
proof (rule pass1_loop_at [OF base])
  fix t
  let ?is = "filter (\<lambda>i. flows g C i \<and> edge_to (kg_edges g ! i) = k) [0..<length (kg_edges g)]"
  have "contribution g C rep claims t i = 0" if "i \<in> set ?is" for i
    using that src by (simp add: contribution_def flows_def)
  then have "\<forall>e\<in>set (map (\<lambda>i. snd (delivered g C rep claims groups t i)) ?is). fst e = NEUTRAL"
    by (auto simp: delivered_def NEUTRAL_def clampi_def i32_min_def i32_max_def Let_def)
  then have agg: "aggregate_hierarchical (map (\<lambda>i. snd (delivered g C rep claims groups t i)) ?is) dis ud = NEUTRAL" for ud
    by (rule silent_evidence)
  show "trust_of (pass1_step g C rep claims groups dis base base t) k = NEUTRAL"
  proof (cases "?is = []")
    case True
    then show ?thesis
      using base by (simp add: trust_of_def pass1_step_lookup incoming_lookup(2) Let_def)
  next
    case False
    have "(case map_of base k of None \<Rightarrow> trust_of base k | Some v \<Rightarrow> v) = NEUTRAL"
      using base by (simp add: trust_of_def split: option.splits)
    then show ?thesis
      using False agg lo_update_neutral
      by (simp add: trust_of_def [of "pass1_step _ _ _ _ _ _ _ _ _"] pass1_step_lookup incoming_lookup(2))
  qed
qed

section \<open>Properties\<close>

text \<open>
  The belief engine always returns, and sorts the claims into accepted, rejected and uncertain
  without losing or repeating one: together the three lists are the arena ids of all claims.
\<close>

theorem beliefs_partition:
  "\<exists>s. compute_beliefs B engine claims g rep = Some s
    \<and> mset (accepted s @ rejected s @ uncertain s) = mset (map of_nat [0..<length claims])"
proof -
  obtain p where p: "propagate_trust_full B g (base_trust_of rep claims) 5
      (max_contradiction_damping_bps engine) claims rep = Some p"
    using propagate_full_eq by blast
  let ?P = "\<lambda>i. lo_val (trust_of p (of_nat i)) \<ge> lo_val (accept_threshold engine)"
  let ?Q = "\<lambda>i. lo_val (trust_of p (of_nat i)) \<le> lo_val (reject_threshold engine)"
  let ?is = "[0..<length claims]"
  have "mset (map of_nat (filter ?P ?is)) + mset (map of_nat (filter (\<lambda>x. \<not> ?P x \<and> ?Q x) ?is))
      + mset (map of_nat (filter (\<lambda>x. \<not> ?P x \<and> \<not> ?Q x) ?is)) = mset (map (of_nat :: nat \<Rightarrow> u32) ?is)"
    using mset_three_way [of ?P ?is ?Q] unfolding mset_map image_mset_union [symmetric] by simp
  then show ?thesis
    by (simp add: compute_beliefs_eq p classify_fold not_le not_less add.assoc)
qed

text \<open>
  C20: Reputation cannot be laundered through the graph. A claim of an author without reputation,
  supported only by claims of authors without reputation, is never accepted, whatever the number
  of claims, edges and contradictions, for any positive threshold.
\<close>

theorem sybil_ring_not_accepted:
  assumes "compute_beliefs B engine claims g rep = Some s"
    and "0 < lo_val (accept_threshold engine)" "length claims \<le> 4294967296"
    and "i < length claims" "bps (rep (claim_origin (claims ! i))) = 0"
    and "\<forall>e\<in>set (kg_edges g). supportive e \<and> edge_to e = of_nat i \<longrightarrow> author_rep rep claims (edge_from e) = 0"
  shows "of_nat i \<notin> set (accepted s)"
proof
  assume acc: "of_nat i \<in> set (accepted s)"
  let ?base = "base_trust_of rep claims" and ?k = "of_nat i :: u32"
  let ?t = "pass1_loop
         (pass1_step g (cyclic_edge_indices g) rep claims
           (map (group_of B (set claims) DEFAULT_SUPPORT_THRESHOLD) claims) DEFAULT_DISCOUNT_BPS ?base ?base)
         (unat (5 :: u8)) ?base"
  let ?p = "pass2 g rep claims (max_contradiction_damping_bps engine) ?t"
  have s: "s = foldl (classify engine ?p) \<lparr>accepted = [], rejected = [], uncertain = []\<rparr> [0..<length claims]"
    using assms(1) by (simp add: compute_beliefs_eq propagate_full_eq)
  then have "lo_val (accept_threshold engine) \<le> lo_val (trust_of ?p ?k)"
    using acc by (auto simp: classify_fold)
  moreover have "trust_of ?t ?k = NEUTRAL"
  proof (rule unsupported_neutral)
    have "unat ?k = i" using assms(3,4) by (simp add: unat_of_nat)
    then show "trust_of ?base ?k = NEUTRAL"
      using assms(3-5) by (simp add: trust_of_def base_trust_lookup base_weight_def)
  qed (use assms(6) in simp)
  ultimately show False
    using pass2_bounds(1) [of g rep claims "max_contradiction_damping_bps engine" ?t ?k] assms(2) by simp
qed

lemma max_by_key_max:
  "max_by_key k xs = Some w \<Longrightarrow> w \<in> set xs \<and> (\<forall>x\<in>set xs. k x \<le> k w)"
proof (induction k xs arbitrary: w rule: max_by_key.induct)
  case (2 k x xs)
  show ?case
  proof (cases "max_by_key k xs")
    case None
    then have "xs = []" by (cases xs) (auto split: option.splits if_splits)
    then show ?thesis using 2(2) by simp
  next
    case (Some y)
    then show ?thesis using 2 by (fastforce split: if_splits)
  qed
qed simp

lemma max_by_key_None: "max_by_key k xs = None \<longleftrightarrow> xs = []"
  by (cases xs) (auto split: option.splits)

text \<open>
  The winning intent is one of the intents, and no intent has more reputation-weighted
  confidence than it, nor the same with an earlier tick; without intents the resolver escalates.
\<close>

theorem intent_winner:
  "(case resolve_intents intents rep of
      Winner w \<Rightarrow> w \<in> set intents \<and> (\<forall>c\<in>set intents. intent_key rep c \<le> intent_key rep w)
    | Escalate r cs \<Rightarrow> intents = []
    | Compromise c \<Rightarrow> False)"
  by (auto simp: resolve_intents_def max_by_key_None split: option.split dest!: max_by_key_max)

theorem sybil_ring_not_accepted_witness:
  "\<exists>s. compute_beliefs sample_hash default_engine
      [sample_observation 1 13816, sample_observation 2 13816] mutual_graph (\<lambda>_. rep_ZERO) = Some s
    \<and> (0 :: u32) \<notin> set (accepted s)"
proof -
  let ?cs = "[sample_observation 1 13816, sample_observation 2 13816]"
  obtain s where s: "compute_beliefs sample_hash default_engine ?cs mutual_graph (\<lambda>_. rep_ZERO) = Some s"
    by (simp add: compute_beliefs_eq propagate_full_eq)
  have "of_nat 0 \<notin> set (accepted s)"
    by (rule sybil_ring_not_accepted [OF s]) (simp_all add: default_engine_def rep_ZERO_def author_rep_def)
  with s show ?thesis by simp
qed

theorem intent_winner_witness:
  "\<exists>w. resolve_intents [sample_observation 1 100, sample_observation 2 200] (\<lambda>_. rep_FULL) = Winner w
     \<and> intent_key (\<lambda>_. rep_FULL) (sample_observation 1 100) \<le> intent_key (\<lambda>_. rep_FULL) w"
  using intent_winner [of "[sample_observation 1 100, sample_observation 2 200]" "\<lambda>_. rep_FULL"]
  by (simp split: Resolution.splits)

definition three_supports :: KnowledgeGraph where
  "three_supports = foldl add_edge kg_new
     (replicate 3 \<lparr>edge_from = 1, edge_to = 0, relation = Supports, strength = rep_FULL\<rparr>)"

text \<open>
  The contradiction resolver counts the support of the claims at arena positions 0 and 1, not
  that of the two claims it is given: with three supporting edges into position 0 and two claims of
  equal weight, it prefers the first argument in both orders.
\<close>

theorem contradiction_resolver_positional:
  "resolve_contradiction a b three_supports (\<lambda>_. rep_ZERO) = PreferA (lo_new (- 2000))
   \<and> resolve_contradiction b a three_supports (\<lambda>_. rep_ZERO) = PreferA (lo_new (- 2000))"
proof -
  have "kg_edges three_supports =
      replicate 3 \<lparr>edge_from = 1, edge_to = 0, relation = Supports, strength = rep_FULL\<rparr>"
    by (simp add: three_supports_def numeral_3_eq_3 kg.edges_add kg.edges_empty)
  then have "support_ratio three_supports 0 = (3, 0)" "support_ratio three_supports 1 = (0, 0)"
    by (simp_all add: support_ratio_def numeral_3_eq_3)
  moreover have "base_weight (\<lambda>_. rep_ZERO) c = NEUTRAL" for c
    by (simp add: base_weight_def rep_ZERO_def)
  ultimately show ?thesis by (simp add: resolve_contradiction_def)
qed

end
