(* ===== verification/Revocation.thy ===== *)
theory Revocation
  imports Belief
begin

text \<open>
  Credentials as claims (\<open>aimp_node/examples/bench_revocation.rs\<close>): the simulated mesh, in which every
  node has a graph and a reputation tracker of its own, grants, delegations and revocations, and what
  the nodes believe. A revocation is a claim with a contradicting edge. The theorems say what it can
  do: it cannot reject a credential that has weight of its own, and at the reputation that the
  simulation starts with, no credential is accepted in the first place.
\<close>

section \<open>The code\<close>

definition make_fingerprint :: "blake3 \<Rightarrow> bytes \<Rightarrow> SemanticFingerprint" where
  "make_fingerprint B d = \<lparr>fp_primary = take 16 (B d), fp_secondary = le_u64 (take 8 (B d))\<rparr>"

record MeshSimulator =
  mesh_claims :: "Claim list"
  mesh_graphs :: "KnowledgeGraph list"
  mesh_trackers :: "InMemoryReputationTracker list"
  mesh_engine :: LogOddsBeliefEngine

definition mesh_anchor :: bytes where
  "mesh_anchor = replicate 32 255"

definition mesh_new :: "nat \<Rightarrow> MeshSimulator" where
  "mesh_new n =
     (let t = tracker_new;
          t = update_reputation t mesh_anchor ClaimConfirmed;
          t = update_reputation t mesh_anchor ClaimConfirmed;
          t = update_reputation t mesh_anchor ClaimConfirmed
      in \<lparr>mesh_claims = [], mesh_graphs = replicate n kg_new, mesh_trackers = replicate n t, mesh_engine = default_engine\<rparr>)"

definition grant_credential :: "blake3 \<Rightarrow> bytes \<Rightarrow> bytes \<Rightarrow> MeshSimulator \<Rightarrow> nat \<times> MeshSimulator" where
  "grant_credential B issuer scope m =
     (let fp = make_fingerprint B scope;
          i = B (fp_primary fp @ issuer);
          claim = \<lparr>claim_id = i, fingerprint = fp, claim_origin = issuer, kind = Observation 0 scope,
            confidence = VERY_HIGH, evidence_source = i, claim_tick = of_nat (length (mesh_claims m)),
            correlation_cell = None, embedding = None, embedding_version = 0\<rparr>;
          idx = length (mesh_claims m)
      in (idx, m\<lparr>mesh_claims := mesh_claims m @ [claim],
                 mesh_trackers := map (\<lambda>t. delegate t mesh_anchor issuer (from_bps 8000)) (mesh_trackers m)\<rparr>))"

definition add_delegation :: "nat \<Rightarrow> nat \<Rightarrow> MeshSimulator \<Rightarrow> MeshSimulator" where
  "add_delegation parent child m =
     m\<lparr>mesh_graphs := map (\<lambda>g. add_edge g \<lparr>edge_from = of_nat parent, edge_to = of_nat child, relation = DerivedFrom,
       strength = from_bps 9000\<rparr>) (mesh_graphs m)\<rparr>"

text \<open>An index that is out of range panics.\<close>

definition revoke_credential :: "blake3 \<Rightarrow> bytes \<Rightarrow> nat \<Rightarrow> MeshSimulator \<Rightarrow> (nat \<times> MeshSimulator) option" where
  "revoke_credential B revoker target m =
     (if target \<ge> length (mesh_claims m) then None
      else let target_fp = fingerprint (mesh_claims m ! target);
               i = B (fp_primary target_fp @ ascii ''REVOKE'' @ revoker);
               revocation = \<lparr>claim_id = i, fingerprint = make_fingerprint B (ascii ''revocation''), claim_origin = revoker,
                 kind = Observation 255 (ascii ''REVOKED''), confidence = VERY_HIGH, evidence_source = i,
                 claim_tick = of_nat (length (mesh_claims m)), correlation_cell = None, embedding = None,
                 embedding_version = 0\<rparr>;
               revoke_idx = length (mesh_claims m)
           in Some (revoke_idx, m\<lparr>mesh_claims := mesh_claims m @ [revocation],
                mesh_graphs := map (\<lambda>g. add_edge g \<lparr>edge_from = of_nat revoke_idx, edge_to = of_nat target,
                  relation = Contradicts, strength = from_bps 10000\<rparr>) (mesh_graphs m)\<rparr>))"

definition compute_all :: "blake3 \<Rightarrow> MeshSimulator \<Rightarrow> BeliefState list option" where
  "compute_all B m =
     those (map (\<lambda>(g, t). compute_beliefs B (mesh_engine m) (mesh_claims m) g (reputation t))
       (zip (mesh_graphs m) (mesh_trackers m)))"

definition all_reject :: "blake3 \<Rightarrow> MeshSimulator \<Rightarrow> nat \<Rightarrow> bool option" where
  "all_reject B m i = map_option (list_all (\<lambda>s. of_nat i \<in> set (rejected s))) (compute_all B m)"

definition all_accept :: "blake3 \<Rightarrow> MeshSimulator \<Rightarrow> nat \<Rightarrow> bool option" where
  "all_accept B m i = map_option (list_all (\<lambda>s. of_nat i \<in> set (accepted s))) (compute_all B m)"

text \<open>What the simulation can do.\<close>

inductive mesh_run :: "blake3 \<Rightarrow> nat \<Rightarrow> bool \<Rightarrow> MeshSimulator \<Rightarrow> bool" for B n where
  meshed: "mesh_run B n False (mesh_new n)"
| granted: "mesh_run B n delegating m \<Longrightarrow> mesh_run B n delegating (snd (grant_credential B issuer scope m))"
| delegated: "mesh_run B n delegating m \<Longrightarrow> mesh_run B n True (add_delegation parent child m)"
| revoked: "mesh_run B n delegating m \<Longrightarrow> revoke_credential B revoker target m = Some (idx, m')
    \<Longrightarrow> mesh_run B n delegating m'"

section \<open>Support never lowers trust\<close>

lemma discounted_sum_nonneg:
  assumes "d \<le> 10000" "\<forall>m\<in>set ms. 0 \<le> lo_val (fst m)" "0 \<le> t"
  shows "0 \<le> discounted_sum d r t ms"
  using assms(2,3)
proof (induction ms arbitrary: r t)
  case (Cons m ms)
  have v: "\<bar>lo_val (fst m)\<bar> \<le> 2147483648" by (rule abs_lo_val_le)
  have w: "wrap64 (lo_val (fst m) * factor64 r d) = lo_val (fst m) * factor64 r d"
    by (rule contribution_bound(2) [OF factor64_range [OF assms(1)] v]) (simp add: i64_max_def)
  have "0 \<le> lo_val (fst m) * factor64 r d sdiv 10000"
    using Cons.prems(1) factor64_range(1) [OF assms(1), of r] by (simp add: sdiv_sign)
  then have "0 \<le> sat64 (t + wrap64 (lo_val (fst m) * factor64 r d) sdiv 10000)"
    using Cons.prems(2) unfolding w by (simp add: sat64_def clampi_def i64_min_def i64_max_def)
  then show ?case using Cons.IH [of _ "Suc r"] Cons.prems(1) by simp
qed simp

lemma sat64_nonneg: "0 \<le> k \<Longrightarrow> 0 \<le> sat64 k"
  by (simp add: sat64_def clampi_def i64_min_def i64_max_def)

lemma sat_sum_nonneg: "\<forall>x\<in>set xs. 0 \<le> x \<Longrightarrow> 0 \<le> t \<Longrightarrow> 0 \<le> sat_sum t xs"
  by (induction xs arbitrary: t) (simp_all add: sat64_nonneg)

lemma level2_sum_nonneg:
  assumes "d \<le> 10000" "\<forall>g\<in>set gs. 0 \<le> fst g \<and> fst g \<le> M" "M * 10000 \<le> i64_max" "0 \<le> t"
  shows "0 \<le> level2_sum d r t gs"
  using assms(2,4)
proof (induction gs arbitrary: r t)
  case (Cons g gs)
  have "\<bar>fst g\<bar> \<le> M" using Cons.prems(1) by simp
  then have w: "wrap64 (fst g * factor64 r d) = fst g * factor64 r d"
    by (rule contribution_bound(2) [OF factor64_range [OF assms(1)] _ assms(3)])
  have "0 \<le> fst g * factor64 r d sdiv 10000"
    using Cons.prems(1) factor64_range(1) [OF assms(1), of r] by (simp add: sdiv_sign)
  then have "0 \<le> sat64 (t + wrap64 (fst g * factor64 r d) sdiv 10000)"
    using Cons.prems(2) unfolding w by (simp add: sat64_nonneg)
  then show ?case using Cons.IH [of _ "Suc r"] Cons.prems by simp
qed simp

lemma hierarchical_nonneg:
  assumes "\<forall>e\<in>set ev. 0 \<le> lo_val (fst e)" "length ev \<le> 4294967295"
  shows "0 \<le> lo_val (aggregate_hierarchical ev DEFAULT_DISCOUNT_BPS UNASSESSED_DISCOUNT_BPS)"
proof (cases "ev = []")
  case False
  let ?t = "group_total DEFAULT_DISCOUNT_BPS ev"
  have "\<forall>m\<in>set (sort_key rank_key (group_members ev k)). 0 \<le> lo_val (fst m)" for k
    using group_members_sub assms(1) by fastforce
  then have g: "0 \<le> ?t k" for k
    unfolding group_total_def by (intro discounted_sum_nonneg) (simp_all add: DEFAULT_DISCOUNT_BPS_def)
  have "\<bar>?t k\<bar> \<le> 2147483648 * 14284 div 10000" for k
    using abs_lo_val_le assms(2) by (intro group_total_bound) simp_all
  then have "\<forall>g\<in>set (sort_key group_rank_key (unassessed_groups DEFAULT_DISCOUNT_BPS ev)). 0 \<le> fst g \<and> fst g \<le> 3067465642"
    using g by (auto simp: unassessed_groups_def)
  moreover have "0 \<le> assessed_sum DEFAULT_DISCOUNT_BPS ev"
    unfolding assessed_sum_eq using g by (intro sat_sum_nonneg) auto
  ultimately have "0 \<le> level2_sum UNASSESSED_DISCOUNT_BPS 0 (assessed_sum DEFAULT_DISCOUNT_BPS ev)
      (sort_key group_rank_key (unassessed_groups DEFAULT_DISCOUNT_BPS ev))"
    by (intro level2_sum_nonneg [where M = 3067465642]) (simp_all add: UNASSESSED_DISCOUNT_BPS_def i64_max_def)
  then show ?thesis using False by (simp add: aggregate_hierarchical_eq clampi_def safe_bounds)
qed (simp add: aggregate_hierarchical_def)

lemma contribution_nonneg: "0 \<le> contribution g C rep claims t i"
proof -
  have T: "0 < total_out g C x" for x by (simp add: total_out_def Let_def)
  have e: "0 \<le> edge_bps g i" by (simp add: edge_bps_def)
  have s: "0 \<le> lo_val (source_trust t x)" for x by (simp add: source_trust_val)
  show ?thesis
    using T [of "edge_from (kg_edges g ! i)"] e s author_rep_nonneg
    by (simp add: contribution_def Let_def sdiv_sign)
qed

text \<open>After any number of rounds the trust of a claim is at least its own weight.\<close>

lemma pass1_trust_ge:
  assumes "lo_val (trust_of base k) \<le> SAFE_MAX" "SAFE_MIN \<le> lo_val (trust_of base k)" "length (kg_edges g) \<le> 4294967295"
  shows "lo_val (trust_of base k) \<le> lo_val (trust_of (pass1_loop
    (pass1_step g C rep claims groups DEFAULT_DISCOUNT_BPS base base) n base) k)"
proof -
  let ?step = "pass1_step g C rep claims groups DEFAULT_DISCOUNT_BPS base base"
  have "lo_val (trust_of base k) \<le> lo_val (trust_of (?step t) k)" for t
  proof (cases "map_of (incoming g C rep claims groups t) k")
    case None
    then show ?thesis by (simp add: trust_of_def pass1_step_lookup)
  next
    case (Some cs)
    then obtain js where cs: "cs = map (\<lambda>i. snd (delivered g C rep claims groups t i)) js"
      "js = filter (\<lambda>i. flows g C i \<and> edge_to (kg_edges g ! i) = k) [0..<length (kg_edges g)]"
      by (auto simp: incoming_lookup(2) Let_def split: if_splits)
    have "length cs \<le> length (kg_edges g)" using length_filter_le [of _ "[0..<length (kg_edges g)]"] by (simp add: cs)
    moreover have "\<forall>e\<in>set cs. 0 \<le> lo_val (fst e)"
    proof
      fix e assume "e \<in> set cs"
      then obtain i where "e = snd (delivered g C rep claims groups t i)" by (auto simp: cs(1))
      then show "0 \<le> lo_val (fst e)"
        using contribution_nonneg [of g C rep claims t i] by (simp add: delivered_def Let_def clampi_def i32_min_def i32_max_def)
    qed
    ultimately have "0 \<le> lo_val (aggregate_hierarchical cs DEFAULT_DISCOUNT_BPS UNASSESSED_DISCOUNT_BPS)"
      using assms(3) by (intro hierarchical_nonneg) simp_all
    then show ?thesis using Some assms(1,2)
      by (simp add: trust_of_def [of "?step t"] pass1_step_lookup lo_update_def clampi_def safe_bounds)
        (simp add: trust_of_def split: option.splits)
  qed
  then have "lo_val (trust_of base k) \<le> lo_val (trust_of (pass1_loop ?step n t) k)"
    if "lo_val (trust_of base k) \<le> lo_val (trust_of t k)" for t
    using that by (induction n arbitrary: t) (simp_all add: Let_def)
  then show ?thesis by simp
qed

section \<open>What a revocation can do\<close>

lemma base_weight_small: "lo_val (base_weight rep c) \<le> SAFE_MAX \<and> SAFE_MIN \<le> lo_val (base_weight rep c) \<or> \<not> valid_rep (rep (claim_origin c))"
  using abs_weight_evidence_le [of "rep (claim_origin c)" "declared_confidence c"] clamp_declared_bound [of "confidence c"]
  by (auto simp: base_weight_def declared_confidence_def MAX_DECLARED_def safe_bounds)

text \<open>The final trust of a claim with positive weight of its own, and that of one that nobody supports.\<close>

lemma compute_trust:
  assumes "length claims \<le> 4294967296" "length (kg_edges g) \<le> 4294967295" "i < length claims"
    and "valid_rep (rep (claim_origin (claims ! i)))" "compute_beliefs B engine claims g rep = Some s"
    and "w = lo_val (base_weight rep (claims ! i))" "D = max_contradiction_damping_bps engine"
  obtains p where "s = foldl (classify engine p) \<lparr>accepted = [], rejected = [], uncertain = []\<rparr> [0..<length claims]"
    "0 < w \<and> D \<le> 10000 \<longrightarrow> w - w * uint D div 10000 \<le> lo_val (trust_of p (of_nat i)) \<and> 0 \<le> lo_val (trust_of p (of_nat i))"
    "\<forall>e\<in>set (kg_edges g). supportive e \<longrightarrow> edge_to e \<noteq> of_nat i \<Longrightarrow> lo_val (trust_of p (of_nat i)) \<le> w"
proof -
  let ?k = "of_nat i :: u32" let ?base = "base_trust_of rep claims"
  let ?step = "pass1_step g (cyclic_edge_indices g) rep claims
    (map (group_of B (set claims) DEFAULT_SUPPORT_THRESHOLD) claims) DEFAULT_DISCOUNT_BPS ?base ?base"
  let ?t = "pass1_loop ?step (unat (5 :: u8)) ?base"
  let ?p = "pass2 g rep claims D ?t"
  have "unat ?k = i" using assms(1,3) by (simp add: unat_of_nat)
  then have base: "lo_val (trust_of ?base ?k) = w"
    using assms(1,3,6) by (simp add: trust_of_def base_trust_lookup)
  have "w \<le> SAFE_MAX" "SAFE_MIN \<le> w" using base_weight_small [of rep "claims ! i"] assms(4,6) by auto
  then have up: "w \<le> lo_val (trust_of ?t ?k)"
    using pass1_trust_ge [of ?base ?k g] base assms(2) by simp
  have low: "w - w * uint D div 10000 \<le> lo_val (trust_of ?p ?k) \<and> 0 \<le> lo_val (trust_of ?p ?k)" if w: "0 < w" "D \<le> 10000"
  proof -
    let ?v = "lo_val (trust_of ?t ?k)"
    have d: "0 \<le> uint D" "uint D \<le> 10000" using w(2) by (simp_all add: word_le_def)
    have "?v - ?v * uint D div 10000 \<le> lo_val (trust_of ?p ?k)" using pass2_bounds(2) [of ?t ?k D g rep claims] up w(1) by simp
    moreover have "w - w * uint D div 10000 \<le> ?v - ?v * uint D div 10000"
    proof -
      have "?v * uint D \<le> w * uint D + (?v - w) * 10000"
        using mult_left_mono [OF d(2), of "?v - w"] up by (simp add: left_diff_distrib right_diff_distrib)
      then have "?v * uint D div 10000 \<le> (w * uint D + (?v - w) * 10000) div 10000" by (intro zdiv_mono1) simp_all
      then show ?thesis by simp
    qed
    moreover have "w * uint D div 10000 \<le> w"
      using mult_left_mono [OF d(2), of w] w(1) zdiv_mono1 [of "w * uint D" "w * 10000" 10000] by simp
    ultimately show ?thesis by linarith
  qed
  have alone: "lo_val (trust_of ?p ?k) \<le> w"
    if none: "\<forall>e\<in>set (kg_edges g). supportive e \<longrightarrow> edge_to e \<noteq> ?k"
  proof -
    have "trust_of (?step t) ?k = trust_of ?base ?k" for t
    proof -
      have "filter (\<lambda>i. flows g (cyclic_edge_indices g) i \<and> edge_to (kg_edges g ! i) = ?k) [0..<length (kg_edges g)] = []"
        using none by (auto simp: filter_empty_conv flows_def)
      then show ?thesis by (simp add: trust_of_def pass1_step_lookup incoming_lookup(2) Let_def)
    qed
    then have "trust_of ?t ?k = trust_of ?base ?k" by (intro pass1_loop_at) auto
    then show ?thesis using pass2_bounds(1) [of g rep claims D ?t ?k] base by simp
  qed
  have "s = foldl (classify engine ?p) \<lparr>accepted = [], rejected = [], uncertain = []\<rparr> [0..<length claims]"
    using assms(5,7) by (simp add: compute_beliefs_eq propagate_full_eq)
  then show thesis by (rule that) (use low alone in blast)+
qed

lemma arena_positions:
  assumes "length claims \<le> 4294967296" "i < length claims"
  shows "(of_nat i :: u32) \<in> set (map of_nat (filter P [0..<length claims])) \<longleftrightarrow> P i"
proof -
  have "(of_nat i :: u32) = of_nat j \<longleftrightarrow> i = j" if "j < length claims" for j
  proof -
    have "i < 4294967296" "j < 4294967296" using that assms by linarith+
    then have "unat (of_nat i :: u32) = i" "unat (of_nat j :: u32) = j" by (simp_all add: unat_of_nat)
    then show ?thesis by metis
  qed
  then show ?thesis using assms(2) by auto
qed

text \<open>
  C35: A revocation cannot reject what it revokes: a claim with positive weight of its own is not
  rejected, whatever contradicts it and whoever does, and when what the damping leaves of its weight
  reaches the threshold it stays accepted, so a credential of a trusted issuer cannot be revoked at all.
\<close>

theorem revocation_cannot_reject:
  assumes "compute_beliefs B engine claims g rep = Some s"
    and "length claims \<le> 4294967296" "length (kg_edges g) \<le> 4294967295" "i < length claims"
    and "valid_rep (rep (claim_origin (claims ! i)))" "w = lo_val (base_weight rep (claims ! i))" "0 < w"
    and "lo_val (reject_threshold engine) < 0" "max_contradiction_damping_bps engine \<le> 10000"
  shows "of_nat i \<notin> set (rejected s)
    \<and> (lo_val (accept_threshold engine) \<le> w - w * uint (max_contradiction_damping_bps engine) div 10000
        \<longrightarrow> of_nat i \<in> set (accepted s))"
proof -
  obtain p where p: "s = foldl (classify engine p) \<lparr>accepted = [], rejected = [], uncertain = []\<rparr> [0..<length claims]"
    "w - w * uint (max_contradiction_damping_bps engine) div 10000 \<le> lo_val (trust_of p (of_nat i))"
    "0 \<le> lo_val (trust_of p (of_nat i))"
    using compute_trust [OF assms(2,3,4,5,1,6) refl] assms(7,9) by metis
  show ?thesis using p(2,3) assms(8) unfolding p(1) classify_fold append_Nil BeliefState.simps
      arena_positions [OF assms(2,4)] by linarith
qed

section \<open>The simulated mesh\<close>

text \<open>
  What holds of the mesh: no reputation exceeds that of the mesh_anchor at the start, every claim has the
  confidence of a grant, and without delegations all edges are revocations, at most one per claim.
\<close>

definition mesh_ok :: "nat \<Rightarrow> bool \<Rightarrow> MeshSimulator \<Rightarrow> bool" where
  "mesh_ok n delegating m \<longleftrightarrow> mesh_engine m = default_engine \<and> length (mesh_graphs m) = n \<and> length (mesh_trackers m) = n
     \<and> (\<forall>t\<in>set (mesh_trackers m). tracker_valid t \<and> (\<forall>x. bps (reputation t x) \<le> 600))
     \<and> (\<forall>c\<in>set (mesh_claims m). confidence c = VERY_HIGH \<and> embedding c = None)
     \<and> (\<forall>g\<in>set (mesh_graphs m). kg_valid g)
     \<and> (\<not> delegating \<longrightarrow> (\<forall>g\<in>set (mesh_graphs m). length (kg_edges g) \<le> length (mesh_claims m)
          \<and> (\<forall>e\<in>set (kg_edges g). relation e = Contradicts)))"

lemma mesh_ok_new: "mesh_ok n False (mesh_new n)"
proof -
  have "bps (reputation (update_reputation (update_reputation (update_reputation tracker_new mesh_anchor ClaimConfirmed)
      mesh_anchor ClaimConfirmed) mesh_anchor ClaimConfirmed) x) \<le> 600" for x
    by (simp add: update_reputation_def reputation_def tracker_new_def event_score_def u16_sat_add_def rep_ZERO_def from_bps_def)
  then show ?thesis
    by (auto simp: mesh_ok_def mesh_new_def Let_def kg.edges_empty kg.ok_empty tracker_valid_def tracker_new_def
        intro!: tracker_valid_update [unfolded tracker_valid_def])
qed

lemma delegate_keeps:
  assumes "tracker_valid t" "\<forall>x. bps (reputation t x) \<le> b"
  shows "bps (reputation (delegate t x y r) z) \<le> b"
proof (cases "bps (reputation t x) = 0")
  case True
  then show ?thesis using tracker.del_gate [OF assms(1)] assms(2) by metis
next
  case False
  consider "z = x" | "z = y" "y \<noteq> x" | "z \<noteq> x" "z \<noteq> y" by blast
  then show ?thesis
  proof cases
    case 1
    then show ?thesis using tracker.del_cost [OF assms(1)] assms(2) order_trans by metis
  next
    case 2
    then show ?thesis using tracker.del_cap [OF assms(1) _ False, of y] assms(2) order_trans by metis
  next
    case 3
    then show ?thesis using tracker.del_other [OF assms(1)] assms(2) by metis
  qed
qed

lemma mesh_run_ok: "mesh_run B n delegating m \<Longrightarrow> mesh_ok n delegating m"
proof (induction rule: mesh_run.induct)
  case meshed
  show ?case by (rule mesh_ok_new)
next
  case (granted delegating m issuer scope)
  then show ?case
    unfolding mesh_ok_def grant_credential_def Let_def using delegate_keeps [of _ 600]
    by (auto simp: le_Suc_eq le_SucI)
next
  case (delegated delegating m parent child)
  then show ?case by (auto simp: mesh_ok_def add_delegation_def kg.ok_add)
next
  case (revoked delegating m revoker target idx m')
  then show ?case
    by (auto simp: mesh_ok_def revoke_credential_def Let_def kg.edges_add kg.ok_add split: if_splits)
qed

lemma granted_weight:
  assumes "confidence c = VERY_HIGH" "bps (rep (claim_origin c)) \<le> 600"
  shows "lo_val (base_weight rep c) \<le> 414" "2 \<le> bps (rep (claim_origin c)) \<Longrightarrow> 0 < lo_val (base_weight rep c)"
proof -
  let ?b = "uint (bps (rep (claim_origin c)))"
  have b: "0 \<le> ?b" "?b \<le> 600" using assms(2) by (simp_all add: word_le_def)
  have v: "lo_val (base_weight rep c) = 6907 * ?b div 10000"
  proof -
    have "lo_val (declared_confidence c) = 6907"
      by (simp add: declared_confidence_def assms(1) lo_val_clamp_declared VERY_HIGH_def clampi_def MIN_DECLARED_def MAX_DECLARED_def)
    moreover have "0 \<le> 6907 * ?b div 10000" "6907 * ?b div 10000 \<le> 414"
      using b zdiv_mono1 [of "6907 * ?b" "6907 * 600" 10000] by (simp_all add: pos_imp_zdiv_nonneg_iff)
    ultimately show ?thesis using b(1)
      by (simp add: base_weight_def weight_evidence_val sdiv_nonneg clampi_def i32_min_def i32_max_def)
  qed
  show "lo_val (base_weight rep c) \<le> 414" unfolding v using b zdiv_mono1 [of "6907 * ?b" "6907 * 600" 10000] by simp
  assume "2 \<le> bps (rep (claim_origin c))"
  then have "2 \<le> ?b" by (simp add: word_le_def)
  then show "0 < lo_val (base_weight rep c)" unfolding v using zdiv_mono1 [of "6907 * 2" "6907 * ?b" 10000] by simp
qed

lemma those_all:
  "(\<forall>x\<in>set xs. \<exists>y. f x = Some y \<and> P y) \<Longrightarrow> \<exists>ys. those (map f xs) = Some ys \<and> length ys = length xs \<and> list_all P ys"
  by (induction xs) auto

text \<open>
  The simulated mesh never decides: whatever credentials are granted and revoked, no node accepts
  any of them, and none that carries weight on every node is rejected by all.
\<close>

theorem simulated_mesh_undecided:
  assumes "mesh_run B n False m" "0 < n" "length (mesh_claims m) \<le> 4294967295" "i < length (mesh_claims m)"
  shows "all_accept B m i = Some False
    \<and> ((\<forall>t\<in>set (mesh_trackers m). 2 \<le> bps (reputation t (claim_origin (mesh_claims m ! i))))
         \<longrightarrow> all_reject B m i = Some False)"
proof -
  let ?c = "mesh_claims m ! i" let ?heavy = "\<lambda>t. 2 \<le> bps (reputation t (claim_origin ?c))"
  let ?P = "\<lambda>s. of_nat i \<notin> set (accepted s) \<and> ((\<forall>t\<in>set (mesh_trackers m). ?heavy t) \<longrightarrow> of_nat i \<notin> set (rejected s))"
  have ok: "mesh_ok n False m" by (rule mesh_run_ok [OF assms(1)])
  have len: "length (mesh_claims m) \<le> 4294967296" using assms(3) by simp
  have conf: "confidence ?c = VERY_HIGH" using ok assms(4) by (simp add: mesh_ok_def)
  have node: "\<exists>s. compute_beliefs B (mesh_engine m) (mesh_claims m) g (reputation t) = Some s \<and> ?P s"
    if gt: "(g, t) \<in> set (zip (mesh_graphs m) (mesh_trackers m))" for g t
  proof -
    let ?w = "lo_val (base_weight (reputation t) ?c)"
    have g: "length (kg_edges g) \<le> 4294967295" "\<forall>e\<in>set (kg_edges g). relation e = Contradicts"
      and t: "tracker_valid t" "bps (reputation t (claim_origin ?c)) \<le> 600" and e: "mesh_engine m = default_engine"
      using ok assms(3) set_zip_leftD [OF gt] set_zip_rightD [OF gt] by (fastforce simp: mesh_ok_def)+
    obtain s where s: "compute_beliefs B default_engine (mesh_claims m) g (reputation t) = Some s"
      using beliefs_partition by blast
    have w: "?w \<le> 414" "?heavy t \<Longrightarrow> 0 < ?w" using granted_weight [where rep = "reputation t", OF conf t(2)] by blast+
    note p = compute_trust [OF len g(1) assms(4) reputation_valid [OF t(1)] s refl refl]
    have "of_nat i \<notin> set (accepted s)"
    proof (rule p)
      fix p
      assume s: "s = foldl (classify default_engine p) \<lparr>accepted = [], rejected = [], uncertain = []\<rparr> [0..<length (mesh_claims m)]"
        and le: "\<forall>e\<in>set (kg_edges g). supportive e \<longrightarrow> edge_to e \<noteq> of_nat i \<Longrightarrow> lo_val (trust_of p (of_nat i)) \<le> ?w"
      have "lo_val (trust_of p (of_nat i)) \<le> 414" using le w(1) g(2) by (force simp: supportive_def)
      then show "of_nat i \<notin> set (accepted s)"
        unfolding s classify_fold append_Nil BeliefState.simps arena_positions [OF len assms(4)] by (simp add: default_engine_def)
    qed
    moreover have "of_nat i \<notin> set (rejected s)" if "?heavy t"
    proof (rule p)
      fix p
      assume s: "s = foldl (classify default_engine p) \<lparr>accepted = [], rejected = [], uncertain = []\<rparr> [0..<length (mesh_claims m)]"
        and ge: "0 < ?w \<and> max_contradiction_damping_bps default_engine \<le> 10000 \<longrightarrow>
          ?w - ?w * uint (max_contradiction_damping_bps default_engine) div 10000 \<le> lo_val (trust_of p (of_nat i))
          \<and> 0 \<le> lo_val (trust_of p (of_nat i))"
      have "0 \<le> lo_val (trust_of p (of_nat i))" using ge w(2) [OF that] by (simp add: default_engine_def)
      then show "of_nat i \<notin> set (rejected s)"
        unfolding s classify_fold append_Nil BeliefState.simps arena_positions [OF len assms(4)] by (simp add: default_engine_def)
    qed
    ultimately show ?thesis using s e set_zip_rightD [OF gt] by auto
  qed
  let ?f = "\<lambda>(g, t). compute_beliefs B (mesh_engine m) (mesh_claims m) g (reputation t)"
  have "\<forall>x\<in>set (zip (mesh_graphs m) (mesh_trackers m)). \<exists>s. ?f x = Some s \<and> ?P s"
  proof
    fix x assume "x \<in> set (zip (mesh_graphs m) (mesh_trackers m))"
    then show "\<exists>s. ?f x = Some s \<and> ?P s" using node [of "fst x" "snd x"] unfolding case_prod_beta prod.collapse by blast
  qed
  from those_all [OF this]
  obtain ss where "those (map ?f (zip (mesh_graphs m) (mesh_trackers m))) = Some ss"
    "length ss = length (zip (mesh_graphs m) (mesh_trackers m))" "list_all ?P ss" by blast
  then have ss: "compute_all B m = Some ss" "length ss = n" "list_all ?P ss"
    using ok by (simp_all add: compute_all_def mesh_ok_def)
  then obtain s rest where "ss = s # rest" using assms(2) by (cases ss) auto
  then show ?thesis using ss by (auto simp: all_accept_def all_reject_def)
qed

section \<open>A revocation does not cascade\<close>

lemma pass1_loop_trust:
  assumes "distinct (map fst base)" "step = pass1_step g C rep claims groups dis base base"
  shows "trust_of (pass1_loop step n base) k = trust_of ((step ^^ n) base) k"
  using pass1_loop_cases [of step n base]
proof (elim disjE exE conjE)
  fix m
  let ?t = "(step ^^ m) base"
  assume m: "m < n" "pass1_loop step n base = step ?t" "\<not> trust_changed ?t (step ?t)"
  have ext: "trust_of (step t) k = trust_of (step t') k" if "\<And>u. trust_of t u = trust_of t' u" for t t' k
    using pass1_step_local [of k g C t t'] that unfolding assms(2) trust_of_def [of "pass1_step _ _ _ _ _ _ _ _ _"] by metis
  have "fst ` set ?t \<subseteq> fst ` set (step ?t)"
    unfolding assms(2) by (cases m) (auto simp: pass1_step_keys subset_iff simp del: image_iff)
  then have fixed: "trust_of ?t u = trust_of (step ?t) u" for u
    using m(3) pass1_step_distinct [OF assms(1)] unfolding assms(2) by (intro not_changed)
  have "trust_of ((step ^^ (j + m)) base) u = trust_of ?t u" for j u
  proof (induction j arbitrary: u)
    case (Suc j)
    then show ?case using ext [of "(step ^^ (j + m)) base" ?t u] fixed by simp
  qed simp
  from this [of "n - m" k] show ?thesis using m(1,2) fixed by simp
qed simp

text \<open>
  Two computations side by side: claims with a graph, and the same with one more claim and one more
  edge, which contradicts and leaves the new claim.
\<close>

lemma total_out_extended:
  assumes "kg_valid g" "edge_from e \<noteq> x" "\<not> supportive e"
  shows "total_out (add_edge g e) {} x = total_out g {} x"
proof (cases "adjacency g x")
  case None
  then show ?thesis using assms(2) by (simp add: total_out_def add_edge_def Let_def)
next
  case (Some l)
  then have "l = out_edges (kg_edges g) x" using assms(1) by (metis kg_valid_def or_default_simps(2))
  then have l: "\<forall>i\<in>set l. i < length (kg_edges g)" by (auto simp: out_edges_def)
  have "adjacency (add_edge g e) x = Some l" using Some assms(2) by (simp add: add_edge_def Let_def)
  moreover have "map (edge_bps (add_edge g e)) (filter (flows (add_edge g e) {}) l) = map (edge_bps g) (filter (flows g {}) l)"
    using l by (intro map_cong filter_cong) (auto simp: edge_bps_def flows_def kg.edges_add nth_append)
  ultimately show ?thesis using Some by (simp add: total_out_def)
qed

lemma step_extended:
  assumes g: "kg_valid g" "\<forall>e\<in>set (kg_edges g). unat (edge_from e) < length claims"
    and e: "\<not> supportive e" "edge_from e = of_nat (length claims)" "length claims < 4294967296"
    and groups: "\<forall>i<length claims. groups' ! i = groups ! i" "length groups = length claims" "length groups' = Suc (length claims)"
    and base: "\<forall>k. unat k < length claims \<longrightarrow> map_of base' k = map_of base k"
    and t: "\<forall>k. unat k < length claims \<longrightarrow> trust_of t' k = trust_of t k"
    and k: "unat k < length claims"
  shows "trust_of (pass1_step (add_edge g e) {} rep (claims @ [r]) groups' dis base' base' t') k
    = trust_of (pass1_step g {} rep claims groups dis base base t) k"
proof -
  let ?g = "add_edge g e" and ?n = "length (kg_edges g)"
  have u: "unat (of_nat (length claims) :: u32) = length claims" using e(3) by (simp add: unat_of_nat)
  have d: "delivered ?g {} rep (claims @ [r]) groups' t' i = delivered g {} rep claims groups t i" if i: "i < ?n" for i
  proof -
    let ?x = "edge_from (kg_edges g ! i)"
    have x: "unat ?x < length claims" using g(2) i by simp
    then have "edge_from e \<noteq> ?x" using u e(2) by auto
    note total_out_extended [OF g(1) this e(1)]
    then show ?thesis
      using x t groups i by (simp add: delivered_def contribution_def source_trust_def author_rep_def source_id_def source_group_def
          edge_bps_def kg.edges_add nth_append Let_def)
  qed
  have fl: "flows ?g {} i \<longleftrightarrow> flows g {} i" "kg_edges ?g ! i = kg_edges g ! i" if "i < ?n" for i
    using that by (simp_all add: flows_def kg.edges_add nth_append)
  have "filter (\<lambda>i. flows ?g {} i \<and> edge_to (kg_edges ?g ! i) = k) [0..<length (kg_edges ?g)]
      = filter (\<lambda>i. flows g {} i \<and> edge_to (kg_edges g ! i) = k) [0..<?n]" (is "?js' = ?js")
  proof -
    have "\<not> flows ?g {} ?n" using e(1) by (simp add: flows_def kg.edges_add)
    then have "?js' = filter (\<lambda>i. flows ?g {} i \<and> edge_to (kg_edges ?g ! i) = k) [0..<?n]" by (simp add: kg.edges_add)
    also have "\<dots> = ?js" using fl by (intro filter_cong) simp_all
    finally show ?thesis .
  qed
  moreover have "map (\<lambda>i. snd (delivered ?g {} rep (claims @ [r]) groups' t' i)) ?js
      = map (\<lambda>i. snd (delivered g {} rep claims groups t i)) ?js"
    using d by (intro map_cong) simp_all
  ultimately have inc: "map_of (incoming ?g {} rep (claims @ [r]) groups' t') k = map_of (incoming g {} rep claims groups t) k"
    by (simp only: incoming_lookup(2) Let_def)
  have "map_of base' k = map_of base k" using base k by blast
  moreover from this have "trust_of base' k = trust_of base k" by (simp add: trust_of_def)
  ultimately show ?thesis unfolding trust_of_def [of "pass1_step _ _ _ _ _ _ _ _ _"] pass1_step_lookup inc
    by (cases "map_of (incoming g {} rep claims groups t) k"; cases "map_of base k") simp_all
qed

lemma pass2_extended:
  assumes g: "\<forall>e\<in>set (kg_edges g). unat (edge_from e) < length claims" and e: "\<not> supportive e" "edge_to e \<noteq> k"
    and t: "\<forall>k. unat k < length claims \<longrightarrow> trust_of t' k = trust_of t k" and k: "unat k < length claims"
  shows "trust_of (pass2 (add_edge g e) rep (claims @ [r]) D t') k = trust_of (pass2 g rep claims D t) k"
proof -
  let ?g = "add_edge g e"
  have w: "weighted ?g t' P k = weighted g t P k" for P
  proof -
    have "map (\<lambda>e. lo_val (source_trust t' (edge_from e))) (filter (\<lambda>e. edge_to e = k \<and> P e) (kg_edges g))
        = map (\<lambda>e. lo_val (source_trust t (edge_from e))) (filter (\<lambda>e. edge_to e = k \<and> P e) (kg_edges g))"
      using g t by (intro map_cong) (auto simp: source_trust_def)
    moreover have "filter (\<lambda>e. edge_to e = k \<and> P e) (kg_edges ?g) = filter (\<lambda>e. edge_to e = k \<and> P e) (kg_edges g)"
      using e(2) by (simp add: kg.edges_add)
    ultimately show ?thesis by (simp only: weighted_def)
  qed
  let ?es = "filter (\<lambda>e. relation e = Contradicts \<and> edge_to e = k) (kg_edges g)"
  have "capped_penalty ?g rep (claims @ [r]) D t' d = capped_penalty g rep claims D t d" if "d \<in> set ?es" for d
  proof -
    have x: "unat (edge_from d) < length claims" "edge_to d = k" using that g by auto
    then show ?thesis using t k w
      by (simp add: capped_penalty_def raw_penalty_def dynamic_alpha_def author_rep_def source_trust_def nth_append Let_def)
  qed
  then have "sum_list (map (capped_penalty ?g rep (claims @ [r]) D t') ?es) = sum_list (map (capped_penalty g rep claims D t) ?es)"
    by (intro arg_cong [where f = sum_list] map_cong) simp_all
  moreover have "filter (\<lambda>e. relation e = Contradicts \<and> edge_to e = k) (kg_edges ?g) = ?es" using e(2) by (simp add: kg.edges_add)
  ultimately have "lo_val (trust_of (pass2 ?g rep (claims @ [r]) D t') k) = lo_val (trust_of (pass2 g rep claims D t) k)"
    using t k by (simp add: pass2_value)
  then show ?thesis by (simp add: lo_val_inject)
qed

lemma base_trust_distinct: "distinct (map fst (base_trust_of rep claims))"
  by (induction claims rule: rev_induct) (simp_all add: base_trust_of_def enumerate_append_eq distinct_update)

lemma base_trust_extended:
  assumes "length claims < 4294967296" "unat k < length claims"
  shows "map_of (base_trust_of rep (claims @ [r])) k = map_of (base_trust_of rep claims) k"
  using assms by (simp add: base_trust_lookup nth_append)

text \<open>Without embeddings the group of a claim does not depend on the others.\<close>

lemma groups_plain:
  assumes "\<forall>c\<in>set claims. embedding c = None"
  shows "map (group_of B C DEFAULT_SUPPORT_THRESHOLD) claims
    = map (\<lambda>c. \<lparr>cg_key = effective_correlation_cell B c, cg_assessed = False\<rparr>) claims"
  using assms by (intro map_cong) (auto simp: group_of_def assessable_def)

text \<open>The trust of every claim but the revoked one is that without the revocation.\<close>

lemma trust_extended:
  assumes g: "kg_valid g" "\<forall>e\<in>set (kg_edges g). unat (edge_from e) < length claims" "acyclic (support_rel (kg_edges g))"
    and e: "\<not> supportive e" "edge_from e = of_nat (length claims)" "edge_to e \<noteq> k"
    and claims: "length claims < 4294967296" "\<forall>c\<in>set claims. embedding c = None" "embedding r = None"
    and k: "unat k < length claims"
    and p: "propagate_trust_full B g (base_trust_of rep claims) 5 D claims rep = Some p"
    and p': "propagate_trust_full B (add_edge g e) (base_trust_of rep (claims @ [r])) 5 D (claims @ [r]) rep = Some p'"
  shows "trust_of p' k = trust_of p k"
proof -
  let ?g = "add_edge g e" let ?base = "base_trust_of rep claims" let ?base' = "base_trust_of rep (claims @ [r])"
  let ?cell = "\<lambda>c. \<lparr>cg_key = effective_correlation_cell B c, cg_assessed = False\<rparr>"
  let ?step = "pass1_step g {} rep claims (map ?cell claims) DEFAULT_DISCOUNT_BPS ?base ?base"
  let ?step' = "pass1_step ?g {} rep (claims @ [r]) (map ?cell (claims @ [r])) DEFAULT_DISCOUNT_BPS ?base' ?base'"
  have "support_rel (kg_edges ?g) = support_rel (kg_edges g)" using e(1) by (auto simp: support_rel_def kg.edges_add)
  then have none: "cyclic_edge_indices g = {}" "cyclic_edge_indices ?g = {}"
    using cyclic_empty_iff [OF g(1)] cyclic_empty_iff [OF kg.ok_add [OF g(1), of e]] g(3) by simp_all
  have base: "\<forall>k. unat k < length claims \<longrightarrow> map_of ?base' k = map_of ?base k"
    using base_trust_extended [OF claims(1)] by blast
  have "\<forall>k. unat k < length claims \<longrightarrow> trust_of ((?step' ^^ n) ?base') k = trust_of ((?step ^^ n) ?base) k" for n
  proof (induction n)
    case 0
    then show ?case using base by (simp add: trust_of_def)
  next
    case (Suc n)
    then show ?case
      using step_extended [OF g(1,2) e(1,2) claims(1) _ _ _ base Suc, of "map ?cell (claims @ [r])" "map ?cell claims"]
      by (simp add: nth_append)
  qed
  then have loops: "\<forall>k. unat k < length claims \<longrightarrow> trust_of (pass1_loop ?step' 5 ?base') k = trust_of (pass1_loop ?step 5 ?base) k"
    using pass1_loop_trust [OF base_trust_distinct refl] by metis
  have "p = pass2 g rep claims D (pass1_loop ?step 5 ?base)"
    using p claims(2) by (simp add: propagate_full_eq none groups_plain)
  moreover have "p' = pass2 ?g rep (claims @ [r]) D (pass1_loop ?step' 5 ?base')"
  proof -
    have "\<forall>c\<in>set (claims @ [r]). embedding c = None" using claims(2,3) by simp
    note plain = groups_plain [OF this, of B "set (claims @ [r])"]
    show ?thesis using p' unfolding propagate_full_eq none plain by (simp del: map_append)
  qed
  ultimately show ?thesis using pass2_extended [OF g(2) e(1,3) loops k] by simp
qed

lemma beliefs_by_trust:
  assumes "compute_beliefs B engine claims g rep = Some s" "length claims \<le> 4294967296" "k < length claims"
  obtains p where "propagate_trust_full B g (base_trust_of rep claims) 5 (max_contradiction_damping_bps engine) claims rep = Some p"
    "of_nat k \<in> set (accepted s) \<longleftrightarrow> lo_val (accept_threshold engine) \<le> lo_val (trust_of p (of_nat k))"
    "of_nat k \<in> set (rejected s) \<longleftrightarrow> lo_val (trust_of p (of_nat k)) < lo_val (accept_threshold engine)
       \<and> lo_val (trust_of p (of_nat k)) \<le> lo_val (reject_threshold engine)"
    "of_nat k \<in> set (uncertain s) \<longleftrightarrow> lo_val (trust_of p (of_nat k)) < lo_val (accept_threshold engine)
       \<and> lo_val (trust_of p (of_nat k)) > lo_val (reject_threshold engine)"
proof -
  obtain p where p: "propagate_trust_full B g (base_trust_of rep claims) 5 (max_contradiction_damping_bps engine) claims rep = Some p"
    "s = foldl (classify engine p) \<lparr>accepted = [], rejected = [], uncertain = []\<rparr> [0..<length claims]"
    using assms(1) by (auto simp: compute_beliefs_eq)
  show thesis
    by (rule that [OF p(1)], unfold p(2) classify_fold append_Nil BeliefState.simps arena_positions [OF assms(2,3)])
       (rule refl)+
qed

text \<open>A revocation on one node.\<close>

lemma beliefs_extended:
  assumes g: "kg_valid g" "\<forall>e\<in>set (kg_edges g). unat (edge_from e) < length claims" "acyclic (support_rel (kg_edges g))"
    and e: "e = \<lparr>edge_from = of_nat (length claims), edge_to = of_nat j, relation = Contradicts, strength = r\<rparr>" "k \<noteq> j"
    and claims: "length claims < 4294967296" "\<forall>c\<in>set claims. embedding c = None" "embedding c = None"
    and k: "k < length claims" "j < length claims"
    and s: "compute_beliefs B engine claims g rep = Some s" "compute_beliefs B engine (claims @ [c]) (add_edge g e) rep = Some s'"
  shows "(of_nat k \<in> set (accepted s') \<longleftrightarrow> of_nat k \<in> set (accepted s))
    \<and> (of_nat k \<in> set (rejected s') \<longleftrightarrow> of_nat k \<in> set (rejected s))
    \<and> (of_nat k \<in> set (uncertain s') \<longleftrightarrow> of_nat k \<in> set (uncertain s))"
proof -
  have len: "length claims \<le> 4294967296" "length (claims @ [c]) \<le> 4294967296" "k < length (claims @ [c])" using claims(1) k by simp_all
  have u: "unat (of_nat k :: u32) = k" "unat (of_nat j :: u32) = j" using claims(1) k by (simp_all add: unat_of_nat)
  then have to: "edge_to e \<noteq> of_nat k" using e by auto
  obtain p where p: "propagate_trust_full B g (base_trust_of rep claims) 5 (max_contradiction_damping_bps engine) claims rep = Some p"
    and b: "of_nat k \<in> set (accepted s) \<longleftrightarrow> lo_val (accept_threshold engine) \<le> lo_val (trust_of p (of_nat k))"
    "of_nat k \<in> set (rejected s) \<longleftrightarrow> lo_val (trust_of p (of_nat k)) < lo_val (accept_threshold engine)
       \<and> lo_val (trust_of p (of_nat k)) \<le> lo_val (reject_threshold engine)"
    "of_nat k \<in> set (uncertain s) \<longleftrightarrow> lo_val (trust_of p (of_nat k)) < lo_val (accept_threshold engine)
       \<and> lo_val (trust_of p (of_nat k)) > lo_val (reject_threshold engine)"
    by (rule beliefs_by_trust [OF s(1) len(1) k(1)])
  obtain p' where p': "propagate_trust_full B (add_edge g e) (base_trust_of rep (claims @ [c])) 5
      (max_contradiction_damping_bps engine) (claims @ [c]) rep = Some p'"
    and b': "of_nat k \<in> set (accepted s') \<longleftrightarrow> lo_val (accept_threshold engine) \<le> lo_val (trust_of p' (of_nat k))"
    "of_nat k \<in> set (rejected s') \<longleftrightarrow> lo_val (trust_of p' (of_nat k)) < lo_val (accept_threshold engine)
       \<and> lo_val (trust_of p' (of_nat k)) \<le> lo_val (reject_threshold engine)"
    "of_nat k \<in> set (uncertain s') \<longleftrightarrow> lo_val (trust_of p' (of_nat k)) < lo_val (accept_threshold engine)
       \<and> lo_val (trust_of p' (of_nat k)) > lo_val (reject_threshold engine)"
    by (rule beliefs_by_trust [OF s(2) len(2,3)])
  have "trust_of p' (of_nat k) = trust_of p (of_nat k)"
    by (rule trust_extended [OF g _ _ to claims _ p p']) (use e u k in \<open>simp_all add: supportive_def\<close>)
  then show ?thesis unfolding b b' by simp
qed

lemma those_eq_Some: "those xs = Some ys \<longleftrightarrow> xs = map Some ys"
  by (induction xs arbitrary: ys) (auto split: option.splits simp: Cons_eq_map_conv)

text \<open>
  C36: A revocation does not cascade: in a mesh with acyclic delegations it changes on every node the belief
  in the revoked credential at most, so everything that was delegated from it, directly or over
  other credentials, is accepted, rejected or undecided as before.
\<close>

theorem revocation_does_not_cascade:
  assumes "mesh_run B n delegating m" "length (mesh_claims m) < 4294967296"
    and "\<forall>g\<in>set (mesh_graphs m). acyclic (support_rel (kg_edges g))
      \<and> (\<forall>e\<in>set (kg_edges g). unat (edge_from e) < length (mesh_claims m))"
    and "revoke_credential B revoker j m = Some (idx, m')"
    and "compute_all B m = Some ss" "compute_all B m' = Some ss'"
    and "k < length (mesh_claims m)" "k \<noteq> j"
  shows "list_all2 (\<lambda>s s'. (of_nat k \<in> set (accepted s') \<longleftrightarrow> of_nat k \<in> set (accepted s))
    \<and> (of_nat k \<in> set (rejected s') \<longleftrightarrow> of_nat k \<in> set (rejected s))
    \<and> (of_nat k \<in> set (uncertain s') \<longleftrightarrow> of_nat k \<in> set (uncertain s))) ss ss'"
proof -
  have ok: "mesh_ok n delegating m" by (rule mesh_run_ok [OF assms(1)])
  let ?N = "length (mesh_claims m)"
  let ?e = "\<lparr>edge_from = of_nat ?N, edge_to = of_nat j, relation = Contradicts, strength = from_bps 10000\<rparr>"
  let ?f = "\<lambda>(g, t). compute_beliefs B (mesh_engine m) (mesh_claims m) g (reputation t)"
  have "\<exists>c. embedding c = None \<and> mesh_claims m' = mesh_claims m @ [c]" "j < ?N"
    "mesh_graphs m' = map (\<lambda>g. add_edge g ?e) (mesh_graphs m)" "mesh_trackers m' = mesh_trackers m" "mesh_engine m' = mesh_engine m"
    using assms(4) by (auto simp: revoke_credential_def Let_def split: if_splits)
  then obtain c where j: "j < ?N" and c: "embedding c = None"
    and m': "mesh_claims m' = mesh_claims m @ [c]" "mesh_graphs m' = map (\<lambda>g. add_edge g ?e) (mesh_graphs m)"
      "mesh_trackers m' = mesh_trackers m" "mesh_engine m' = mesh_engine m" by blast
  let ?f' = "\<lambda>(g, t). compute_beliefs B (mesh_engine m) (mesh_claims m @ [c]) (add_edge g ?e) (reputation t)"
  let ?ns = "zip (mesh_graphs m) (mesh_trackers m)"
  have ss: "map ?f ?ns = map Some ss" "map ?f' ?ns = map Some ss'"
    using assms(5,6) by (simp_all add: compute_all_def m' those_eq_Some zip_map1 comp_def split_def)
  have len: "length ss = length ?ns" "length ss' = length ?ns" using ss by (metis length_map)+
  show ?thesis
  proof (rule list_all2_all_nthI)
    fix q assume q: "q < length ss"
    then obtain g t where gt: "?ns ! q = (g, t)" "g \<in> set (mesh_graphs m)" using len by auto
    have "?f (g, t) = Some (ss ! q)" "?f' (g, t) = Some (ss' ! q)"
      using ss q len gt(1) by (metis nth_map)+
    moreover have "kg_valid g" "\<forall>c\<in>set (mesh_claims m). embedding c = None" using ok gt(2) by (simp_all add: mesh_ok_def)
    ultimately show "(of_nat k \<in> set (accepted (ss' ! q)) \<longleftrightarrow> of_nat k \<in> set (accepted (ss ! q)))
        \<and> (of_nat k \<in> set (rejected (ss' ! q)) \<longleftrightarrow> of_nat k \<in> set (rejected (ss ! q)))
        \<and> (of_nat k \<in> set (uncertain (ss' ! q)) \<longleftrightarrow> of_nat k \<in> set (uncertain (ss ! q)))"
      using assms(2,3,7,8) gt(2) j c by (intro beliefs_extended [where e = ?e and j = j and r = "from_bps 10000" and c = c and g = g and rep = "reputation t"]) auto
  qed (simp add: len)
qed

section \<open>Evaluations\<close>

text \<open>A full credential, contradicted by an equally trusted claim, stays accepted.\<close>

theorem revocation_cannot_reject_witness:
  "\<exists>s. compute_beliefs sample_hash default_engine [sample_observation 1 6907, sample_observation 2 6907]
      (add_edge kg_new \<lparr>edge_from = 1, edge_to = 0, relation = Contradicts, strength = rep_FULL\<rparr>) (\<lambda>_. rep_FULL) = Some s
    \<and> 0 \<notin> set (rejected s) \<and> 0 \<in> set (accepted s)"
proof -
  let ?g = "add_edge kg_new \<lparr>edge_from = 1, edge_to = 0, relation = Contradicts, strength = rep_FULL\<rparr>"
  let ?cs = "[sample_observation 1 6907, sample_observation 2 6907]"
  obtain s where s: "compute_beliefs sample_hash default_engine ?cs ?g (\<lambda>_. rep_FULL) = Some s"
    using beliefs_partition by blast
  have w: "lo_val (base_weight (\<lambda>_. rep_FULL) (?cs ! 0)) = 6907"
    by (simp add: base_weight_def weight_evidence_val rep_FULL_def declared_confidence_def lo_val_clamp_declared clampi_def
        MIN_DECLARED_def MAX_DECLARED_def sdiv_nonneg i32_min_def i32_max_def sample_observation_def sample_claim_def)
  show ?thesis
    using revocation_cannot_reject [OF s, of 0 6907] w s
    by (simp add: kg.edges_add kg.edges_empty default_engine_def rep_FULL_def)
qed

text \<open>The first scenario of the benchmark: a grant, its revocation by the issuer, three nodes.\<close>

theorem simulated_mesh_undecided_witness:
  "\<exists>m. revoke_credential sample_hash [1] 0 (snd (grant_credential sample_hash [1] (ascii ''deploy'') (mesh_new 3))) = Some (1, m)
    \<and> all_accept sample_hash m 0 = Some False \<and> all_reject sample_hash m 0 = Some False"
proof -
  let ?g = "snd (grant_credential sample_hash [1] (ascii ''deploy'') (mesh_new 3))"
  have one: "length (mesh_claims ?g) = 1" by (simp add: grant_credential_def mesh_new_def Let_def)
  then obtain m where m: "revoke_credential sample_hash [1] 0 ?g = Some (1, m)" by (simp add: revoke_credential_def Let_def)
  have r: "mesh_run sample_hash 3 False m"
    by (rule mesh_run.revoked [OF mesh_run.granted [OF mesh_run.meshed] m])
  have c: "length (mesh_claims m) = 2" "claim_origin (mesh_claims m ! 0) = [1]" "mesh_trackers m = mesh_trackers ?g"
    using m one by (auto simp: revoke_credential_def Let_def nth_append) (simp add: grant_credential_def mesh_new_def Let_def)
  have "\<forall>t\<in>set (mesh_trackers ?g). 2 \<le> bps (reputation t [1])"
    by (simp add: grant_credential_def mesh_new_def Let_def delegate_def update_reputation_def reputation_def tracker_new_def
        event_score_def u16_sat_add_def rep_ZERO_def from_bps_def anchor_def usub_sat_def)
  then show ?thesis using simulated_mesh_undecided [OF r, of 0] c m by simp
qed

lemma compute_all_returns: "\<exists>ss. compute_all B m = Some ss"
proof -
  have "\<forall>x\<in>set (zip (mesh_graphs m) (mesh_trackers m)).
      \<exists>s. (\<lambda>(g, t). compute_beliefs B (mesh_engine m) (mesh_claims m) g (reputation t)) x = Some s \<and> True"
    using beliefs_partition unfolding split_def by blast
  from those_all [OF this] show ?thesis unfolding compute_all_def by blast
qed

text \<open>The second scenario, with one hop: the delegated credential at position 1 does not notice.\<close>

theorem revocation_does_not_cascade_witness:
  "\<exists>m m' ss ss'. m = add_delegation 0 1 (snd (grant_credential sample_hash [2] (ascii ''tool'')
        (snd (grant_credential sample_hash [1] (ascii ''root'') (mesh_new 2)))))
    \<and> revoke_credential sample_hash [1] 0 m = Some (2, m')
    \<and> compute_all sample_hash m = Some ss \<and> compute_all sample_hash m' = Some ss'
    \<and> list_all2 (\<lambda>s s'. 1 \<in> set (accepted s') \<longleftrightarrow> 1 \<in> set (accepted s)) ss ss'"
proof -
  let ?g = "snd (grant_credential sample_hash [2] (ascii ''tool'')
        (snd (grant_credential sample_hash [1] (ascii ''root'') (mesh_new 2))))"
  let ?m = "add_delegation 0 1 ?g" let ?e = "\<lparr>edge_from = 0, edge_to = 1, relation = DerivedFrom, strength = from_bps 9000\<rparr>"
  have two: "length (mesh_claims ?m) = 2" "mesh_graphs ?m = replicate 2 (add_edge kg_new ?e)"
    by (simp_all add: add_delegation_def grant_credential_def mesh_new_def Let_def numeral_2_eq_2)
  have "\<exists>m'. revoke_credential B x 0 m = Some (2, m')" if "length (mesh_claims m) = 2" for B x m
    using that by (auto simp: revoke_credential_def Let_def)
  from this [OF two(1)] obtain m' where m': "revoke_credential sample_hash [1] 0 ?m = Some (2, m')" by blast
  obtain ss ss' where ss: "compute_all sample_hash ?m = Some ss" "compute_all sample_hash m' = Some ss'"
    using compute_all_returns by metis
  have r: "mesh_run sample_hash 2 True ?m"
    by (rule mesh_run.delegated [OF mesh_run.granted [OF mesh_run.granted [OF mesh_run.meshed]]])
  have "support_rel (kg_edges (add_edge kg_new ?e)) = {(0, 1)}"
    by (auto simp: support_rel_def kg.edges_add kg.edges_empty supportive_def)
  moreover have "acyclic {(0 :: u32, 1 :: u32)}" by (simp add: acyclic_insert) (simp add: acyclic_def)
  ultimately have ac: "acyclic (support_rel (kg_edges (add_edge kg_new ?e)))" by (simp only:)
  have g: "\<forall>g\<in>set (mesh_graphs ?m). acyclic (support_rel (kg_edges g))
      \<and> (\<forall>e\<in>set (kg_edges g). unat (edge_from e) < length (mesh_claims ?m))"
    unfolding two using ac by (simp only: set_replicate_Suc numeral_2_eq_2 ball_simps) (simp add: kg.edges_add kg.edges_empty)
  have "list_all2 (\<lambda>s s'. 1 \<in> set (accepted s') \<longleftrightarrow> 1 \<in> set (accepted s)) ss ss'"
    using revocation_does_not_cascade [OF r _ g m' ss, of 1] two(1) by (auto elim: list.rel_mono_strong)
  with m' ss show ?thesis by blast
qed

end
