(* ===== verification/L3_Mesh.thy ===== *)
theory L3_Mesh
  imports Mesh_Sync Revocation Protocol
begin

text \<open>
  Both layers in one mesh (\<open>aimp_node/examples/bench_l3_netem.rs\<close>): replicas of the DAG next to
  epistemic nodes that copy claims and edges from each other, and the test whether the nodes agree.
  Every node has a reputation tracker of its own, which delegates from the anchor to the author of
  each claim in the order in which the claims arrive. The exchanges that are lost are a parameter.
\<close>

section \<open>The code\<close>

text \<open>A mutation of the lower layer; a message that does not serialize panics.\<close>

definition create_mutation ::
  "platform \<Rightarrow> wire \<Rightarrow> call_env \<Rightarrow> Identity \<Rightarrow> bytes \<Rightarrow> string \<Rightarrow> nat \<Rightarrow> MerkleCrdtEngine \<Rightarrow> (Hash32 \<times> MerkleCrdtEngine) option" where
  "create_mutation P W env i d node tick e =
     (let dh = blake P d
      in case sign W i \<lparr>data_v = 1, data_op = Ping, data_ttl = 3, origin_pubkey = node_id i, data_vclock = [], data_payload = d\<rparr> of
           Inl _ \<Rightarrow> None
         | Inr s \<Rightarrow> Some (append_mutation P env dh (env_signature s) [(node, of_nat tick)] None e))"

definition l2_sync_round ::
  "platform \<Rightarrow> (nat \<Rightarrow> nat \<Rightarrow> call_env) \<Rightarrow> (nat \<Rightarrow> nat \<Rightarrow> bool) \<Rightarrow> MerkleCrdtEngine list \<Rightarrow> MerkleCrdtEngine list \<times> nat" where
  "l2_sync_round P E lost es = sync_round (full_push P) E (impaired_pairs lost (length es)) es"

definition l2_converged :: "platform \<Rightarrow> MerkleCrdtEngine list \<Rightarrow> bool \<times> MerkleCrdtEngine list" where
  "l2_converged P es = (let roots = map (get_merkle_root P) es in (card (set (map fst roots)) = 1, map snd roots))"

record L3Node =
  l3_claims :: "Claim list"
  l3_graph :: KnowledgeGraph
  l3_tracker :: InMemoryReputationTracker
  l3_engine :: LogOddsBeliefEngine

definition l3_new :: L3Node where
  "l3_new = \<lparr>l3_claims = [], l3_graph = kg_new,
     l3_tracker = foldl (\<lambda>t _. update_reputation t mesh_anchor ClaimConfirmed) tracker_new [0..<50], l3_engine = default_engine\<rparr>"

definition l3_add_claim :: "Claim \<Rightarrow> L3Node \<Rightarrow> L3Node" where
  "l3_add_claim c n =
     n\<lparr>l3_tracker := delegate (l3_tracker n) mesh_anchor (claim_origin c) (from_bps 8000), l3_claims := l3_claims n @ [c]\<rparr>"

definition l3_add_edge :: "u32 \<Rightarrow> u32 \<Rightarrow> Relation \<Rightarrow> L3Node \<Rightarrow> L3Node" where
  "l3_add_edge f t r n =
     n\<lparr>l3_graph := add_edge (l3_graph n) \<lparr>edge_from = f, edge_to = t, relation = r, strength = from_bps 8000\<rparr>\<rparr>"

definition compute_belief :: "blake3 \<Rightarrow> L3Node \<Rightarrow> BeliefState option" where
  "compute_belief B n = compute_beliefs B (l3_engine n) (l3_claims n) (l3_graph n) (reputation (l3_tracker n))"

definition belief_fingerprint :: "blake3 \<Rightarrow> L3Node \<Rightarrow> (u32 list \<times> u32 list \<times> u32 list) option" where
  "belief_fingerprint B n =
     map_option (\<lambda>s. (sort (accepted s), sort (rejected s), sort (uncertain s))) (compute_belief B n)"

definition make_l3_claim :: "blake3 \<Rightarrow> u32 \<Rightarrow> bytes \<Rightarrow> int \<Rightarrow> Claim" where
  "make_l3_claim B i orig conf =
     (let fp = \<lparr>fp_primary = take 16 (B (le_bytes32 i)), fp_secondary = ucast i\<rparr>
      in \<lparr>claim_id = B (fp_primary fp @ le_bytes64 (ucast i)), fingerprint = fp, claim_origin = orig,
          kind = Observation 1 (le_bytes32 i), confidence = lo_new conf,
          evidence_source = le_bytes32 i @ replicate 28 0, claim_tick = ucast i, correlation_cell = None,
          embedding = None, embedding_version = 0\<rparr>)"

text \<open>What a node takes over from another: the claims with ids and the edges with ends and kind that it lacks.\<close>

definition take_claim :: "L3Node \<times> bool \<Rightarrow> Claim \<Rightarrow> L3Node \<times> bool" where
  "take_claim st c =
     (case st of (dst, changed) \<Rightarrow>
        if list_ex (\<lambda>d. claim_id d = claim_id c) (l3_claims dst) then st else (l3_add_claim c dst, True))"

definition same_edge :: "EpistemicEdge \<Rightarrow> EpistemicEdge \<Rightarrow> bool" where
  "same_edge d e \<longleftrightarrow> edge_from d = edge_from e \<and> edge_to d = edge_to e \<and> relation d = relation e"

definition take_edge :: "L3Node \<times> bool \<Rightarrow> EpistemicEdge \<Rightarrow> L3Node \<times> bool" where
  "take_edge st e =
     (case st of (dst, changed) \<Rightarrow>
        if list_ex (\<lambda>d. same_edge d e) (kg_edges (l3_graph dst)) then st
        else (dst\<lparr>l3_graph := add_edge (l3_graph dst) e\<rparr>, True))"

definition take_over :: "Claim list \<times> EpistemicEdge list \<Rightarrow> L3Node \<times> bool \<Rightarrow> L3Node \<times> bool" where
  "take_over snap st = foldl take_edge (foldl take_claim st (fst snap)) (snd snap)"

definition l3_sync :: "L3Node \<Rightarrow> L3Node \<Rightarrow> bool \<times> L3Node" where
  "l3_sync src dst =
     (let before = length (l3_claims dst) + length (kg_edges (l3_graph dst));
          dst = fst (take_over (l3_claims src, kg_edges (l3_graph src)) (dst, False));
          after = length (l3_claims dst) + length (kg_edges (l3_graph dst))
      in (after > before, dst))"

definition round_step ::
  "(nat \<Rightarrow> nat \<Rightarrow> bool) \<Rightarrow> nat \<Rightarrow> Claim list \<times> EpistemicEdge list \<Rightarrow> bool \<times> L3Node list \<Rightarrow> nat \<Rightarrow> bool \<times> L3Node list" where
  "round_step lost i snap st j =
     (case st of (changed, nodes) \<Rightarrow>
        if i = j \<or> lost i j then st
        else let (dst, changed) = take_over snap (nodes ! j, changed) in (changed, nodes[j := dst]))"

definition l3_sync_round :: "(nat \<Rightarrow> nat \<Rightarrow> bool) \<Rightarrow> L3Node list \<Rightarrow> bool \<times> L3Node list" where
  "l3_sync_round lost nodes =
     foldl (\<lambda>st (i, snap). foldl (round_step lost i snap) st [0..<length nodes]) (False, nodes)
       (enumerate 0 (map (\<lambda>n. (l3_claims n, kg_edges (l3_graph n))) nodes))"

definition l3_all_agree :: "blake3 \<Rightarrow> L3Node list \<Rightarrow> bool option" where
  "l3_all_agree B nodes =
     (case nodes of
        first # rest \<Rightarrow>
          if rest = [] then Some True
          else do {
            f \<leftarrow> belief_fingerprint B first;
            fs \<leftarrow> those (map (belief_fingerprint B) rest);
            Some (list_all (\<lambda>x. x = f) fs)
          }
      | [] \<Rightarrow> Some True)"

section \<open>What a round transfers\<close>

abbreviation ids :: "L3Node \<Rightarrow> ClaimHash set" where
  "ids n \<equiv> claim_id ` set (l3_claims n)"

abbreviation edge_keys :: "EpistemicEdge list \<Rightarrow> (u32 \<times> u32 \<times> Relation) set" where
  "edge_keys es \<equiv> (\<lambda>e. (edge_from e, edge_to e, relation e)) ` set es"

lemma take_claims:
  "ids (fst (foldl take_claim st cs)) = ids (fst st) \<union> claim_id ` set cs
   \<and> l3_graph (fst (foldl take_claim st cs)) = l3_graph (fst st)
   \<and> (distinct (map claim_id (l3_claims (fst st))) \<longrightarrow> distinct (map claim_id (l3_claims (fst (foldl take_claim st cs)))))"
proof (induction cs arbitrary: st)
  case (Cons c cs)
  have "ids (fst (take_claim st c)) = insert (claim_id c) (ids (fst st)) \<and> l3_graph (fst (take_claim st c)) = l3_graph (fst st)
    \<and> (distinct (map claim_id (l3_claims (fst st))) \<longrightarrow> distinct (map claim_id (l3_claims (fst (take_claim st c)))))"
    by (cases st) (auto simp: take_claim_def l3_add_claim_def list_ex_iff, metis imageI)
  then show ?case using Cons.IH [of "take_claim st c"] by auto
qed simp

lemma take_edges:
  "edge_keys (kg_edges (l3_graph (fst (foldl take_edge st es)))) = edge_keys (kg_edges (l3_graph (fst st))) \<union> edge_keys es
   \<and> l3_claims (fst (foldl take_edge st es)) = l3_claims (fst st)"
proof (induction es arbitrary: st)
  case (Cons e es)
  have "edge_keys (kg_edges (l3_graph (fst (take_edge st e)))) = insert (edge_from e, edge_to e, relation e) (edge_keys (kg_edges (l3_graph (fst st))))
    \<and> l3_claims (fst (take_edge st e)) = l3_claims (fst st)"
    by (cases st) (auto simp: take_edge_def list_ex_iff same_edge_def kg.edges_add image_iff, metis)
  then show ?case using Cons.IH [of "take_edge st e"] by auto
qed simp

text \<open>The flag does not matter for the node.\<close>

definition taken :: "Claim list \<times> EpistemicEdge list \<Rightarrow> L3Node \<Rightarrow> L3Node" where
  "taken snap d = fst (take_over snap (d, False))"

lemma take_over_taken: "fst (take_over snap st) = taken snap (fst st)"
proof -
  have c: "fst (foldl take_claim st cs) = fst (foldl take_claim (fst st, b) cs)" for st :: "L3Node \<times> bool" and b cs
  proof (induction cs arbitrary: st b)
    case (Cons c cs)
    have "fst (take_claim st c) = fst (take_claim (fst st, b) c)" by (cases st) (simp add: take_claim_def)
    then show ?case using Cons.IH [of "take_claim st c" False] Cons.IH [of "take_claim (fst st, b) c" False] by simp
  qed simp
  have e: "fst (foldl take_edge st es) = fst (foldl take_edge (fst st, b) es)" for st :: "L3Node \<times> bool" and b es
  proof (induction es arbitrary: st b)
    case (Cons x es)
    have "fst (take_edge st x) = fst (take_edge (fst st, b) x)" by (cases st) (simp add: take_edge_def)
    then show ?case using Cons.IH [of "take_edge st x" False] Cons.IH [of "take_edge (fst st, b) x" False] by simp
  qed simp
  show ?thesis
    unfolding taken_def take_over_def
    using c [of st "fst snap" False] e [of "foldl take_claim st (fst snap)" "snd snap" False]
      e [of "foldl take_claim (fst st, False) (fst snap)" "snd snap" False] by simp
qed

lemma taken_contents:
  "ids (taken snap d) = ids d \<union> claim_id ` set (fst snap)"
  "edge_keys (kg_edges (l3_graph (taken snap d))) = edge_keys (kg_edges (l3_graph d)) \<union> edge_keys (snd snap)"
  "distinct (map claim_id (l3_claims d)) \<Longrightarrow> distinct (map claim_id (l3_claims (taken snap d)))"
  unfolding taken_def take_over_def
  using take_claims [of "(d, False)" "fst snap"] take_edges [of "foldl take_claim (d, False) (fst snap)" "snd snap"] by auto

lemma round_steps:
  "distinct js \<Longrightarrow> \<forall>j\<in>set js. j < length (snd st) \<Longrightarrow>
   length (snd (foldl (round_step lost i snap) st js)) = length (snd st)
   \<and> (\<forall>j<length (snd st). snd (foldl (round_step lost i snap) st js) ! j
       = (if j \<in> set js \<and> i \<noteq> j \<and> \<not> lost i j then taken snap (snd st ! j) else snd st ! j))"
proof (induction js arbitrary: st)
  case (Cons k js)
  have "snd (round_step lost i snap st k) = (if i = k \<or> lost i k then snd st else (snd st)[k := taken snap (snd st ! k)])"
    using take_over_taken [of snap "(snd st ! k, fst st)"] by (simp add: round_step_def case_prod_beta Let_def)
  then show ?case using Cons.IH [of "round_step lost i snap st k"] Cons.prems by (auto simp: nth_list_update)
qed simp

text \<open>A round is one fold for each receiver, over the snapshots that were taken before the round.\<close>

definition receive :: "(nat \<Rightarrow> nat \<Rightarrow> bool) \<Rightarrow> nat \<Rightarrow> L3Node \<Rightarrow> nat \<times> Claim list \<times> EpistemicEdge list \<Rightarrow> L3Node" where
  "receive lost j d isnap = (if fst isnap \<noteq> j \<and> \<not> lost (fst isnap) j then taken (snd isnap) d else d)"

lemma round_columns:
  fixes st :: "bool \<times> L3Node list"
  assumes "length (snd st) = N"
  shows "length (snd (foldl (\<lambda>st (i, snap). foldl (round_step lost i snap) st [0..<N]) st xs)) = N
    \<and> (\<forall>j<N. snd (foldl (\<lambda>st (i, snap). foldl (round_step lost i snap) st [0..<N]) st xs) ! j
        = foldl (receive lost j) (snd st ! j) xs)"
  using assms
proof (induction xs arbitrary: st)
  case (Cons x xs)
  obtain i snap where x: "x = (i, snap)" by (cases x)
  have s: "length (snd (foldl (round_step lost i snap) st [0..<N])) = N"
    "\<forall>j<N. snd (foldl (round_step lost i snap) st [0..<N]) ! j = receive lost j (snd st ! j) x"
    using round_steps [of "[0..<N]" st lost i snap] Cons.prems by (simp_all add: x receive_def)
  show ?case using Cons.IH [OF s(1)] s(2) by (simp add: x)
qed simp

lemma received_contents:
  "ids (foldl (receive lost j) d xs) = ids d \<union> (\<Union>x\<in>{x\<in>set xs. fst x \<noteq> j \<and> \<not> lost (fst x) j}. claim_id ` set (fst (snd x)))"
  "edge_keys (kg_edges (l3_graph (foldl (receive lost j) d xs)))
    = edge_keys (kg_edges (l3_graph d)) \<union> (\<Union>x\<in>{x\<in>set xs. fst x \<noteq> j \<and> \<not> lost (fst x) j}. edge_keys (snd (snd x)))"
  "distinct (map claim_id (l3_claims d)) \<Longrightarrow> distinct (map claim_id (l3_claims (foldl (receive lost j) d xs)))"
proof (induction xs arbitrary: d)
  case (Cons x xs)
  let ?H = "{y \<in> set xs. fst y \<noteq> j \<and> \<not> lost (fst y) j}"
  have H: "{y \<in> set (x # xs). fst y \<noteq> j \<and> \<not> lost (fst y) j} = (if fst x \<noteq> j \<and> \<not> lost (fst x) j then {x} else {}) \<union> ?H"
    by auto
  { case 1 show ?case unfolding H foldl_Cons Cons.IH(1) by (simp add: receive_def taken_contents Un_assoc) }
  { case 2 show ?case unfolding H foldl_Cons Cons.IH(2) by (simp add: receive_def taken_contents Un_assoc) }
  { case (3 d)
    then have "distinct (map claim_id (l3_claims (receive lost j d x)))"
      unfolding receive_def using taken_contents(3) [of d "snd x"] by simp
    then show ?case unfolding foldl_Cons by (rule Cons.IH(3)) }
qed simp_all

abbreviation edges_of :: "L3Node \<Rightarrow> (u32 \<times> u32 \<times> Relation) set" where
  "edges_of n \<equiv> edge_keys (kg_edges (l3_graph n))"

lemma round_contents:
  fixes lost :: "nat \<Rightarrow> nat \<Rightarrow> bool" and nodes :: "L3Node list" and j :: nat
  assumes "j < length nodes"
  defines "H \<equiv> {i. i < length nodes \<and> i \<noteq> j \<and> \<not> lost i j}"
  shows "length (snd (l3_sync_round lost nodes)) = length nodes"
    and "ids (snd (l3_sync_round lost nodes) ! j) = ids (nodes ! j) \<union> (\<Union>i\<in>H. ids (nodes ! i))"
    and "edges_of (snd (l3_sync_round lost nodes) ! j) = edges_of (nodes ! j) \<union> (\<Union>i\<in>H. edges_of (nodes ! i))"
    and "distinct (map claim_id (l3_claims (nodes ! j)))
      \<Longrightarrow> distinct (map claim_id (l3_claims (snd (l3_sync_round lost nodes) ! j)))"
proof -
  let ?xs = "enumerate 0 (map (\<lambda>n. (l3_claims n, kg_edges (l3_graph n))) nodes)"
  have round: "length (snd (l3_sync_round lost nodes)) = length nodes"
    "snd (l3_sync_round lost nodes) ! j = foldl (receive lost j) (nodes ! j) ?xs"
    using round_columns [of "(False, nodes)" "length nodes" lost ?xs] assms(1) by (simp_all add: l3_sync_round_def)
  have X: "{x\<in>set ?xs. fst x \<noteq> j \<and> \<not> lost (fst x) j} = (\<lambda>i. (i, l3_claims (nodes ! i), kg_edges (l3_graph (nodes ! i)))) ` H"
    unfolding H_def by (auto simp: in_set_enumerate_eq image_iff)
  show "length (snd (l3_sync_round lost nodes)) = length nodes" by (rule round(1))
  show "ids (snd (l3_sync_round lost nodes) ! j) = ids (nodes ! j) \<union> (\<Union>i\<in>H. ids (nodes ! i))"
    unfolding round(2) received_contents(1) X by simp
  show "edges_of (snd (l3_sync_round lost nodes) ! j) = edges_of (nodes ! j) \<union> (\<Union>i\<in>H. edges_of (nodes ! i))"
    unfolding round(2) received_contents(2) X by simp
  show "distinct (map claim_id (l3_claims (nodes ! j))) \<Longrightarrow> distinct (map claim_id (l3_claims (snd (l3_sync_round lost nodes) ! j)))"
    unfolding round(2) by (rule received_contents(3))
qed


section \<open>What a round cannot show\<close>

text \<open>A node that only grows: it starts empty, and claims and edges are added one by one.\<close>

inductive l3_run :: "L3Node \<Rightarrow> bool" where
  started: "l3_run l3_new"
| claimed: "l3_run n \<Longrightarrow> l3_run (l3_add_claim c n)"
| linked: "l3_run n \<Longrightarrow> l3_run (n\<lparr>l3_graph := add_edge (l3_graph n) e\<rparr>)"

lemma anchor_at_start:
  "bps (reputation (l3_tracker l3_new) mesh_anchor) = 10000" "z \<noteq> mesh_anchor \<Longrightarrow> bps (reputation (l3_tracker l3_new) z) = 0"
proof -
  let ?t = "\<lambda>k. foldl (\<lambda>t _. update_reputation t mesh_anchor ClaimConfirmed) tracker_new [0..<k]"
  let ?f = "\<lambda>b :: u16. min (min (u16_sat_add b 200) 10000) 10000"
  have step: "bps (reputation (?t (Suc k)) mesh_anchor) = ?f (bps (reputation (?t k) mesh_anchor))" for k
    by (simp add: update_reputation_def reputation_def event_score_def from_bps_def)
  have f: "unat (?f b) = unat b + 200" if "unat b \<le> 9800" for b
  proof -
    have "b \<le> 9800" "\<not> 65335 < b" using that by (simp_all add: word_le_nat_alt word_less_nat_alt)
    moreover have "unat (b + 200) = unat b + 200" using that by (simp add: unat_word_ariths)
    then have "b + 200 \<le> 10000" using that by (simp add: word_le_nat_alt)
    ultimately show ?thesis using that by (simp add: u16_sat_add_def min_def unat_word_ariths)
  qed
  have "k \<le> 50 \<Longrightarrow> unat (bps (reputation (?t k) mesh_anchor)) = 200 * k" for k
  proof (induction k)
    case (Suc k)
    then show ?case unfolding step by (subst f) simp_all
  qed (simp add: reputation_def tracker_new_def rep_ZERO_def)
  then have "unat (bps (reputation (?t 50) mesh_anchor)) = unat (10000 :: u16)" by simp
  then show "bps (reputation (l3_tracker l3_new) mesh_anchor) = 10000" by (simp only: l3_new_def L3Node.select_convs unat_inject)
  show "bps (reputation (l3_tracker l3_new) z) = 0" if "z \<noteq> mesh_anchor"
  proof -
    have "reputation (?t k) z = rep_ZERO" for k
      using that by (induction k) (simp_all add: update_reputation_def reputation_def tracker_new_def)
    then show ?thesis by (simp add: l3_new_def rep_ZERO_def)
  qed
qed


text \<open>One delegation to the author of a claim halves what the anchor has left, and never takes all.\<close>

lemma claim_reputation:
  assumes "bps (reputation t mesh_anchor) \<le> 10000" "0 < bps (reputation t mesh_anchor)" "y \<noteq> mesh_anchor"
  defines "t' \<equiv> delegate t mesh_anchor y (from_bps 8000)"
  shows "unat (bps (reputation t' mesh_anchor)) =
      unat (bps (reputation t mesh_anchor)) - min 8000 (unat (bps (reputation t mesh_anchor))) div 2"
    and "unat (bps (reputation t' y)) = min 8000 (unat (bps (reputation t mesh_anchor)))"
proof -
  let ?b = "bps (reputation t mesh_anchor)"
  let ?c = "min (min 8000 ?b) 10000"
  have b: "unat ?b \<le> 10000" "0 < unat ?b" using assms(1,2) by (simp_all add: word_le_nat_alt word_less_nat_alt)
  have c: "unat ?c = min 8000 (unat ?b)" "unat (?c div 2) = min 8000 (unat ?b) div 2"
    using b by (auto simp: min_def word_le_nat_alt unat_div)
  have t: "reputation t' mesh_anchor = from_bps (usub_sat ?b (?c div 2))" "reputation t' y = from_bps (min 8000 ?b)"
    using assms(2,3) by (simp_all add: t'_def reputation_delegate Let_def bps_from_bps)
  have le: "?c div 2 \<le> ?b" using c b by (simp add: word_le_nat_alt min_def)
  then have "unat (usub_sat ?b (?c div 2)) = unat ?b - unat (?c div 2)"
    by (simp add: usub_sat_def unat_sub not_less [symmetric])
  moreover from this have "usub_sat ?b (?c div 2) \<le> 10000" using b by (simp add: word_le_nat_alt)
  ultimately show "unat (bps (reputation t' mesh_anchor)) = unat ?b - min 8000 (unat ?b) div 2"
    unfolding t(1) bps_from_bps c(2) by (simp add: min_def)
  show "unat (bps (reputation t' y)) = min 8000 (unat ?b)"
    using c(1) unfolding t(2) bps_from_bps .
qed

text \<open>After fourteen claims the anchor has one basis point left, and so has every later author.\<close>

lemma l3_reputations:
  assumes "l3_run n" "\<forall>c\<in>set (l3_claims n). claim_origin c \<noteq> mesh_anchor"
  defines "b \<equiv> unat (bps (reputation (l3_tracker n) mesh_anchor))"
  shows "0 < b \<and> b \<le> 10000 \<and> (l3_claims n \<noteq> [] \<longrightarrow> b \<le> 1 + 5999 div 2 ^ (length (l3_claims n) - 1))
    \<and> (\<forall>c\<in>set (drop 14 (l3_claims n)). unat (bps (reputation (l3_tracker n) (claim_origin c))) \<le> 1)"
  using assms(1,2) unfolding b_def
proof (induction rule: l3_run.induct)
  case started
  then show ?case using anchor_at_start(1) by (simp add: l3_new_def)
next
  case (linked n e)
  then show ?case by simp
next
  case (claimed n c)
  let ?m = "l3_add_claim c n"
  let ?b = "unat (bps (reputation (l3_tracker n) mesh_anchor))"
  let ?k = "length (l3_claims n)"
  have IH: "0 < ?b" "?b \<le> 10000" "l3_claims n \<noteq> [] \<Longrightarrow> ?b \<le> 1 + 5999 div 2 ^ (?k - 1)"
    "\<forall>c\<in>set (drop 14 (l3_claims n)). unat (bps (reputation (l3_tracker n) (claim_origin c))) \<le> 1"
    and new: "claim_origin c \<noteq> mesh_anchor" "\<forall>c\<in>set (l3_claims n). claim_origin c \<noteq> mesh_anchor"
    using claimed by (simp_all add: l3_add_claim_def)
  have t: "l3_tracker ?m = delegate (l3_tracker n) mesh_anchor (claim_origin c) (from_bps 8000)" "l3_claims ?m = l3_claims n @ [c]"
    by (simp_all add: l3_add_claim_def)
  have w: "bps (reputation (l3_tracker n) mesh_anchor) \<le> 10000" "0 < bps (reputation (l3_tracker n) mesh_anchor)"
    using IH(1,2) by (simp_all add: word_le_nat_alt word_less_nat_alt)
  note r = claim_reputation [OF w new(1), folded t(1)]
  have "unat (bps (reputation (l3_tracker ?m) mesh_anchor)) \<le> 1 + 5999 div 2 ^ ?k"
  proof (cases "l3_claims n = []")
    case True
    then show ?thesis unfolding r(1) using IH(2) by (auto simp: min_def)
  next
    case False
    then obtain j where j: "?k = Suc j" by (cases ?k) auto
    then have b: "?b \<le> 1 + 5999 div 2 ^ j" using IH(3) False by simp
    then have "?b \<le> 8000" using div_le_dividend [of 5999 "2 ^ j"] by linarith
    then have "unat (bps (reputation (l3_tracker ?m) mesh_anchor)) = ?b - ?b div 2" unfolding r(1) by simp
    also have "\<dots> \<le> 1 + (?b - 1) div 2" using IH(1) by linarith
    also have "\<dots> \<le> 1 + 5999 div 2 ^ j div 2" using b by (intro add_left_mono div_le_mono) simp
    also have "\<dots> = 1 + 5999 div 2 ^ ?k" unfolding j power_Suc2 div_mult2_eq by (rule refl)
    finally show ?thesis .
  qed
  moreover have "0 < unat (bps (reputation (l3_tracker ?m) mesh_anchor))" "unat (bps (reputation (l3_tracker ?m) mesh_anchor)) \<le> 10000"
    unfolding r(1) using IH(1,2) by (simp_all add: min_def)
  moreover have "unat (bps (reputation (l3_tracker ?m) (claim_origin d))) \<le> 1" if d: "d \<in> set (drop 14 (l3_claims ?m))" for d
  proof (cases "claim_origin d = claim_origin c")
    case True
    have k: "14 \<le> ?k" using d unfolding t(2) by (cases "14 \<le> ?k") simp_all
    then obtain j where j: "?k - 1 = 13 + j" by (intro that [of "?k - 14"]) simp
    have ne: "l3_claims n \<noteq> []" using k by auto
    have "(5999 :: nat) < 2 ^ (13 + j)" by (rule less_le_trans [of _ "2 ^ 13"], simp, rule power_increasing) simp_all
    then have "(5999 :: nat) div 2 ^ (13 + j) = 0" by (rule div_less)
    then have "?b \<le> 1" using IH(3) [OF ne] j by simp
    then show ?thesis using r(2) True by simp
  next
    case False
    have "d \<in> set (drop 14 (l3_claims n))" using d False in_set_dropD [of d "14 - ?k" "[c]"] unfolding t(2) by auto
    moreover have "claim_origin d \<noteq> mesh_anchor" using calculation new(2) by (auto dest: in_set_dropD)
    ultimately show ?thesis using IH(4) False by (simp add: t(1) delegate_other)
  qed
  ultimately show ?case unfolding t(2) by simp
qed


text \<open>Claims without weight stay without trust, whatever the edges between them.\<close>

lemma weightless_neutral:
  assumes base: "\<And>k. trust_of base k = NEUTRAL"
  shows "trust_of (pass1_loop (pass1_step g C rep claims groups dis base base) n base) k = NEUTRAL"
proof -
  let ?step = "pass1_step g C rep claims groups dis base base"
  have step: "trust_of (?step t) k = NEUTRAL" if t: "\<And>k. trust_of t k = NEUTRAL" for t k
  proof -
    have "lo_val (source_trust t x) = 0" for x by (simp add: source_trust_val t)
    then have "contribution g C rep claims t i = 0" for i by (simp add: contribution_def Let_def)
    then have "fst (snd (delivered g C rep claims groups t i)) = NEUTRAL" for i
      by (simp add: delivered_def NEUTRAL_def clampi_def i32_min_def i32_max_def Let_def)
    then have agg: "aggregate_hierarchical (map (\<lambda>i. snd (delivered g C rep claims groups t i)) is) dis ud = NEUTRAL" for "is" ud
      by (intro silent_evidence) simp
    have "(case map_of base k of None \<Rightarrow> trust_of base k | Some v \<Rightarrow> v) = NEUTRAL"
      using base [of k] by (simp add: trust_of_def split: option.splits)
    then show ?thesis
      using agg base [of k] lo_update_neutral
      by (simp add: trust_of_def [of "?step t"] pass1_step_lookup incoming_lookup(2) Let_def trust_of_def [of base])
  qed
  have "\<forall>k. trust_of t k = NEUTRAL \<Longrightarrow> trust_of (pass1_loop ?step n t) k = NEUTRAL" for t k
  proof (induction n arbitrary: t)
    case (Suc n)
    then show ?case using step by (simp add: Let_def)
  qed simp
  then show ?thesis using base by blast
qed

lemma weightless_undecided:
  fixes E :: LogOddsBeliefEngine
  assumes "\<forall>c\<in>set claims. base_weight rep c = NEUTRAL" "length claims \<le> 4294967296"
    and "lo_val (reject_threshold E) < 0" "0 < lo_val (accept_threshold E)"
  shows "compute_beliefs B E claims g rep =
    Some \<lparr>accepted = [], rejected = [], uncertain = map of_nat [0..<length claims]\<rparr>"
proof -
  let ?base = "base_trust_of rep claims" let ?D = "max_contradiction_damping_bps E"
  let ?t = "pass1_loop (pass1_step g (cyclic_edge_indices g) rep claims
    (map (group_of B (set claims) DEFAULT_SUPPORT_THRESHOLD) claims) DEFAULT_DISCOUNT_BPS ?base ?base) (unat (5 :: u8)) ?base"
  let ?p = "pass2 g rep claims ?D ?t"
  have "trust_of ?base k = NEUTRAL" for k
    using assms(1,2) by (simp add: trust_of_def base_trust_lookup)
  then have t: "trust_of ?t k = NEUTRAL" for k by (rule weightless_neutral)
  have p: "lo_val (trust_of ?p k) = 0" for k
  proof -
    have "capped_penalty g rep claims ?D ?t e = 0" for e by (intro silent_penalty) (unfold t, simp)
    then have none: "sum_list (map (capped_penalty g rep claims ?D ?t) es) = 0" for es by (induction es) simp_all
    show ?thesis unfolding pass2_value t none by (simp add: i32_min_def i32_max_def)
  qed
  obtain s where s: "compute_beliefs B E claims g rep = Some s" using beliefs_partition by blast
  then have fold: "s = foldl (classify E ?p) \<lparr>accepted = [], rejected = [], uncertain = []\<rparr> [0..<length claims]"
    by (simp add: compute_beliefs_eq propagate_full_eq)
  have "accepted s = [] \<and> rejected s = [] \<and> uncertain s = map of_nat [0..<length claims]"
    unfolding fold classify_fold p using assms(3,4) by simp
  with s show ?thesis by (cases s) simp
qed

text \<open>
  Claims for which the anchor has nothing left: every author has a claim after the first fourteen
  (the anchor itself makes none), and the confidences are below ten thousand thousandths.
\<close>

definition exhausted :: "Claim list \<Rightarrow> bool" where
  "exhausted cs \<longleftrightarrow> length cs \<le> 4294967296
     \<and> (\<forall>c\<in>set cs. claim_origin c \<noteq> mesh_anchor \<and> \<bar>lo_val (confidence c)\<bar> < 10000
          \<and> claim_origin c \<in> claim_origin ` set (drop 14 cs))"

lemma l3_run_engine: "l3_run n \<Longrightarrow> l3_engine n = default_engine"
  by (induction rule: l3_run.induct) (simp_all add: l3_new_def l3_add_claim_def)

lemma exhausted_undecided:
  assumes "l3_run n" "exhausted (l3_claims n)"
  shows "compute_belief B n = Some \<lparr>accepted = [], rejected = [], uncertain = map of_nat [0..<length (l3_claims n)]\<rparr>"
    and "belief_fingerprint B n = Some ([], [], map of_nat [0..<length (l3_claims n)])"
proof -
  have "base_weight (reputation (l3_tracker n)) c = NEUTRAL" if c: "c \<in> set (l3_claims n)" for c
  proof -
    obtain d where "d \<in> set (drop 14 (l3_claims n))" "claim_origin c = claim_origin d"
      and v: "\<bar>lo_val (confidence c)\<bar> < 10000" using assms(2) c by (auto simp: exhausted_def)
    then have "unat (bps (reputation (l3_tracker n) (claim_origin c))) \<le> 1"
      using l3_reputations [OF assms(1)] assms(2) by (auto simp: exhausted_def)
    then have r: "uint (bps (reputation (l3_tracker n) (claim_origin c))) \<in> {0, 1}"
      by (cases "unat (bps (reputation (l3_tracker n) (claim_origin c)))") (auto simp: uint_nat)
    have "\<bar>lo_val (declared_confidence c)\<bar> < 10000"
      using v by (auto simp: declared_confidence_def lo_val_clamp_declared clampi_def MIN_DECLARED_def MAX_DECLARED_def)
    then have "lo_val (declared_confidence c) sdiv 10000 = 0" by (simp add: signed_divide_int_def)
    then have "lo_val (base_weight (reputation (l3_tracker n)) c) = 0"
      using r by (auto simp: base_weight_def weight_evidence_val clampi_def i32_min_def i32_max_def)
    then show ?thesis by (simp add: lo_val_inject [symmetric])
  qed
  then show undecided: "compute_belief B n = Some \<lparr>accepted = [], rejected = [], uncertain = map of_nat [0..<length (l3_claims n)]\<rparr>"
    unfolding compute_belief_def l3_run_engine [OF assms(1)] using assms(2)
    by (intro weightless_undecided) (simp_all add: default_engine_def exhausted_def)
  have "sort (map of_nat [0..<length (l3_claims n)] :: u32 list) = map of_nat [0..<length (l3_claims n)]"
  proof (rule sort_key_id_if_sorted, simp)
    have "(of_nat i :: u32) \<le> of_nat j" if "i \<le> j" "j < length (l3_claims n)" for i j
    proof -
      have "length (l3_claims n) \<le> 4294967296" using assms(2) by (simp add: exhausted_def)
      then show ?thesis using that by (simp add: word_le_nat_alt unat_of_nat)
    qed
    then show "sorted (map (of_nat :: nat \<Rightarrow> u32) [0..<length (l3_claims n)])"
      by (auto simp: sorted_iff_nth_mono)
  qed
  then show "belief_fingerprint B n = Some ([], [], map of_nat [0..<length (l3_claims n)])"
    by (simp add: belief_fingerprint_def undecided)
qed


text \<open>Without edges the trust of a claim is its own weight.\<close>

lemma unlinked_trust:
  fixes E :: LogOddsBeliefEngine
  assumes "kg_edges g = []"
  obtains p s where "compute_beliefs B E claims g rep = Some s"
    "s = foldl (classify E p) \<lparr>accepted = [], rejected = [], uncertain = []\<rparr> [0..<length claims]"
    "\<And>k. trust_of p k = trust_of (base_trust_of rep claims) k"
proof -
  let ?base = "base_trust_of rep claims" let ?D = "max_contradiction_damping_bps E"
  let ?step = "pass1_step g (cyclic_edge_indices g) rep claims
    (map (group_of B (set claims) DEFAULT_SUPPORT_THRESHOLD) claims) DEFAULT_DISCOUNT_BPS ?base ?base"
  let ?p = "pass2 g rep claims ?D (pass1_loop ?step (unat (5 :: u8)) ?base)"
  have "trust_of (?step t) k = trust_of ?base k" for t k
    by (simp add: trust_of_def pass1_step_lookup incoming_lookup(2) Let_def assms)
  then have loop: "trust_of (pass1_loop ?step n ?base) k = trust_of ?base k" for n k by (intro pass1_loop_at) auto
  have "lo_val (trust_of ?p k) = lo_val (trust_of ?base k)" for k
    unfolding pass2_value loop using lo_val_in_i32 [of "trust_of ?base k"] by (simp add: assms)
  then have "trust_of ?p k = trust_of ?base k" for k by (simp add: lo_val_inject)
  moreover obtain s where s: "compute_beliefs B E claims g rep = Some s" using beliefs_partition by blast
  moreover from this have "s = foldl (classify E ?p) \<lparr>accepted = [], rejected = [], uncertain = []\<rparr> [0..<length claims]"
    by (simp add: compute_beliefs_eq propagate_full_eq)
  ultimately show thesis using that by blast
qed

text \<open>The first of two authors has more reputation than the second.\<close>

lemma two_claims:
  assumes "claim_origin a \<noteq> mesh_anchor" "claim_origin b \<noteq> mesh_anchor" "claim_origin a \<noteq> claim_origin b"
    and "confidence a = lo_new 3000" "confidence b = lo_new 3000"
  shows "compute_belief B (l3_add_claim b (l3_add_claim a l3_new)) = Some \<lparr>accepted = [0], rejected = [], uncertain = [1]\<rparr>"
proof -
  let ?n = "l3_add_claim b (l3_add_claim a l3_new)"
  let ?t1 = "delegate (l3_tracker l3_new) mesh_anchor (claim_origin a) (from_bps 8000)"
  have w: "bps (reputation (l3_tracker l3_new) mesh_anchor) \<le> 10000" "0 < bps (reputation (l3_tracker l3_new) mesh_anchor)"
    unfolding anchor_at_start by simp_all
  note r1 = claim_reputation [OF w assms(1), unfolded anchor_at_start]
  have "unat (bps (reputation ?t1 mesh_anchor)) = 6000" "unat (bps (reputation ?t1 (claim_origin a))) = 8000"
    using r1 by simp_all
  moreover from this(1) have w: "bps (reputation ?t1 mesh_anchor) \<le> 10000" "0 < bps (reputation ?t1 mesh_anchor)"
    by (simp_all add: word_le_nat_alt word_less_nat_alt)
  moreover note claim_reputation(2) [OF w assms(2)]
  moreover have t: "l3_tracker ?n = delegate ?t1 mesh_anchor (claim_origin b) (from_bps 8000)" "l3_claims ?n = [a, b]"
    by (simp_all add: l3_add_claim_def l3_new_def)
  moreover have "reputation (l3_tracker ?n) (claim_origin a) = reputation ?t1 (claim_origin a)"
    unfolding t(1) using assms(1,3) by (intro delegate_other)
  ultimately have "unat (bps (reputation (l3_tracker ?n) (claim_origin a))) = 8000"
    "unat (bps (reputation (l3_tracker ?n) (claim_origin b))) = 6000" by simp_all
  then have "lo_val (base_weight (reputation (l3_tracker ?n)) a) = 2400" "lo_val (base_weight (reputation (l3_tracker ?n)) b) = 1800"
    using assms(4,5)
    by (simp_all add: base_weight_def weight_evidence_val declared_confidence_def lo_val_clamp_declared uint_nat
        clampi_def MIN_DECLARED_def MAX_DECLARED_def i32_min_def i32_max_def signed_divide_int_def)
  then have base: "lo_val (trust_of (base_trust_of (reputation (l3_tracker ?n)) [a, b]) 0) = 2400"
    "lo_val (trust_of (base_trust_of (reputation (l3_tracker ?n)) [a, b]) 1) = 1800"
    by (simp_all add: trust_of_def base_trust_lookup)
  have g: "kg_edges (l3_graph ?n) = []" by (simp add: l3_add_claim_def l3_new_def kg.edges_empty)
  obtain p s where "compute_beliefs B default_engine [a, b] (l3_graph ?n) (reputation (l3_tracker ?n)) = Some s"
    "s = foldl (classify default_engine p) \<lparr>accepted = [], rejected = [], uncertain = []\<rparr> [0..<length [a, b]]"
    "\<And>k. trust_of p k = trust_of (base_trust_of (reputation (l3_tracker ?n)) [a, b]) k"
    by (rule unlinked_trust [where B = B and E = default_engine and claims = "[a, b]"
        and rep = "reputation (l3_tracker ?n)", OF g]) blast
  then show ?thesis
    using base by (simp add: compute_belief_def t(2) upt_rec [of 0] classify_def default_engine_def,
      simp add: l3_add_claim_def l3_new_def default_engine_def)
qed

section \<open>Properties\<close>

text \<open>
  A lossless round delivers everything: afterwards every node holds the claims (by id) and the edges
  (by ends and kind) that any node held before, and no claim twice if none was held twice.
\<close>

theorem lossless_round_delivers:
  assumes "n \<in> set (snd (l3_sync_round (\<lambda>i j. False) nodes))"
  shows "claim_id ` set (l3_claims n) = (\<Union>m\<in>set nodes. claim_id ` set (l3_claims m))
    \<and> edges_of n = (\<Union>m\<in>set nodes. edges_of m)
    \<and> ((\<forall>m\<in>set nodes. distinct (map claim_id (l3_claims m))) \<longrightarrow> distinct (map claim_id (l3_claims n)))"
proof -
  let ?r = "snd (l3_sync_round (\<lambda>i j. False) nodes)"
  have len: "length ?r = length nodes"
  proof (cases nodes)
    case (Cons m ms)
    then show ?thesis using round_contents(1) [of 0 nodes] by simp
  qed (simp add: l3_sync_round_def)
  obtain j where j: "j < length nodes" "n = ?r ! j" using assms unfolding in_set_conv_nth len by blast
  have all: "f (nodes ! j) \<union> (\<Union>i\<in>{i. i < length nodes \<and> i \<noteq> j \<and> \<not> False}. f (nodes ! i)) = (\<Union>m\<in>set nodes. f m)"
    for f :: "L3Node \<Rightarrow> 'x set"
    using j(1) by (fastforce simp: in_set_conv_nth)
  show ?thesis
  proof (intro conjI impI)
    show "claim_id ` set (l3_claims n) = (\<Union>m\<in>set nodes. claim_id ` set (l3_claims m))"
      unfolding j(2) round_contents(2) [OF j(1)] by (rule all)
    show "edges_of n = (\<Union>m\<in>set nodes. edges_of m)"
      unfolding j(2) round_contents(3) [OF j(1)] by (rule all)
    assume "\<forall>m\<in>set nodes. distinct (map claim_id (l3_claims m))"
    then show "distinct (map claim_id (l3_claims n))"
      unfolding j(2) using j(1) by (intro round_contents(4)) simp_all
  qed
qed

text \<open>
  C37: The agreement that is measured can be one on nothing. Every delegation for a claim halves what the
  anchor of a node has left, so from the fifteenth claim on an author gets one basis point. When every
  author of a node has such a claim (none is the anchor, confidences are below 10000 in size), the node
  accepts and rejects nothing and is undecided on each claim it holds, whatever edges were added. Nodes
  in that state agree just when they hold equally many claims, the same ones or not.
\<close>

theorem agreement_by_exhaustion:
  assumes "\<forall>n\<in>set nodes. l3_run n \<and> exhausted (l3_claims n)"
  shows "(\<forall>n\<in>set nodes. compute_belief B n =
        Some \<lparr>accepted = [], rejected = [], uncertain = map of_nat [0..<length (l3_claims n)]\<rparr>)
    \<and> l3_all_agree B nodes = Some (\<forall>n\<in>set nodes. length (l3_claims n) = length (l3_claims (hd nodes)))"
proof
  show "\<forall>n\<in>set nodes. compute_belief B n =
      Some \<lparr>accepted = [], rejected = [], uncertain = map of_nat [0..<length (l3_claims n)]\<rparr>"
    using assms exhausted_undecided(1) by blast
  show "l3_all_agree B nodes = Some (\<forall>n\<in>set nodes. length (l3_claims n) = length (l3_claims (hd nodes)))"
proof (cases nodes)
  case (Cons m ms)
  let ?f = "\<lambda>n. ([], [], map of_nat [0..<length (l3_claims n)]) :: u32 list \<times> u32 list \<times> u32 list"
  have fp: "belief_fingerprint B n = Some (?f n)" if "n \<in> set nodes" for n
    using assms that by (intro exhausted_undecided(2)) simp_all
  then have "those (map (belief_fingerprint B) ms) = Some (map ?f ms)"
    using Cons by (simp add: those_eq_Some)
  moreover have "?f n = ?f m \<longleftrightarrow> length (l3_claims n) = length (l3_claims m)" for n
  proof
    assume "?f n = ?f m"
    then have "length (map (of_nat :: nat \<Rightarrow> u32) [0..<length (l3_claims n)]) = length (map (of_nat :: nat \<Rightarrow> u32) [0..<length (l3_claims m)])" by simp
    then show "length (l3_claims n) = length (l3_claims m)" by simp
  qed simp
  ultimately show ?thesis
    using Cons fp [of m] by (auto simp: l3_all_agree_def list_all_iff)
qed (simp add: l3_all_agree_def)
qed

text \<open>
  The agreement that is measured is about positions, not about claims: two nodes with one claim each
  exchange them without loss, hold the same two claims and agree, although the first has accepted its
  own claim and is undecided on the other, and the second the other way round.
\<close>

theorem agreement_is_positional:
  assumes "claim_origin a \<noteq> mesh_anchor" "claim_origin b \<noteq> mesh_anchor" "claim_origin a \<noteq> claim_origin b"
    and "claim_id a \<noteq> claim_id b" "confidence a = lo_new 3000" "confidence b = lo_new 3000"
    and "nodes = snd (l3_sync_round (\<lambda>i j. False) [l3_add_claim a l3_new, l3_add_claim b l3_new])"
  shows "map l3_claims nodes = [[a, b], [b, a]] \<and> l3_all_agree B nodes = Some True
    \<and> map (compute_belief B) nodes
        = replicate 2 (Some \<lparr>accepted = [0], rejected = [], uncertain = [1]\<rparr>)"
proof -
  have e: "kg_edges (l3_graph l3_new) = []" "l3_claims l3_new = []" by (simp_all add: l3_new_def kg.edges_empty)
  have nodes: "nodes = [l3_add_claim b (l3_add_claim a l3_new), l3_add_claim a (l3_add_claim b l3_new)]"
    unfolding assms(7) using assms(4) e
    by (simp add: l3_sync_round_def round_step_def take_over_def take_claim_def l3_add_claim_def Let_def upt_rec [of 0] upt_rec [of "Suc 0"])
  have bel: "compute_belief B (l3_add_claim b (l3_add_claim a l3_new)) = Some \<lparr>accepted = [0], rejected = [], uncertain = [1]\<rparr>"
    "compute_belief B (l3_add_claim a (l3_add_claim b l3_new)) = Some \<lparr>accepted = [0], rejected = [], uncertain = [1]\<rparr>"
    using assms(1-6) by (auto intro: two_claims)
  show ?thesis
    unfolding nodes by (simp add: l3_all_agree_def belief_fingerprint_def bel, simp add: l3_add_claim_def e numeral_2_eq_2 bel)
qed

section \<open>Witnesses\<close>

definition hash_of_length :: blake3 where
  "hash_of_length m = replicate 32 (of_nat (length m) + sum_list m)"

lemma l3_run_claims: "l3_run (foldl (\<lambda>n c. l3_add_claim c n) l3_new cs)"
  "l3_claims (foldl (\<lambda>n c. l3_add_claim c n) l3_new cs) = cs"
  "l3_engine (foldl (\<lambda>n c. l3_add_claim c n) l3_new cs) = default_engine"
proof -
  show "l3_run (foldl (\<lambda>n c. l3_add_claim c n) l3_new cs)"
    by (induction cs rule: rev_induct) (simp_all add: l3_run.intros)
  show "l3_claims (foldl (\<lambda>n c. l3_add_claim c n) l3_new cs) = cs"
    by (induction cs rule: rev_induct) (simp_all add: l3_add_claim_def l3_new_def)
  show "l3_engine (foldl (\<lambda>n c. l3_add_claim c n) l3_new cs) = default_engine"
    by (induction cs rule: rev_induct) (simp_all add: l3_add_claim_def l3_new_def)
qed

lemma short_not_anchor: "length x \<noteq> 32 \<Longrightarrow> x \<noteq> mesh_anchor"
  by (auto simp: mesh_anchor_def)

lemma exhausted_same_author:
  assumes "\<forall>c\<in>set cs. claim_origin c = x \<and> confidence c = lo_new 3000" "x \<noteq> mesh_anchor" "14 < length cs" "length cs \<le> 4294967296"
  shows "exhausted cs"
proof -
  have "hd (drop 14 cs) \<in> set (drop 14 cs)" using assms(3) by (intro hd_in_set) simp
  then obtain d where d: "d \<in> set (drop 14 cs)" by blast
  then have "claim_origin d = x" using assms(1) in_set_dropD by fast
  then have "x \<in> claim_origin ` set (drop 14 cs)" using d by blast
  then show ?thesis using assms unfolding exhausted_def by simp
qed

theorem lossless_round_delivers_witness:
  "\<forall>n\<in>set (snd (l3_sync_round (\<lambda>i j. False)
      [l3_add_claim (make_l3_claim hash_of_length 1 [1] 3000) l3_new, l3_add_claim (make_l3_claim hash_of_length 2 [2] 3000) l3_new])).
    distinct (map claim_id (l3_claims n))"
proof
  let ?nodes = "[l3_add_claim (make_l3_claim hash_of_length 1 [1] 3000) l3_new, l3_add_claim (make_l3_claim hash_of_length 2 [2] 3000) l3_new]"
  fix n assume "n \<in> set (snd (l3_sync_round (\<lambda>i j. False) ?nodes))"
  from lossless_round_delivers [OF this] show "distinct (map claim_id (l3_claims n))"
    by (simp add: l3_add_claim_def l3_new_def)
qed

theorem agreement_by_exhaustion_witness:
  "let claim = \<lambda>i. make_l3_claim hash_of_length (of_nat i) [7] 3000;
       node = \<lambda>k. foldl (\<lambda>n c. l3_add_claim c n) l3_new (map claim [0..<k])
   in compute_belief hash_of_length (node 20) =
          Some \<lparr>accepted = [], rejected = [], uncertain = map of_nat [0..<20]\<rparr>
      \<and> l3_all_agree hash_of_length [node 20, node 21] = Some False \<and> l3_all_agree hash_of_length [node 20, node 20] = Some True"
proof -
  let ?claim = "\<lambda>i. make_l3_claim hash_of_length (of_nat i) [7] 3000"
  let ?node = "\<lambda>k. foldl (\<lambda>n c. l3_add_claim c n) l3_new (map ?claim [0..<k])"
  have c: "claim_origin (?claim i) = [7]" "confidence (?claim i) = lo_new 3000" for i by (simp_all add: make_l3_claim_def Let_def)
  have "exhausted (map ?claim [0..<k])" if "15 \<le> k" "k \<le> 21" for k
    by (rule exhausted_same_author [where x = "[7]"]) (use that c short_not_anchor [of "[7]"] in simp_all)
  then have ok: "l3_run (?node k) \<and> exhausted (l3_claims (?node k))" if "15 \<le> k" "k \<le> 21" for k
    using that l3_run_claims [of "map ?claim [0..<k]"] by simp
  have "compute_belief hash_of_length (?node i) = Some \<lparr>accepted = [], rejected = [], uncertain = map of_nat [0..<i]\<rparr>
      \<and> l3_all_agree hash_of_length [?node i, ?node j] = Some (j = i)" if "15 \<le> i" "i \<le> 21" "15 \<le> j" "j \<le> 21" for i j
    using agreement_by_exhaustion [of "[?node i, ?node j]" hash_of_length] ok that by (simp add: l3_run_claims(2))
  from this [of 20 21] this [of 20 20] show ?thesis unfolding Let_def by simp
qed

theorem agreement_is_positional_witness:
  "let a = make_l3_claim hash_of_length 1 [1] 3000; b = make_l3_claim hash_of_length 2 [2] 3000
   in l3_all_agree hash_of_length (snd (l3_sync_round (\<lambda>i j. False) [l3_add_claim a l3_new, l3_add_claim b l3_new])) = Some True"
proof -
  let ?a = "make_l3_claim hash_of_length 1 [1] 3000" and ?b = "make_l3_claim hash_of_length 2 [2] 3000"
  have f: "claim_origin ?a = [1]" "claim_origin ?b = [2]" "confidence ?a = lo_new 3000" "confidence ?b = lo_new 3000"
    by (simp_all add: make_l3_claim_def Let_def)
  have "claim_id ?a \<noteq> claim_id ?b" by code_simp
  then show ?thesis
    using agreement_is_positional [OF _ _ _ _ f(3,4) refl, of hash_of_length] f short_not_anchor [of "[1]"] short_not_anchor [of "[2]"]
    by (simp add: Let_def)
qed

end
