(* ===== verification/Batch_Signing.thy ===== *)
theory Batch_Signing
  imports Protocol
begin

text \<open>
  Signatures over batches (\<open>aimp_node/examples/bench_batch_signing.rs\<close>): the signer that collects the
  hashes of mutations and signs the root of their Merkle tree, the inclusion proofs and their
  verification. BLAKE3 is the parameter \<open>B\<close>, Ed25519 the record \<open>wire\<close>. The theorems: proofs are
  complete, a proof of the right shape binds the leaf, batches of one size are bound by their root,
  and what the missing distinction of leaves and inner nodes costs.
\<close>

section \<open>The code\<close>

record BatchSigner =
  pending_hashes :: "Hash32 list"
  batch_size :: nat
  batches_signed :: nat

definition signer_new :: "nat \<Rightarrow> BatchSigner" where
  "signer_new n = \<lparr>pending_hashes = [], batch_size = n, batches_signed = 0\<rparr>"

text \<open>One level of the tree: the pairs are hashed, an odd element is promoted.\<close>

fun next_level :: "blake3 \<Rightarrow> Hash32 list \<Rightarrow> Hash32 list" where
  "next_level B (x # y # zs) = B (x @ y) # next_level B zs"
| "next_level B [x] = [x]"
| "next_level B [] = []"

lemma length_next_level [simp]: "length (next_level B hs) = (length hs + 1) div 2"
  by (induction B hs rule: next_level.induct) auto

function reduce_levels :: "blake3 \<Rightarrow> Hash32 list \<Rightarrow> Hash32 list" where
  "reduce_levels B hs = (if length hs > 1 then reduce_levels B (next_level B hs) else hs)"
  by auto
termination by (relation "measure (\<lambda>(B, hs). length hs)") auto

declare reduce_levels.simps [simp del]

definition compute_batch_root :: "blake3 \<Rightarrow> Hash32 list \<Rightarrow> Hash32" where
  "compute_batch_root B hs =
     (if hs = [] then replicate 32 0
      else if length hs = 1 then hs ! 0
      else reduce_levels B hs ! 0)"

text \<open>The siblings on the way from a leaf to the root; \<open>True\<close> means the sibling is on the right.\<close>

function proof_loop :: "blake3 \<Rightarrow> Hash32 list \<Rightarrow> nat \<Rightarrow> (Hash32 \<times> bool) list" where
  "proof_loop B hs idx =
     (if length hs > 1
      then (let sibling_idx = (if even idx then idx + 1 else idx - 1)
            in if sibling_idx < length hs then [(hs ! sibling_idx, even idx)] else [])
           @ proof_loop B (next_level B hs) (idx div 2)
      else [])"
  by auto
termination by (relation "measure (\<lambda>(B, hs, idx). length hs)") auto

declare proof_loop.simps [simp del]

definition compute_proof :: "blake3 \<Rightarrow> Hash32 list \<Rightarrow> nat \<Rightarrow> (Hash32 \<times> bool) list" where
  "compute_proof B hs idx = (if length hs \<le> 1 then [] else proof_loop B hs idx)"

definition proof_step :: "blake3 \<Rightarrow> Hash32 \<times> bool \<Rightarrow> Hash32 \<Rightarrow> Hash32" where
  "proof_step B p current = (case p of (sibling, is_right) \<Rightarrow>
     if is_right then B (current @ sibling) else B (sibling @ current))"

definition verify_proof :: "blake3 \<Rightarrow> Hash32 \<Rightarrow> (Hash32 \<times> bool) list \<Rightarrow> Hash32 \<Rightarrow> bool" where
  "verify_proof B leaf prf root \<longleftrightarrow> fold (proof_step B) prf leaf = root"

definition close_batch :: "wire \<Rightarrow> blake3 \<Rightarrow> Identity \<Rightarrow> BatchSigner \<Rightarrow> bytes \<times> BatchSigner" where
  "close_batch W B i s =
     (let root = compute_batch_root B (pending_hashes s); sig = sign_bytes W i root
      in (sig, s\<lparr>pending_hashes := [], batches_signed := batches_signed s + 1\<rparr>))"

definition add_mutation :: "wire \<Rightarrow> blake3 \<Rightarrow> Identity \<Rightarrow> Hash32 \<Rightarrow> BatchSigner \<Rightarrow> bytes option \<times> BatchSigner" where
  "add_mutation W B i h s =
     (let s = s\<lparr>pending_hashes := pending_hashes s @ [h]\<rparr>
      in if length (pending_hashes s) \<ge> batch_size s
         then (let (sig, s) = close_batch W B i s in (Some sig, s)) else (None, s))"

section \<open>Roots and proofs\<close>

text \<open>The root is the one element that the last level has.\<close>

lemma reduce_levels_single: "hs \<noteq> [] \<Longrightarrow> length (reduce_levels B hs) = 1"
proof (induction B hs rule: reduce_levels.induct)
  case (1 B hs)
  show ?case
  proof (cases "length hs > 1")
    case True
    then have "length (next_level B hs) \<noteq> 0" by simp
    then have "next_level B hs \<noteq> []" by fastforce
    then show ?thesis using 1 True by (subst reduce_levels.simps) simp
  qed (use 1 in \<open>subst reduce_levels.simps, cases hs; simp\<close>)
qed

lemma compute_batch_root_reduce: "hs \<noteq> [] \<Longrightarrow> compute_batch_root B hs = reduce_levels B hs ! 0"
  by (simp add: compute_batch_root_def reduce_levels.simps)

lemma compute_proof_loop: "compute_proof B hs idx = proof_loop B hs idx"
  by (simp add: compute_proof_def proof_loop.simps)

text \<open>An element of the next level is the hash of its pair, or the promoted element.\<close>

lemma next_level_nth:
  "idx < length hs \<Longrightarrow> next_level B hs ! (idx div 2) =
     (if even idx then if idx + 1 < length hs then B (hs ! idx @ hs ! (idx + 1)) else hs ! idx
      else B (hs ! (idx - 1) @ hs ! idx))"
proof (induction B hs arbitrary: idx rule: next_level.induct)
  case (1 B x y zs)
  show ?case
  proof (cases "idx < 2")
    case True
    then consider "idx = 0" | "idx = 1" by linarith
    then show ?thesis by cases simp_all
  next
    case False
    then obtain k where k: "idx = Suc (Suc k)" by (metis Suc_1 le_add_diff_inverse add_Suc not_less plus_1_eq_Suc)
    then show ?thesis using 1 by (cases "even k") (auto simp: odd_pos)
  qed
qed auto

lemma proof_step_level:
  assumes "idx < length hs" "length hs > 1"
  shows "fold (proof_step B) (let sibling_idx = (if even idx then idx + 1 else idx - 1)
      in if sibling_idx < length hs then [(hs ! sibling_idx, even idx)] else []) (hs ! idx)
    = next_level B hs ! (idx div 2)"
proof (cases "even idx")
  case True
  then show ?thesis using next_level_nth [OF assms(1), of B] by (simp add: proof_step_def)
next
  case False
  then have "idx - 1 < length hs" using assms(1) by linarith
  then show ?thesis using next_level_nth [OF assms(1), of B] False by (simp add: proof_step_def)
qed

lemma fold_proof_loop:
  "idx < length hs \<Longrightarrow> fold (proof_step B) (proof_loop B hs idx) (hs ! idx) = reduce_levels B hs ! 0"
proof (induction B hs idx rule: proof_loop.induct)
  case (1 B hs idx)
  show ?case
  proof (cases "length hs > 1")
    case True
    have "idx div 2 < length (next_level B hs)" using 1(2) by simp
    from 1(1) [OF True this] show ?thesis
      using proof_step_level [OF 1(2) True, of B] True
      by (subst proof_loop.simps, subst reduce_levels.simps) simp
  next
    case False
    then have "idx = 0" using 1(2) by simp
    then show ?thesis using False by (subst proof_loop.simps, subst reduce_levels.simps) simp
  qed
qed

text \<open>Every element of a batch has a proof that verifies against the root of the batch.\<close>

theorem proofs_complete:
  assumes "idx < length hs"
  shows "verify_proof B (hs ! idx) (compute_proof B hs idx) (compute_batch_root B hs)"
proof -
  have "hs \<noteq> []" using assms by auto
  then show ?thesis
    using fold_proof_loop [OF assms, of B] by (simp add: verify_proof_def compute_proof_loop compute_batch_root_reduce)
qed

text \<open>
  Nothing distinguishes a leaf from an inner node: the root of a batch is also the root of its next
  level, which is a smaller batch, so a signature over the root is one over both, and every inner
  hash has a proof that makes it a mutation of the batch.
\<close>

theorem batch_root_ambiguous:
  assumes "2 \<le> length hs"
  shows "compute_batch_root B (next_level B hs) = compute_batch_root B hs \<and> length (next_level B hs) < length hs
    \<and> (\<forall>i<length (next_level B hs).
         verify_proof B (next_level B hs ! i) (compute_proof B (next_level B hs) i) (compute_batch_root B hs))"
proof -
  have ne: "hs \<noteq> []" "next_level B hs \<noteq> []" using assms by (auto simp flip: length_0_conv)
  have "compute_batch_root B (next_level B hs) = compute_batch_root B hs"
    using assms unfolding compute_batch_root_reduce [OF ne(1)] compute_batch_root_reduce [OF ne(2)]
    by (subst (2) reduce_levels.simps) simp
  then show ?thesis using proofs_complete [of _ "next_level B hs" B] assms by auto
qed

section \<open>What a root binds\<close>

text \<open>The strings hashed when a proof is checked, and those hashed for a tree.\<close>

fun proof_inputs :: "blake3 \<Rightarrow> Hash32 \<Rightarrow> (Hash32 \<times> bool) list \<Rightarrow> bytes list" where
  "proof_inputs B current [] = []"
| "proof_inputs B current ((sibling, is_right) # ps) =
     (if is_right then current @ sibling else sibling @ current)
     # proof_inputs B (proof_step B (sibling, is_right) current) ps"

lemma length_proof_step: "digest32 B \<Longrightarrow> length (proof_step B p x) = 32"
  by (simp add: proof_step_def digest32_def split: prod.split)

lemma fold_proof_inj:
  assumes "map snd ps = map snd qs" "digest32 B" "length x = 32" "length y = 32"
    and "\<forall>(s, r)\<in>set ps \<union> set qs. length s = 32"
    and "inj_on B (set (proof_inputs B x ps) \<union> set (proof_inputs B y qs))"
    and "fold (proof_step B) ps x = fold (proof_step B) qs y"
  shows "x = y \<and> ps = qs"
  using map_eq_imp_length_eq [OF assms(1)] assms
proof (induction ps qs arbitrary: x y rule: list_induct2)
  case (Cons p ps q qs)
  obtain s r where p: "p = (s, r)" by fastforce
  obtain t where q: "q = (t, r)" using Cons.prems(1) p by (cases q) auto
  let ?xs = "proof_inputs B (proof_step B p x) ps" let ?ys = "proof_inputs B (proof_step B q y) qs"
  let ?u = "if r then x @ s else s @ x" let ?v = "if r then y @ t else t @ y"
  have inputs: "proof_inputs B x (p # ps) = ?u # ?xs" "proof_inputs B y (q # qs) = ?v # ?ys" by (simp_all add: p q)
  have all: "inj_on B (set (?u # ?xs) \<union> set (?v # ?ys))" using Cons.prems(6) unfolding inputs .
  then have inj: "inj_on B (set ?xs \<union> set ?ys)" by (rule inj_on_subset) auto
  have same: "B ?u = B ?v \<Longrightarrow> ?u = ?v" by (rule inj_onD [OF all]) simp_all
  have "proof_step B p x = proof_step B q y \<and> ps = qs"
    by (rule Cons.IH [OF _ _ _ _ _ inj]) (use Cons.prems(1-5,7) length_proof_step [OF Cons.prems(2)] in simp_all)
  moreover have "proof_step B p x = B ?u" "proof_step B q y = B ?v" by (simp_all add: p q proof_step_def)
  ultimately have "?u = ?v" "ps = qs" using same by simp_all
  moreover from this have "x = y \<and> s = t" using Cons.prems(3,4) by (cases r) auto
  ultimately show ?case using p q by simp
qed simp

lemma next_level_digests: "digest32 B \<Longrightarrow> \<forall>h\<in>set hs. length h = 32 \<Longrightarrow> \<forall>h\<in>set (next_level B hs). length h = 32"
  by (induction B hs rule: next_level.induct) (auto simp: digest32_def)

lemma proof_loop_digests:
  "digest32 B \<Longrightarrow> \<forall>h\<in>set hs. length h = 32 \<Longrightarrow> \<forall>(s, r)\<in>set (proof_loop B hs idx). length s = 32"
proof (induction B hs idx rule: proof_loop.induct)
  case (1 B hs idx)
  show ?case
  proof (cases "length hs > 1")
    case True
    then show ?thesis
      using 1(1) [OF True 1(2) next_level_digests [OF 1(2,3)]] 1(3) by (subst proof_loop.simps) (auto simp: Let_def)
  qed (subst proof_loop.simps, simp)
qed

text \<open>
  C29: A proof with the directions of position \<open>idx\<close> is accepted for the element at that position only,
  unless two of the strings that were hashed collide.
\<close>

theorem proof_binds_leaf:
  assumes "digest32 B" "length leaf = 32" "\<forall>(s, r)\<in>set prf. length s = 32" "\<forall>h\<in>set hs. length h = 32"
    and "idx < length hs" "map snd prf = map snd (compute_proof B hs idx)"
    and "inj_on B (set (proof_inputs B leaf prf) \<union> set (proof_inputs B (hs ! idx) (compute_proof B hs idx)))"
    and "verify_proof B leaf prf (compute_batch_root B hs)"
  shows "leaf = hs ! idx \<and> prf = compute_proof B hs idx"
proof (rule fold_proof_inj [OF assms(6,1,2)])
  have "\<forall>(s, r)\<in>set (compute_proof B hs idx). length s = 32"
    unfolding compute_proof_loop by (rule proof_loop_digests [OF assms(1,4)])
  then show "\<forall>(s, r)\<in>set prf \<union> set (compute_proof B hs idx). length s = 32"
    using assms(3) by blast
  show "fold (proof_step B) prf leaf = fold (proof_step B) (compute_proof B hs idx) (hs ! idx)"
    using assms(8) proofs_complete [OF assms(5), of B] by (simp add: verify_proof_def)
qed (use assms in simp_all)

section \<open>The signer\<close>

text \<open>A run of the signer, with what each addition returns.\<close>

fun sign_all :: "wire \<Rightarrow> blake3 \<Rightarrow> Identity \<Rightarrow> Hash32 list \<Rightarrow> BatchSigner \<Rightarrow> bytes option list \<times> BatchSigner" where
  "sign_all W B i [] s = ([], s)"
| "sign_all W B i (h # hs) s =
     (let (r, s) = add_mutation W B i h s; (rs, s) = sign_all W B i hs s in (r # rs, s))"

lemma sign_all_snoc:
  "sign_all W B i (hs @ [h]) s =
     (fst (sign_all W B i hs s) @ [fst (add_mutation W B i h (snd (sign_all W B i hs s)))],
      snd (add_mutation W B i h (snd (sign_all W B i hs s))))"
  by (induction hs arbitrary: s) (simp_all add: Let_def case_prod_beta)

text \<open>The batch of position \<open>j\<close>.\<close>

definition batch_of :: "nat \<Rightarrow> Hash32 list \<Rightarrow> nat \<Rightarrow> Hash32 list" where
  "batch_of b hs j = take b (drop (j div b * b) hs)"

lemma batch_of_append: "(j div b + 1) * b \<le> length hs \<Longrightarrow> batch_of b (hs @ ks) j = batch_of b hs j"
  by (simp add: batch_of_def)

lemma batch_boundary:
  assumes "0 < b" "Suc j mod b = 0"
  shows "j div b * b + b = Suc j"
proof -
  have "Suc j div b = Suc (j div b)" using assms(2) by (simp add: div_Suc)
  then show ?thesis using div_mult_mod_eq [of "Suc j" b] assms(2) by simp
qed

lemma sign_all_correct:
  assumes "0 < b"
  shows "length (fst (sign_all W B i hs (signer_new b))) = length hs
    \<and> snd (sign_all W B i hs (signer_new b)) =
        \<lparr>pending_hashes = drop (length hs div b * b) hs, batch_size = b, batches_signed = length hs div b\<rparr>
    \<and> (\<forall>j<length hs. fst (sign_all W B i hs (signer_new b)) ! j =
         (if Suc j mod b = 0 then Some (sign_bytes W i (compute_batch_root B (batch_of b hs j))) else None))"
proof (induction hs rule: rev_induct)
  case Nil
  then show ?case by (simp add: signer_new_def)
next
  case (snoc h hs)
  let ?n = "length hs" let ?s = "snd (sign_all W B i hs (signer_new b))"
  have s: "?s = \<lparr>pending_hashes = drop (?n div b * b) hs, batch_size = b, batches_signed = ?n div b\<rparr>"
    using snoc by blast
  have pending: "pending_hashes ?s @ [h] = drop (?n div b * b) (hs @ [h])" "length (pending_hashes ?s @ [h]) = Suc (?n mod b)"
    by (simp_all add: s minus_div_mult_eq_mod [symmetric] Suc_diff_le)
  have full: "b \<le> Suc (?n mod b) \<longleftrightarrow> Suc ?n mod b = 0"
    using assms mod_less_divisor [OF assms, of ?n] by (auto simp: mod_Suc)
  have new: "add_mutation W B i h ?s =
      (if Suc ?n mod b = 0
       then (Some (sign_bytes W i (compute_batch_root B (drop (?n div b * b) (hs @ [h])))),
             \<lparr>pending_hashes = [], batch_size = b, batches_signed = Suc (?n div b)\<rparr>)
       else (None, \<lparr>pending_hashes = drop (?n div b * b) (hs @ [h]), batch_size = b, batches_signed = ?n div b\<rparr>))"
    using pending full by (simp add: add_mutation_def close_batch_def Let_def s)
  have old: "batch_of b (hs @ [h]) j = batch_of b hs j" if "j < ?n" "Suc j mod b = 0" for j
    using that batch_boundary [OF assms that(2)] by (intro batch_of_append) simp
  have last: "batch_of b (hs @ [h]) ?n = drop (?n div b * b) (hs @ [h])" if "Suc ?n mod b = 0"
    using batch_boundary [OF assms that] by (simp add: batch_of_def)
  have "snd (add_mutation W B i h ?s) = \<lparr>pending_hashes = drop (Suc ?n div b * b) (hs @ [h]), batch_size = b,
      batches_signed = Suc ?n div b\<rparr>"
    using new batch_boundary [OF assms, of ?n] by (cases "Suc ?n mod b = 0") (simp_all add: div_Suc)
  then show ?case
    using snoc new old last by (auto simp: sign_all_snoc nth_append less_Suc_eq)
qed

text \<open>
  C28: What is signed authenticates every mutation: when a signer that was started by an identity has
  taken the mutations \<open>hs\<close>, the addition that filled the batch of position \<open>j\<close> returned a signature
  that verifies under the key of the identity for a root against which the mutation has a proof,
  and only the last incomplete batch is not signed yet.
\<close>

theorem batch_authenticates:
  assumes "wire_ok W" "i = build_from W k" "0 < b" "sign_all W B i hs (signer_new b) = (rs, s)"
  shows "batches_signed s = length hs div b \<and> pending_hashes s = drop (length hs div b * b) hs
    \<and> (\<forall>j < length hs div b * b. \<exists>sig. rs ! (j div b * b + b - 1) = Some sig
        \<and> verify_with W (node_id i) (compute_batch_root B (batch_of b hs j)) sig
        \<and> verify_proof B (hs ! j) (compute_proof B (batch_of b hs j) (j mod b)) (compute_batch_root B (batch_of b hs j)))"
proof -
  have r: "s = \<lparr>pending_hashes = drop (length hs div b * b) hs, batch_size = b, batches_signed = length hs div b\<rparr>"
    "\<forall>j<length hs. rs ! j =
         (if Suc j mod b = 0 then Some (sign_bytes W i (compute_batch_root B (batch_of b hs j))) else None)"
    using sign_all_correct [OF assms(3), of W B i hs] assms(4) by simp_all
  have "\<exists>sig. rs ! (j div b * b + b - 1) = Some sig
      \<and> verify_with W (node_id i) (compute_batch_root B (batch_of b hs j)) sig
      \<and> verify_proof B (hs ! j) (compute_proof B (batch_of b hs j) (j mod b)) (compute_batch_root B (batch_of b hs j))"
    if j: "j < length hs div b * b" for j
  proof -
    have "j div b < length hs div b" using j assms(3) by (simp add: less_mult_imp_div_less)
    then have "Suc (j div b) * b \<le> length hs div b * b" by (intro mult_le_mono1) simp
    also have "\<dots> \<le> length hs" by (rule div_times_less_eq_dividend)
    finally have full: "j div b * b + b \<le> length hs" by simp
    let ?e = "j div b * b + b - 1" let ?R = "compute_batch_root B (batch_of b hs j)"
    have e: "Suc ?e = Suc (j div b) * b" using assms(3) by simp
    have "?e div b = j div b" by (rule div_nat_eqI) (use assms(3) in \<open>simp_all add: algebra_simps\<close>)
    then have "rs ! ?e = Some (sign_bytes W i ?R)"
      using r(2) full assms(3) e by (simp add: batch_of_def)
    moreover have "verify_with W (node_id i) ?R (sign_bytes W i ?R)"
      using assms(1,2) by (simp add: wire_ok_def node_id_def sign_bytes_def build_from_def)
    moreover have "batch_of b hs j ! (j mod b) = hs ! j" "j mod b < length (batch_of b hs j)"
      using full assms(3) by (simp_all add: batch_of_def)
    ultimately show ?thesis using proofs_complete [of "j mod b" "batch_of b hs j" B] by auto
  qed
  then show ?thesis using r(1) by simp
qed

section \<open>Evaluations\<close>

abbreviation leaf_hash :: "u8 \<Rightarrow> Hash32" where
  "leaf_hash b \<equiv> replicate 32 b"

theorem batch_root_ambiguous_witness:
  "compute_batch_root sample_hash [sample_hash (leaf_hash 1 @ leaf_hash 2), leaf_hash 3]
   = compute_batch_root sample_hash [leaf_hash 1, leaf_hash 2, leaf_hash 3]"
  using batch_root_ambiguous [of "[leaf_hash 1, leaf_hash 2, leaf_hash 3]" sample_hash] by simp

theorem proof_binds_leaf_witness:
  "verify_proof sample_hash (leaf_hash 1) [(leaf_hash 2, True)] (compute_batch_root sample_hash [leaf_hash 1, leaf_hash 2])
   \<and> compute_proof sample_hash [leaf_hash 1, leaf_hash 2] 0 = [(leaf_hash 2, True)]"
proof -
  let ?hs = "[leaf_hash 1, leaf_hash 2]"
  have c: "compute_proof sample_hash ?hs 0 = [(leaf_hash 2, True)]"
    by (simp add: compute_proof_loop proof_loop.simps)
  then have v: "verify_proof sample_hash (leaf_hash 1) [(leaf_hash 2, True)] (compute_batch_root sample_hash ?hs)"
    using proofs_complete [of 0 ?hs sample_hash] by simp
  have "leaf_hash 1 = ?hs ! 0 \<and> [(leaf_hash 2, True)] = compute_proof sample_hash ?hs 0"
    by (rule proof_binds_leaf [OF digest32_sample _ _ _ _ _ _ v]) (simp_all add: c)
  then show ?thesis using v by simp
qed

theorem batch_authenticates_witness:
  "batches_signed (snd (sign_all sample_wire sample_hash (build_from sample_wire [7]) [leaf_hash 1, leaf_hash 2, leaf_hash 3]
     (signer_new 2))) = 1"
proof -
  let ?r = "sign_all sample_wire sample_hash (build_from sample_wire [7]) [leaf_hash 1, leaf_hash 2, leaf_hash 3] (signer_new 2)"
  have "?r = (fst ?r, snd ?r)" by simp
  from batch_authenticates [OF sample_wire_ok(1) refl _ this] show ?thesis by simp
qed

end
