(* ===== verification/Mesh_Scenarios.thy ===== *)
theory Mesh_Scenarios
  imports L3_Mesh Batch_Signing
begin

text \<open>
  The scenarios of the mesh benchmarks as histories of mutations and transfers, followed by rounds of
  anti-entropy: replicas on a lossy network and a partition that heals
  (\<open>aimp_node/examples/bench_netem.rs\<close>), and replicas whose mutations are signed in batches
  (\<open>examples/bench_delta_sync.rs\<close>). The seeds of the identities, the lost exchanges and the iteration
  order of hash sets in each step are parameters. A panic is \<open>None\<close>.
\<close>

section \<open>The code\<close>

subsection \<open>Histories\<close>

text \<open>A mutation of a replica, a transfer of what is missing, and a copy of all nodes into a replica.\<close>

datatype mesh_op = Mutate nat string string nat | Push nat nat | Replicate nat nat

definition copy_nodes :: "platform \<Rightarrow> call_env \<Rightarrow> MerkleCrdtEngine \<Rightarrow> MerkleCrdtEngine \<Rightarrow> MerkleCrdtEngine" where
  "copy_nodes P env src dst =
     bench_recompute_heads env
       (foldl (\<lambda>dst (h, n). dst\<lparr>arena := snd (arena_insert (vacant P) h n (arena dst))\<rparr>) dst (get_all_iter (arena src)))"

definition do_op ::
  "platform \<Rightarrow> wire \<Rightarrow> Identity list \<Rightarrow> call_env \<Rightarrow> mesh_op \<Rightarrow> MerkleCrdtEngine list \<Rightarrow> MerkleCrdtEngine list option" where
  "do_op P W who env op es =
     (case op of
        Mutate i d name tick \<Rightarrow>
          map_option (\<lambda>(h, e). es[i := e]) (create_mutation P W env (who ! i) (ascii d) name tick (es ! i))
      | Push i j \<Rightarrow> Some (es[j := fst (full_push P env (es ! i) (es ! j))])
      | Replicate i j \<Rightarrow> Some (es[j := copy_nodes P env (es ! i) (es ! j)]))"

primrec run_ops ::
  "platform \<Rightarrow> wire \<Rightarrow> Identity list \<Rightarrow> (nat \<Rightarrow> call_env) \<Rightarrow> mesh_op list \<Rightarrow> MerkleCrdtEngine list
    \<Rightarrow> MerkleCrdtEngine list option" where
  "run_ops P W who A [] es = Some es"
| "run_ops P W who A (op # ops) es =
     Option.bind (do_op P W who (A (length ops)) op es) (run_ops P W who A ops)"

subsection \<open>The lossy network\<close>

definition NUM_NODES :: nat where "NUM_NODES = 5"
definition MUTATIONS_PER_NODE :: nat where "MUTATIONS_PER_NODE = 50"

text \<open>Ticks start at one.\<close>

definition scenario_ops :: "mesh_op list" where
  "scenario_ops = concat (map (\<lambda>i. map (\<lambda>tick.
     Mutate i (''netem-n'' @ decimal i @ ''-m'' @ decimal tick) (''n'' @ decimal i) (tick + 1)) [0..<MUTATIONS_PER_NODE]) [0..<NUM_NODES])"

record NetemResult =
  net_converged :: bool
  net_rounds :: nat
  nodes_transferred :: nat
  distinct_roots_final :: nat

function netem_loop ::
  "platform \<Rightarrow> (nat \<Rightarrow> nat \<Rightarrow> nat \<Rightarrow> call_env) \<Rightarrow> (nat \<Rightarrow> nat \<Rightarrow> nat \<Rightarrow> bool) \<Rightarrow> u64 \<Rightarrow> u64
    \<Rightarrow> (nat \<Rightarrow> nat \<Rightarrow> nat \<Rightarrow> u64) \<Rightarrow> nat \<Rightarrow> nat \<Rightarrow> nat \<Rightarrow> MerkleCrdtEngine list \<Rightarrow> NetemResult \<times> MerkleCrdtEngine list" where
  "netem_loop P E lost latency jitter drawn max_rounds rounds moved es =
     (let rounds = rounds + 1;
          st = sync_round_with_impairment P (E rounds) (lost rounds) latency jitter (drawn rounds) es;
          transferred = fst (snd st); moved = moved + transferred;
          c = check_convergence P (fst st); converged = fst (fst c); distinct_roots = snd (fst c)
      in if converged then (\<lparr>net_converged = True, net_rounds = rounds, nodes_transferred = moved, distinct_roots_final = 1\<rparr>, snd c)
         else if transferred = 0 \<or> rounds \<ge> max_rounds
         then (\<lparr>net_converged = False, net_rounds = rounds, nodes_transferred = moved, distinct_roots_final = distinct_roots\<rparr>, snd c)
         else netem_loop P E lost latency jitter drawn max_rounds rounds moved (snd c))"
  by auto
termination by (relation "measure (\<lambda>(P, E, lost, latency, jitter, drawn, max_rounds, rounds, moved, es). max_rounds - rounds)") auto

declare netem_loop.simps [simp del]

definition new_engines :: "nat \<Rightarrow> MerkleCrdtEngine list" where
  "new_engines n = map (\<lambda>_. engine_new None) [0..<n]"

definition new_identities :: "wire \<Rightarrow> bytes list \<Rightarrow> Identity list" where
  "new_identities W seeds = map (identity_new W) seeds"

definition run_scenario ::
  "platform \<Rightarrow> wire \<Rightarrow> bytes list \<Rightarrow> (nat \<Rightarrow> call_env) \<Rightarrow> (nat \<Rightarrow> nat \<Rightarrow> nat \<Rightarrow> call_env) \<Rightarrow> (nat \<Rightarrow> nat \<Rightarrow> nat \<Rightarrow> bool)
    \<Rightarrow> u64 \<Rightarrow> u64 \<Rightarrow> (nat \<Rightarrow> nat \<Rightarrow> nat \<Rightarrow> u64) \<Rightarrow> nat \<Rightarrow> (NetemResult \<times> MerkleCrdtEngine list) option" where
  "run_scenario P W seeds A E lost latency jitter drawn max_rounds =
     map_option (netem_loop P E lost latency jitter drawn max_rounds 0 0)
       (run_ops P W (new_identities W seeds) A scenario_ops (new_engines NUM_NODES))"

text \<open>The partition: a shared baseline, then two groups that diverge, each with one replica that mutates.\<close>

definition baseline_ops :: "mesh_op list" where
  "baseline_ops = map (\<lambda>tick. Mutate 0 (''base-'' @ decimal tick) ''n0'' (tick + 1)) [0..<10]
     @ map (Replicate 0) [1..<NUM_NODES]"

definition partition_ops :: "nat \<Rightarrow> mesh_op list" where
  "partition_ops n = concat (map (\<lambda>round.
     [Mutate 0 (''partA-r'' @ decimal round) ''n0'' (100 + round), Push 0 1,
      Mutate 2 (''partB-r'' @ decimal round) ''n2'' (100 + round), Push 2 3, Push 2 4]) [0..<n])"

definition run_partition_scenario ::
  "platform \<Rightarrow> wire \<Rightarrow> bytes list \<Rightarrow> (nat \<Rightarrow> call_env) \<Rightarrow> (nat \<Rightarrow> nat \<Rightarrow> nat \<Rightarrow> call_env) \<Rightarrow> (nat \<Rightarrow> nat \<Rightarrow> nat \<Rightarrow> bool)
    \<Rightarrow> nat \<Rightarrow> (NetemResult \<times> MerkleCrdtEngine list) option" where
  "run_partition_scenario P W seeds A E lost partition_rounds =
     map_option (netem_loop P E lost 0 0 (\<lambda>_ _ _. 0) 50 0 0)
       (run_ops P W (new_identities W seeds) A (baseline_ops @ partition_ops partition_rounds) (new_engines NUM_NODES))"

subsection \<open>Mutations signed in batches\<close>

text \<open>
  The signature of a mutation when its hash joins the pending ones: that of the batch root when the
  batch is full, otherwise a placeholder of zeros. The loop of one replica, over its ticks.
\<close>

definition batch_sign :: "wire \<Rightarrow> blake3 \<Rightarrow> Identity \<Rightarrow> nat \<Rightarrow> Hash32 \<Rightarrow> Hash32 list \<Rightarrow> bytes \<times> Hash32 list" where
  "batch_sign W B i bsize dh pending =
     (let pending = pending @ [dh]
      in if length pending \<ge> bsize then (sign_bytes W i (compute_batch_root B pending), [])
         else (replicate 64 0, pending))"

definition data_of :: "nat \<Rightarrow> nat \<Rightarrow> bytes" where
  "data_of ni tick = [of_nat ni, of_nat (tick div 256), of_nat tick]"

primrec batched_mutations ::
  "platform \<Rightarrow> wire \<Rightarrow> (nat \<Rightarrow> call_env) \<Rightarrow> Identity \<Rightarrow> nat \<Rightarrow> nat \<Rightarrow> nat list \<Rightarrow> Hash32 list \<times> MerkleCrdtEngine
    \<Rightarrow> Hash32 list \<times> MerkleCrdtEngine" where
  "batched_mutations P W A i ni bsize [] st = st"
| "batched_mutations P W A i ni bsize (tick # ticks) st =
     (let dh = blake P (data_of ni tick);
          (sig, pending) = batch_sign W (blake P) i bsize dh (fst st);
          (h, e) = append_mutation P (A tick) dh sig [(''n'' @ decimal ni, of_nat tick + 1)] None (snd st)
      in batched_mutations P W A i ni bsize ticks (pending, e))"

definition create_engines ::
  "platform \<Rightarrow> wire \<Rightarrow> (nat \<Rightarrow> nat \<Rightarrow> call_env) \<Rightarrow> bytes list \<Rightarrow> nat \<Rightarrow> nat \<Rightarrow> MerkleCrdtEngine list" where
  "create_engines P W A seeds mutations_per_node bsize =
     map (\<lambda>(ni, seed). snd (batched_mutations P W (A ni) (identity_new W seed) ni bsize [0..<mutations_per_node]
         ([], with_gc_threshold None 100000))) (enumerate 0 seeds)"

section \<open>Histories keep the invariant\<close>

text \<open>The mutations of a history make new nodes only.\<close>

definition fresh_op :: "platform \<Rightarrow> wire \<Rightarrow> Identity list \<Rightarrow> call_env \<Rightarrow> mesh_op \<Rightarrow> MerkleCrdtEngine list \<Rightarrow> bool" where
  "fresh_op P W who env op es =
     (case op of
        Mutate i d name tick \<Rightarrow>
          (case create_mutation P W env (who ! i) (ascii d) name tick (es ! i) of
             Some (h, e) \<Rightarrow> fresh_hash h (arena (es ! i)) | None \<Rightarrow> True)
      | _ \<Rightarrow> True)"

primrec fresh_ops ::
  "platform \<Rightarrow> wire \<Rightarrow> Identity list \<Rightarrow> (nat \<Rightarrow> call_env) \<Rightarrow> mesh_op list \<Rightarrow> MerkleCrdtEngine list \<Rightarrow> bool" where
  "fresh_ops P W who A [] es = True"
| "fresh_ops P W who A (op # ops) es =
     (fresh_op P W who (A (length ops)) op es
      \<and> (case do_op P W who (A (length ops)) op es of Some es' \<Rightarrow> fresh_ops P W who A ops es' | None \<Rightarrow> True))"

primrec op_bound :: "nat \<Rightarrow> mesh_op \<Rightarrow> bool" where
  "op_bound n (Mutate i d name tick) = (i < n)"
| "op_bound n (Push i j) = (i < n \<and> j < n)"
| "op_bound n (Replicate i j) = (i < n \<and> j < n)"

lemma copy_nodes_correct:
  assumes "vacant_key (vacant P)" "iter_ok env" "dag_ok P src" "dag_ok P dst"
  shows "dag_ok P (copy_nodes P env src dst)"
    and "get_by_hash (arena (copy_nodes P env src dst)) = get_by_hash (arena src) ++ get_by_hash (arena dst)"
proof -
  let ?xs = "get_all_iter (arena src)"
  have "foldl (\<lambda>dst (h, n). dst\<lparr>arena := snd (arena_insert (vacant P) h n (arena dst))\<rparr>) d xs
      = d\<lparr>arena := arena.add_all (vacant P) xs (arena d)\<rparr>" for d :: MerkleCrdtEngine and xs
    by (induction xs arbitrary: d) (auto simp: arena.add_all_def)
  then have c: "copy_nodes P env src dst = recompute_heads env (dst\<lparr>arena := arena.add_all (vacant P) ?xs (arena dst)\<rparr>)"
    by (simp add: copy_nodes_def)
  have src: "arena_ok (arena src)" using assms(3) by (simp add: dag_ok_def engine_ok_def)
  then have "\<forall>(h, n)\<in>set ?xs. h = compute_hash (blake P) n" using arena.set_entries assms(3) by (auto simp: dag_ok_def)
  note add = add_nodes_dag_ok [OF assms(1,2,4) this c]
  show "dag_ok P (copy_nodes P env src dst)" by (rule add(1))
  show "get_by_hash (arena (copy_nodes P env src dst)) = get_by_hash (arena src) ++ get_by_hash (arena dst)"
    using add(2) arena.entries [OF src] by simp
qed

lemma create_mutation_dag_ok:
  assumes "vacant_key (vacant P)" "iter_ok env" "dag_ok P e" "create_mutation P W env i d name tick e = Some (h, e')"
    "fresh_hash h (arena e)"
  shows "dag_ok P e'"
proof -
  obtain sig where "append_mutation P env (blake P d) sig [(name, of_nat tick)] None e = (h, e')"
    using assms(4) by (auto simp: create_mutation_def Let_def split: sum.splits)
  from append_extends [OF assms(2,1,3) this assms(5)] show ?thesis by blast
qed

lemma do_op_dag_ok:
  assumes "vacant_key (vacant P)" "iter_ok env" "\<forall>e\<in>set es. dag_ok P e" "op_bound (length es) op"
    and "do_op P W who env op es = Some es'" "fresh_op P W who env op es"
  shows "length es' = length es \<and> (\<forall>e\<in>set es'. dag_ok P e)"
proof -
  have upd: "\<forall>x\<in>set (es[i := e]). dag_ok P x" if "dag_ok P e" for i e
    using assms(3) that by (auto dest!: set_update_subset_insert [THEN subsetD])
  show ?thesis
  proof (cases op)
    case (Mutate i d name tick)
    then obtain h e where c: "create_mutation P W env (who ! i) (ascii d) name tick (es ! i) = Some (h, e)" "es' = es[i := e]"
      using assms(5) by (auto simp: do_op_def)
    have "dag_ok P e"
      by (rule create_mutation_dag_ok [OF assms(1,2) _ c(1)]) (use assms(3,4,6) Mutate c(1) in \<open>simp_all add: fresh_op_def\<close>)
    then show ?thesis using upd c(2) by simp
  next
    case (Push i j)
    then have "dag_ok P (es ! i)" "dag_ok P (es ! j)" using assms(3,4) by simp_all
    from full_push_correct(1) [OF assms(1,2) this] show ?thesis using upd assms(5) Push by (auto simp: do_op_def)
  next
    case (Replicate i j)
    then have "dag_ok P (es ! i)" "dag_ok P (es ! j)" using assms(3,4) by simp_all
    from copy_nodes_correct(1) [OF assms(1,2) this] show ?thesis using upd assms(5) Replicate by (auto simp: do_op_def)
  qed
qed

lemma run_ops_dag_ok:
  assumes "vacant_key (vacant P)" "\<forall>k. iter_ok (A k)" "\<forall>e\<in>set es. dag_ok P e" "\<forall>op\<in>set ops. op_bound (length es) op"
    and "run_ops P W who A ops es = Some es'" "fresh_ops P W who A ops es"
  shows "length es' = length es \<and> (\<forall>e\<in>set es'. dag_ok P e)"
  using assms(3-6)
proof (induction ops arbitrary: es)
  case (Cons op ops)
  obtain fs where fs: "do_op P W who (A (length ops)) op es = Some fs" "run_ops P W who A ops fs = Some es'"
    using Cons.prems(3) by (auto simp: bind_eq_Some_conv)
  have ok: "length fs = length es \<and> (\<forall>e\<in>set fs. dag_ok P e)"
    by (rule do_op_dag_ok [OF assms(1) _ Cons.prems(1) _ fs(1)]) (use assms(2) Cons.prems(2,4) in simp_all)
  show ?case using Cons.IH [of fs] ok fs Cons.prems(2,4) by simp
qed simp

lemma scenario_bounds:
  "\<forall>op\<in>set scenario_ops. op_bound NUM_NODES op" "\<forall>op\<in>set (baseline_ops @ partition_ops n). op_bound NUM_NODES op"
  by (auto simp: scenario_ops_def baseline_ops_def partition_ops_def NUM_NODES_def)

section \<open>Rounds\<close>

lemma lossless_pairs: "impaired_pairs (\<lambda>i j. False) n = all_pairs n"
  by (simp add: impaired_pairs_def)

lemma check_convergence_iff:
  assumes "check_convergence P es = ((conv, k), fs)"
  shows "conv \<longleftrightarrow> k = 1" "k = card (fst ` get_merkle_root P ` set es)" "fs = map (\<lambda>e. snd (get_merkle_root P e)) es"
  using assms by (auto simp: check_convergence_def Let_def image_image)

text \<open>The loop ends for one of three reasons, and says truly which.\<close>

lemma netem_loop_ends:
  assumes "netem_loop P E lost latency jitter drawn max_rounds rounds moved es = (r, fs)"
  shows "(net_converged r \<longleftrightarrow> distinct_roots_final r = 1) \<and> rounds < net_rounds r
    \<and> (rounds < max_rounds \<longrightarrow> net_rounds r \<le> max_rounds)"
  using assms
proof (induction P E lost latency jitter drawn max_rounds rounds moved es arbitrary: r fs rule: netem_loop.induct)
  case (1 P E lost latency jitter drawn max_rounds rounds moved es)
  let ?st = "sync_round_with_impairment P (E (rounds + 1)) (lost (rounds + 1)) latency jitter (drawn (rounds + 1)) es"
  let ?c = "check_convergence P (fst ?st)"
  have c: "fst (fst ?c) \<longleftrightarrow> snd (fst ?c) = 1" using check_convergence_iff(1) by (metis prod.collapse)
  consider "fst (fst ?c)" | "\<not> fst (fst ?c)" "fst (snd ?st) = 0 \<or> rounds + 1 \<ge> max_rounds"
    | "\<not> fst (fst ?c)" "\<not> (fst (snd ?st) = 0 \<or> rounds + 1 \<ge> max_rounds)" by blast
  then show ?case
  proof cases
    case 1
    then show ?thesis using "1.prems" by (subst (asm) netem_loop.simps) (auto simp: Let_def)
  next
    case 2
    then show ?thesis using "1.prems" c by (subst (asm) netem_loop.simps) (auto simp: Let_def)
  next
    case 3
    then have "netem_loop P E lost latency jitter drawn max_rounds (rounds + 1) (moved + fst (snd ?st)) (snd ?c) = (r, fs)"
      using "1.prems" by (subst (asm) netem_loop.simps) (simp add: Let_def)
    from "1.IH" [OF refl refl refl refl refl refl refl 3 this] show ?thesis using 3 by simp
  qed
qed

text \<open>A round in which every exchange is lost ends the run, however many rounds are left.\<close>

lemma lost_round_ends:
  assumes "\<And>i j. lost 1 i j" "fst (fst (check_convergence P es)) = False"
    and "netem_loop P E lost latency jitter drawn max_rounds 0 0 es = (r, fs)"
  shows "\<not> net_converged r \<and> net_rounds r = 1 \<and> nodes_transferred r = 0"
proof -
  have "impaired_pairs (lost 1) (length es) = []" using assms(1) by (auto simp: impaired_pairs_def filter_empty_conv)
  then have "fst (sync_round_with_impairment P (E 1) (lost 1) latency jitter (drawn 1) es) = es"
    "fst (snd (sync_round_with_impairment P (E 1) (lost 1) latency jitter (drawn 1) es)) = 0"
    by (simp_all add: sync_round_with_impairment_def sync_round_def)
  then show ?thesis using assms(2,3) by (subst (asm) netem_loop.simps) (auto simp: Let_def)
qed

section \<open>Batches\<close>

lemma append_mutation_nodes:
  assumes "vacant_key (vacant P)" "arena_ok (arena e)" "append_mutation P env dh sig vc ev e = (h, e')"
  shows "arena_ok (arena e')"
    and "n \<in> ran (get_by_hash (arena e')) \<Longrightarrow> n \<in> ran (get_by_hash (arena e)) \<or> data_hash n = dh \<and> node_signature n = sig"
proof -
  define m where "m = new_node env dh sig vc ev e"
  define b where "b = appended P env h m e"
  have e': "e' = (if mutations_since_gc b \<ge> gc_threshold b then (compact_history env b)\<lparr>mutations_since_gc := 0\<rparr> else b)"
    using assms(3) by (auto simp: append_mutation_eq m_def b_def Let_def)
  have b: "arena b = snd (arena_insert (vacant P) h m (arena e))" by (simp add: b_def appended_def Let_def)
  have ok: "arena_ok (arena b)" unfolding b by (rule arena.ok_add [OF assms(1,2)])
  have k: "get_by_hash (arena b) = (if get_by_hash (arena e) h = None then (get_by_hash (arena e))(h \<mapsto> m) else get_by_hash (arena e))"
    unfolding b by (rule arena.lookup_add [OF assms(1,2)])
  have sub: "ran (get_by_hash (arena e')) \<subseteq> ran (get_by_hash (arena b))"
    using compact_history_arena(1) [OF ok, of env] by (auto simp: e' ran_def restrict_map_def split: if_splits)
  show "arena_ok (arena e')" using ok compact_history_arena(2) [OF ok, of env] by (simp add: e')
  assume "n \<in> ran (get_by_hash (arena e'))"
  then have "n \<in> ran (get_by_hash (arena b))" using sub by blast
  then have "n \<in> ran (get_by_hash (arena e)) \<or> n = m" unfolding k by (auto simp: ran_def split: if_splits)
  then show "n \<in> ran (get_by_hash (arena e)) \<or> data_hash n = dh \<and> node_signature n = sig"
    by (auto simp: m_def new_node_def)
qed

lemma batched_mutations_append:
  "batched_mutations P W A i ni bsize (xs @ ys) st = batched_mutations P W A i ni bsize ys (batched_mutations P W A i ni bsize xs st)"
  by (induction xs arbitrary: st) (simp_all add: Let_def case_prod_beta)

text \<open>The data hashes of a replica, and the signature that the mutation of a tick gets.\<close>

definition tick_hashes :: "blake3 \<Rightarrow> nat \<Rightarrow> nat \<Rightarrow> nat \<Rightarrow> Hash32 list" where
  "tick_hashes B ni a b = map (\<lambda>t. B (data_of ni t)) [a..<b]"

definition tick_signature :: "wire \<Rightarrow> blake3 \<Rightarrow> Identity \<Rightarrow> nat \<Rightarrow> nat \<Rightarrow> nat \<Rightarrow> bytes" where
  "tick_signature W B i ni bsize tick =
     (if Suc tick mod bsize = 0 then sign_bytes W i (compute_batch_root B (tick_hashes B ni (Suc tick - bsize) (Suc tick)))
      else replicate 64 0)"

lemma batch_sign_tick:
  assumes "0 < bsize"
  shows "batch_sign W B i bsize (B (data_of ni tick)) (tick_hashes B ni (tick - tick mod bsize) tick)
    = (tick_signature W B i ni bsize tick, tick_hashes B ni (Suc tick - Suc tick mod bsize) (Suc tick))"
proof -
  let ?p = "tick_hashes B ni (tick - tick mod bsize) (Suc tick)"
  have p: "tick_hashes B ni (tick - tick mod bsize) tick @ [B (data_of ni tick)] = ?p"
    by (simp add: tick_hashes_def)
  have len: "length ?p = Suc (tick mod bsize)"
    using mod_less_eq_dividend [of tick bsize] by (simp add: tick_hashes_def Suc_diff_le)
  have less: "tick mod bsize < bsize" using assms by simp
  show ?thesis
  proof (cases "Suc (tick mod bsize) = bsize")
    case True
    then have m: "Suc tick mod bsize = 0" "tick - tick mod bsize = Suc tick - bsize"
      using mod_Suc [of tick bsize] by simp_all
    have "tick_hashes B ni (Suc tick - Suc tick mod bsize) (Suc tick) = []" by (simp add: tick_hashes_def m(1))
    then show ?thesis unfolding batch_sign_def p Let_def len tick_signature_def using True m by simp
  next
    case False
    then have m: "Suc tick mod bsize = Suc (tick mod bsize)" "tick - tick mod bsize = Suc tick - Suc (tick mod bsize)"
      using mod_Suc [of tick bsize] by simp_all
    then show ?thesis unfolding batch_sign_def p Let_def len tick_signature_def using False less by simp
  qed
qed

lemma batched_nodes:
  assumes "vacant_key (vacant P)" "0 < bsize"
    and "batched_mutations P W A i ni bsize [0..<m] ([], with_gc_threshold None gc) = (pending, e)"
  shows "pending = tick_hashes (blake P) ni (m - m mod bsize) m \<and> arena_ok (arena e)
    \<and> (\<forall>n\<in>ran (get_by_hash (arena e)). \<exists>tick<m. data_hash n = blake P (data_of ni tick)
         \<and> node_signature n = tick_signature W (blake P) i ni bsize tick)"
  using assms(3)
proof (induction m arbitrary: pending e)
  case 0
  have "engine_ok P (with_gc_threshold None gc)" by simp
  then have "arena_ok (arena (with_gc_threshold None gc))" by (simp only: engine_ok_def)
  moreover have "get_by_hash (arena (with_gc_threshold None gc)) = Map.empty" by (simp add: with_gc_threshold_def)
  ultimately show ?case using 0 by (auto simp: tick_hashes_def)
next
  case (Suc m)
  obtain q f where f: "batched_mutations P W A i ni bsize [0..<m] ([], with_gc_threshold None gc) = (q, f)" by fastforce
  note IH = Suc.IH [OF f]
  let ?sig = "tick_signature W (blake P) i ni bsize m"
  obtain h g where g: "append_mutation P (A m) (blake P (data_of ni m)) ?sig [(''n'' @ decimal ni, of_nat m + 1)] None f = (h, g)"
    by fastforce
  have "batched_mutations P W A i ni bsize [0..<Suc m] ([], with_gc_threshold None gc)
      = batched_mutations P W A i ni bsize [m] (q, f)"
    using f batched_mutations_append [of P W A i ni bsize "[0..<m]" "[m]"] by simp
  also have "\<dots> = (tick_hashes (blake P) ni (Suc m - Suc m mod bsize) (Suc m), g)"
    using g batch_sign_tick [OF assms(2), of W "blake P" i ni m] IH by simp
  finally have "pending = tick_hashes (blake P) ni (Suc m - Suc m mod bsize) (Suc m)" "e = g" using Suc.prems by simp_all
  moreover have "arena_ok (arena f)" using IH by blast
  note new = append_mutation_nodes [OF assms(1) this g]
  moreover have "\<exists>tick<Suc m. data_hash n = blake P (data_of ni tick) \<and> node_signature n = tick_signature W (blake P) i ni bsize tick"
    if "n \<in> ran (get_by_hash (arena g))" for n
    using new(2) [OF that] IH less_SucI by blast
  ultimately show ?case using new(1) by blast
qed

section \<open>Properties\<close>

text \<open>
  C38: A partition heals: after any history of fresh mutations and transfers among any of the replicas,
  however they were divided, one merge round without loss makes the run converge. All replicas then
  hold the nodes of all, have one root, and satisfy the invariant.
\<close>

theorem partition_heals:
  assumes "vacant_key (vacant P)" "\<forall>k. iter_ok (A k)" "\<forall>r i j. iter_ok (E r i j)"
    and "es0 \<noteq> []" "\<forall>e\<in>set es0. dag_ok P e" "\<forall>op\<in>set ops. op_bound (length es0) op"
    and "run_ops P W who A ops es0 = Some es" "fresh_ops P W who A ops es0"
    and "inj_on (compute_hash (blake P)) (mesh_nodes es)" "lost 1 = (\<lambda>i j. False)"
    and "netem_loop P E lost latency jitter drawn max_rounds 0 0 es = (r, fs)"
  shows "net_converged r \<and> net_rounds r = 1 \<and> distinct_roots_final r = 1 \<and> length fs = length es0
    \<and> (\<forall>e\<in>set fs. dag_ok P e \<and> ran (get_by_hash (arena e)) = mesh_nodes es)
    \<and> (\<forall>e\<in>set fs. \<forall>f\<in>set fs. fst (get_merkle_root P e) = fst (get_merkle_root P f))"
proof -
  have run: "length es = length es0" "\<forall>e\<in>set es. dag_ok P e"
    using run_ops_dag_ok [OF assms(1,2,5-8)] by simp_all
  then have ne: "es \<noteq> []" using assms(4) by auto
  have E: "\<forall>i j. iter_ok (E 1 i j)" using assms(3) by blast
  let ?gs = "fst (sync_round (full_push P) (E 1) (all_pairs (length es)) es)"
  note g = full_round_agrees [OF assms(1) E ne run(2) assms(9) refl]
  note c = check_agreed [OF g(1,3)]
  have round: "fst (sync_round_with_impairment P (E 1) (lost 1) latency jitter (drawn 1) es) = ?gs"
    unfolding sync_round_with_impairment_def assms(10) lossless_pairs by (simp add: case_prod_beta Let_def)
  have "\<exists>k. (r, fs) = (\<lparr>net_converged = True, net_rounds = 1, nodes_transferred = k, distinct_roots_final = 1\<rparr>, snd (check_convergence P ?gs))"
    unfolding assms(11) [symmetric] netem_loop.simps [of P E lost latency jitter drawn max_rounds 0 0 es] Let_def add_0 round
    by (simp only: c(1) if_True) blast
  then have r: "net_converged r" "net_rounds r = 1" "distinct_roots_final r = 1" and fs: "fs = snd (check_convergence P ?gs)" by auto
  have "\<forall>e\<in>set fs. replica P (universe es) e \<and> held e = dom (universe es)" unfolding fs by (rule c(3))
  note agreed_result [OF this g(4)]
  moreover have "length fs = length es0" unfolding fs c(2) g(2) by (rule run(1))
  ultimately show ?thesis using r by blast
qed

text \<open>
  Only every \<open>bsize\<close>-th mutation is signed: each node of a replica made in batches belongs to a tick,
  and carries the signature of the root over the last \<open>bsize\<close> data hashes when its tick fills a batch,
  and the placeholder of zeros for ever otherwise.
\<close>

theorem placeholders_stay:
  assumes "vacant_key (vacant P)" "0 < bsize" "ni < length seeds"
    and "e = create_engines P W A seeds m bsize ! ni" "n \<in> ran (get_by_hash (arena e))"
  shows "\<exists>tick<m. data_hash n = blake P (data_of ni tick)
    \<and> node_signature n =
        (if (tick + 1) mod bsize = 0
         then sign_bytes W (identity_new W (seeds ! ni))
           (compute_batch_root (blake P) (map (\<lambda>t. blake P (data_of ni t)) [tick + 1 - bsize..<tick + 1]))
         else replicate 64 0)"
proof -
  let ?run = "batched_mutations P W (A ni) (identity_new W (seeds ! ni)) ni bsize [0..<m] ([], with_gc_threshold None 100000)"
  have "e = snd ?run" using assms(3,4) by (simp add: create_engines_def nth_enumerate_eq)
  then have "?run = (fst ?run, e)" by simp
  from batched_nodes [OF assms(1,2) this] obtain tick where "tick < m" "data_hash n = blake P (data_of ni tick)"
    "node_signature n = tick_signature W (blake P) (identity_new W (seeds ! ni)) ni bsize tick"
    using assms(5) by blast
  then show ?thesis unfolding tick_signature_def tick_hashes_def by (intro exI [of _ tick]) simp
qed

section \<open>Witnesses\<close>

theorem partition_heals_witness:
  "\<exists>r fs. netem_loop sample_platform (\<lambda>_ _ _. sample_env) (\<lambda>_ _ _. False) 0 0 (\<lambda>_ _ _. 0) 50 0 0
       (the (run_ops sample_platform sample_wire [] (\<lambda>_. sample_env) [Push 0 1, Replicate 1 0] two_replicas)) = (r, fs)
     \<and> net_converged r \<and> net_rounds r = 1"
proof -
  let ?P = sample_platform
  let ?ops = "[Push 0 1, Replicate 1 0]"
  let ?f = "fst (full_push ?P sample_env (loaded [sample_node [] 1]) (loaded [sample_node [] 2]))"
  let ?g = "copy_nodes ?P sample_env ?f (loaded [sample_node [] 1])"
  have run: "run_ops ?P sample_wire [] (\<lambda>_. sample_env) ?ops two_replicas = Some [?g, ?f]"
    by (simp add: do_op_def)
  have f: "dag_ok ?P ?f" "get_by_hash (arena ?f) = get_by_hash (arena (loaded [sample_node [] 1])) ++ get_by_hash (arena (loaded [sample_node [] 2]))"
    using full_push_correct [OF sample_vacant sample_env_ok loaded_simps(1) loaded_simps(1)] by blast+
  have ok: "arena_ok (arena ?f)" using f(1) by (simp add: dag_ok_def engine_ok_def)
  have "get_by_hash (arena ?g) = get_by_hash (arena ?f) ++ get_by_hash (arena (loaded [sample_node [] 1]))"
    by (rule copy_nodes_correct(2) [OF sample_vacant sample_env_ok f(1) loaded_simps(1)])
  then have "ran (get_by_hash (arena ?g)) \<subseteq> mesh_nodes two_replicas" "ran (get_by_hash (arena ?f)) \<subseteq> mesh_nodes two_replicas"
    using arena.entries [OF ok] f(2) by (auto simp: mesh_nodes_def ran_def map_add_Some_iff)
  then have "mesh_nodes [?g, ?f] \<subseteq> mesh_nodes two_replicas" by (simp add: mesh_nodes_def)
  then have inj: "inj_on (compute_hash (blake ?P)) (mesh_nodes [?g, ?f])" by (rule inj_on_subset [OF two_replicas_mesh(3)])
  obtain r fs where n: "netem_loop ?P (\<lambda>_ _ _. sample_env) (\<lambda>_ _ _. False) 0 0 (\<lambda>_ _ _. 0) 50 0 0 [?g, ?f] = (r, fs)" by fastforce
  have "net_converged r \<and> net_rounds r = 1"
    using partition_heals [OF sample_vacant _ _ _ _ _ run _ inj _ n] sample_env_ok
    by (simp add: fresh_op_def split: option.split)
  then show ?thesis using run n by simp
qed

theorem placeholders_stay_witness:
  "\<forall>n\<in>ran (get_by_hash (arena (create_engines sample_platform sample_wire (\<lambda>_ _. sample_env) [[7]] 3 2 ! 0))).
     node_signature n = replicate 64 0 \<or> node_signature n = [7]"
proof
  fix n assume "n \<in> ran (get_by_hash (arena (create_engines sample_platform sample_wire (\<lambda>_ _. sample_env) [[7]] 3 2 ! 0)))"
  from placeholders_stay [OF sample_vacant _ _ refl this] show "node_signature n = replicate 64 0 \<or> node_signature n = [7]"
    by (auto simp: sign_bytes_def sample_wire_def identity_new_def build_from_def split: if_splits)
qed

end
