(* ===== verification/Convergence.thy ===== *)
theory Convergence
  imports Mesh_Scenarios
begin

text \<open>
  The convergence benchmark (\<open>aimp_node/examples/bench_convergence.rs\<close>): replicas that mutate on their
  own and are synchronised by transfers of whole stores, and a partition after a shared baseline. Its
  loops differ from those of the network benchmark in the copy of a store, which skips what is there
  and always recomputes the heads, and in the merge, which recomputes them in every exchange after
  the first that moved a node. The asserted agreement of the baseline is proved. A panic is \<open>None\<close>.
\<close>

section \<open>The code\<close>

text \<open>A node of the source that the target lacks, with the count of those moved.\<close>

definition missing_step :: "platform \<Rightarrow> MerkleCrdtEngine \<times> nat \<Rightarrow> Hash32 \<times> DagNode \<Rightarrow> MerkleCrdtEngine \<times> nat" where
  "missing_step P st hn =
     (case (st, hn) of ((dst, moved), (h, n)) \<Rightarrow>
        if arena_contains (arena dst) h then st
        else (dst\<lparr>arena := snd (arena_insert (vacant P) h n (arena dst))\<rparr>, moved + 1))"

definition full_sync :: "platform \<Rightarrow> call_env \<Rightarrow> MerkleCrdtEngine \<Rightarrow> MerkleCrdtEngine \<Rightarrow> MerkleCrdtEngine \<times> nat" where
  "full_sync P env src dst =
     (let (dst, added) = foldl (missing_step P) (dst, 0) (get_all_iter (arena src))
      in (if added > 0 then bench_recompute_heads env dst else dst, added))"

definition share_nodes :: "platform \<Rightarrow> call_env \<Rightarrow> MerkleCrdtEngine \<Rightarrow> MerkleCrdtEngine \<Rightarrow> MerkleCrdtEngine" where
  "share_nodes P env src dst =
     bench_recompute_heads env
       (foldl (\<lambda>dst (h, n). if arena_contains (arena dst) h then dst
           else dst\<lparr>arena := snd (arena_insert (vacant P) h n (arena dst))\<rparr>) dst (get_all_iter (arena src)))"

text \<open>Histories: \<open>Replicate\<close> is the copy into a replica.\<close>

definition conv_op ::
  "platform \<Rightarrow> wire \<Rightarrow> Identity list \<Rightarrow> call_env \<Rightarrow> mesh_op \<Rightarrow> MerkleCrdtEngine list \<Rightarrow> MerkleCrdtEngine list option" where
  "conv_op P W who env op es =
     (case op of
        Mutate i d name tick \<Rightarrow>
          map_option (\<lambda>(h, e). es[i := e]) (create_mutation P W env (who ! i) (ascii d) name tick (es ! i))
      | Push i j \<Rightarrow> Some (es[j := fst (full_sync P env (es ! i) (es ! j))])
      | Replicate i j \<Rightarrow> Some (es[j := share_nodes P env (es ! i) (es ! j)]))"

primrec conv_ops ::
  "platform \<Rightarrow> wire \<Rightarrow> Identity list \<Rightarrow> (nat \<Rightarrow> call_env) \<Rightarrow> mesh_op list \<Rightarrow> MerkleCrdtEngine list
    \<Rightarrow> MerkleCrdtEngine list option" where
  "conv_ops P W who A [] es = Some es"
| "conv_ops P W who A (op # ops) es =
     Option.bind (conv_op P W who (A (length ops)) op es) (conv_ops P W who A ops)"

text \<open>The mutations of the throughput and of the convergence benchmark, by the prefix of their data.\<close>

definition all_mutate :: "string \<Rightarrow> nat \<Rightarrow> nat \<Rightarrow> mesh_op list" where
  "all_mutate prefix nodes mutations_per_node = concat (map (\<lambda>i. map (\<lambda>tick.
     Mutate i (prefix @ ''n'' @ decimal i @ ''-m'' @ decimal tick) (''n'' @ decimal i) (tick + 1)) [0..<mutations_per_node])
       [0..<nodes])"

definition throughput :: "platform \<Rightarrow> wire \<Rightarrow> bytes list \<Rightarrow> (nat \<Rightarrow> call_env) \<Rightarrow> MerkleCrdtEngine list option" where
  "throughput P W seeds A = conv_ops P W (new_identities W seeds) A (all_mutate [] 5 1000) (new_engines 5)"

text \<open>Rounds: what the loop of each benchmark prints at its end.\<close>

datatype outcome = CONVERGED nat nat | STALLED nat nat nat

function conv_loop ::
  "platform \<Rightarrow> (nat \<Rightarrow> nat \<Rightarrow> nat \<Rightarrow> call_env) \<Rightarrow> nat \<Rightarrow> nat \<Rightarrow> MerkleCrdtEngine list \<Rightarrow> outcome \<times> MerkleCrdtEngine list" where
  "conv_loop P E rounds moved es =
     (let rounds = rounds + 1;
          (es, transferred) = sync_round (full_sync P) (E rounds) (all_pairs (length es)) es;
          moved = moved + transferred;
          ((converged, different), es) = check_convergence P es
      in if converged then (CONVERGED rounds moved, es)
         else if transferred = 0 \<or> rounds > 10 then (STALLED rounds different transferred, es)
         else conv_loop P E rounds moved es)"
  by auto
termination by (relation "measure (\<lambda>(P, E, rounds, moved, es). 11 - rounds)") auto

declare conv_loop.simps [simp del]

text \<open>The roots are read and printed once before the rounds.\<close>

definition run_convergence ::
  "platform \<Rightarrow> wire \<Rightarrow> bytes list \<Rightarrow> (nat \<Rightarrow> call_env) \<Rightarrow> (nat \<Rightarrow> nat \<Rightarrow> nat \<Rightarrow> call_env) \<Rightarrow> (outcome \<times> MerkleCrdtEngine list) option" where
  "run_convergence P W seeds A E =
     map_option (\<lambda>es. conv_loop P E 0 0 (snd (check_convergence P es)))
       (conv_ops P W (new_identities W seeds) A (all_mutate ''conv-'' 5 50) (new_engines 5))"

text \<open>The merge counts what it moves through the whole round, and tests the count in every exchange.\<close>

definition merge_exchange ::
  "platform \<Rightarrow> (nat \<Rightarrow> nat \<Rightarrow> call_env) \<Rightarrow> MerkleCrdtEngine list \<times> nat \<Rightarrow> nat \<times> nat \<Rightarrow> MerkleCrdtEngine list \<times> nat" where
  "merge_exchange P E st ij =
     (case (st, ij) of ((es, transferred), (i, j)) \<Rightarrow>
        let (dst, transferred) = foldl (missing_step P) (es ! j, transferred) (get_all_iter (arena (es ! i)))
        in (es[j := if transferred > 0 then bench_recompute_heads (E i j) dst else dst], transferred))"

function merge_loop ::
  "platform \<Rightarrow> (nat \<Rightarrow> nat \<Rightarrow> nat \<Rightarrow> call_env) \<Rightarrow> nat \<Rightarrow> MerkleCrdtEngine list \<Rightarrow> outcome \<times> MerkleCrdtEngine list" where
  "merge_loop P E rounds es =
     (let rounds = rounds + 1;
          (es, transferred) = foldl (merge_exchange P (E rounds)) (es, 0) (all_pairs (length es));
          ((converged, different), es) = check_convergence P es
      in if converged then (CONVERGED rounds transferred, es)
         else if transferred = 0 \<or> rounds > 10 then (STALLED rounds different transferred, es)
         else merge_loop P E rounds es)"
  by auto
termination by (relation "measure (\<lambda>(P, E, rounds, es). 11 - rounds)") auto

declare merge_loop.simps [simp del]

definition shared_ops :: "nat \<Rightarrow> mesh_op list" where
  "shared_ops m = map (\<lambda>tick. Mutate 0 (''shared-'' @ decimal tick) ''n0'' (tick + 1)) [0..<m] @ map (Replicate 0) [1..<5]"

definition split_ops :: "nat \<Rightarrow> mesh_op list" where
  "split_ops m =
     map (\<lambda>tick. Mutate 0 (''partA-'' @ decimal tick) ''n0'' (100 + tick)) [0..<m] @ [Replicate 0 1]
     @ map (\<lambda>tick. Mutate 2 (''partB-'' @ decimal tick) ''n2'' (100 + tick)) [0..<m] @ map (Replicate 2) [3, 4]"

text \<open>The baseline is asserted to agree; the roots are read once more before the merge.\<close>

definition run_merge ::
  "platform \<Rightarrow> wire \<Rightarrow> bytes list \<Rightarrow> (nat \<Rightarrow> call_env) \<Rightarrow> (nat \<Rightarrow> call_env) \<Rightarrow> (nat \<Rightarrow> nat \<Rightarrow> nat \<Rightarrow> call_env)
    \<Rightarrow> (outcome \<times> MerkleCrdtEngine list) option" where
  "run_merge P W seeds A A' E =
     (case conv_ops P W (new_identities W seeds) A (shared_ops 10) (new_engines 5) of
        None \<Rightarrow> None
      | Some es \<Rightarrow>
          (case check_convergence P es of ((agreed, _), es) \<Rightarrow>
             if \<not> agreed then None
             else map_option (\<lambda>es. merge_loop P E 0 (snd (check_convergence P es)))
               (conv_ops P W (new_identities W seeds) A' (split_ops 30) es)))"

section \<open>Against the network benchmark\<close>

lemma missing_step_full:
  "(fst st, fst (snd st), snd (snd st)) = st \<Longrightarrow> missing_step P (fst st, fst (snd st)) hn =
    (fst (full_step P st hn), fst (snd (full_step P st hn)))"
  by (cases st) (simp add: missing_step_def full_step_def split: prod.split)

lemma missing_fold:
  "foldl (missing_step P) (dst, k) xs =
     (fst (foldl (full_step P) (dst, k, b) xs), fst (snd (foldl (full_step P) (dst, k, b) xs)))"
proof (induction xs arbitrary: dst k b)
  case (Cons x xs)
  obtain d l c where s: "full_step P (dst, k, b) x = (d, l, c)" by (metis prod_cases3)
  have "missing_step P (dst, k) x = (d, l)" using missing_step_full [of "(dst, k, b)" P x] s by simp
  then show ?case using Cons [of d l c] s by simp
qed simp

text \<open>The flag of the network benchmark says that the count is positive.\<close>

lemma full_fold_count:
  assumes "foldl (full_step P) (dst, k, b) xs = (d, l, c)"
  shows "k \<le> l \<and> (c \<longleftrightarrow> b \<or> k < l)"
  using assms
proof (induction xs arbitrary: dst k b)
  case (Cons x xs)
  obtain e m a where s: "full_step P (dst, k, b) x = (e, m, a)" by (metis prod_cases3)
  then have "k \<le> m \<and> (a \<longleftrightarrow> b \<or> k < m)" by (auto simp: full_step_def split: prod.splits if_splits)
  moreover have "m \<le> l \<and> (c \<longleftrightarrow> a \<or> m < l)" by (rule Cons.IH) (use Cons.prems s in simp)
  ultimately show ?case by linarith
qed simp

lemma full_sync_eq: "full_sync P env src dst = full_push P env src dst"
proof -
  obtain d l c where s: "foldl (full_step P) (dst, 0, False) (get_all_iter (arena src)) = (d, l, c)" by (metis prod_cases3)
  then have "c \<longleftrightarrow> 0 < l" using full_fold_count [OF s] by simp
  then show ?thesis unfolding full_sync_def full_push_def missing_fold [where b = False] Let_def s by simp
qed

lemma insert_missing:
  fixes dst :: MerkleCrdtEngine
  shows "(if arena_contains (arena dst) h then dst else dst\<lparr>arena := snd (arena_insert v h n (arena dst))\<rparr>)
     = dst\<lparr>arena := snd (arena_insert v h n (arena dst))\<rparr>"
proof (cases "arena_contains (arena dst) h")
  case True
  then have "snd (arena_insert v h n (arena dst)) = arena dst" unfolding held_iff by (rule arena_insert_known)
  then show ?thesis by simp
qed simp

lemma share_nodes_eq: "share_nodes P env src dst = copy_nodes P env src dst"
  unfolding share_nodes_def copy_nodes_def insert_missing by (rule refl)

lemma conv_ops_eq: "conv_ops P W who A ops es = run_ops P W who A ops es"
proof (induction ops arbitrary: es)
  case (Cons op ops)
  have "conv_op P W who env op es = do_op P W who env op es" for env
    unfolding conv_op_def do_op_def full_sync_eq share_nodes_eq by (rule refl)
  moreover have "conv_ops P W who A ops = run_ops P W who A ops" by (rule ext) (rule Cons.IH)
  ultimately show ?case by simp
qed simp

section \<open>The merge\<close>

text \<open>An exchange of the merge leaves the store that a transfer leaves, and an engine with the invariant.\<close>

lemma missing_fold_arena:
  "fst (foldl (missing_step P) (dst, k) xs) = dst\<lparr>arena := arena.add_all (vacant P) xs (arena dst)\<rparr>"
  unfolding missing_fold [where b = False] by (simp add: full_fold)

lemma full_fold_held: "fst ` set xs \<subseteq> held dst \<Longrightarrow> foldl (full_step P) (dst, k, b) xs = (dst, k, b)"
proof (induction xs)
  case (Cons x xs)
  obtain h n where x: "x = (h, n)" by fastforce
  have "arena_contains (arena dst) h" unfolding held_iff using Cons.prems x by simp
  then have "full_step P (dst, k, b) x = (dst, k, b)" by (simp add: full_step_def x)
  then show ?case using Cons by simp
qed simp

lemma full_push_arena:
  assumes "dag_ok P src" "dag_ok P dst" "vacant_key (vacant P)"
  shows "arena (fst (full_push P env src dst)) = arena.add_all (vacant P) (get_all_iter (arena src)) (arena dst)"
proof -
  let ?a = "arena.add_all (vacant P) (get_all_iter (arena src)) (arena dst)"
  have "arena_ok (arena dst)" using assms(2) by (simp add: dag_ok_def engine_ok_def)
  then have "arena_ok ?a" by (rule arena.ok_add_all [OF assms(3)])
  then have "arena (recompute_heads env (dst\<lparr>arena := ?a\<rparr>)) = ?a"
    using recompute_heads_eq [of "dst\<lparr>arena := ?a\<rparr>" env] by simp
  then show ?thesis using full_fold [of P "(dst, 0, False)" "get_all_iter (arena src)"]
    by (simp add: full_push_def Let_def case_prod_beta)
qed

lemma merge_exchange_like:
  assumes "vacant_key (vacant P)" "iter_ok (E i j)" "\<forall>e\<in>set es. dag_ok P e" "\<forall>e\<in>set fs. dag_ok P e"
    and "map arena es = map arena fs" "i < length es" "j < length es"
  shows "(\<forall>e\<in>set (fst (merge_exchange P E (es, t) (i, j))). dag_ok P e)
    \<and> (\<forall>e\<in>set (fst (exchange (full_push P) E (fs, u) (i, j))). dag_ok P e)
    \<and> map arena (fst (merge_exchange P E (es, t) (i, j))) = map arena (fst (exchange (full_push P) E (fs, u) (i, j)))"
proof -
  let ?xs = "get_all_iter (arena (es ! i))"
  let ?e = "(es ! j)\<lparr>arena := arena.add_all (vacant P) ?xs (arena (es ! j))\<rparr>"
  have len: "length es = length fs" using map_eq_imp_length_eq [OF assms(5)] .
  have ok: "dag_ok P (es ! i)" "dag_ok P (es ! j)" "dag_ok P (fs ! i)" "dag_ok P (fs ! j)"
    using assms(3,4,6,7) len by simp_all
  have same: "arena (fs ! k) = arena (es ! k)" if "k < length es" for k
    using arg_cong [OF assms(5), of "\<lambda>as. as ! k"] that len by simp
  obtain l where f: "foldl (missing_step P) (es ! j, t) ?xs = (?e, l)"
    using missing_fold_arena [of P "es ! j" t ?xs] by (metis prod.collapse)
  let ?d = "if l > 0 then bench_recompute_heads (E i j) ?e else ?e"
  have m: "fst (merge_exchange P E (es, t) (i, j)) = es[j := ?d]" by (simp add: merge_exchange_def f)
  have x: "fst (exchange (full_push P) E (fs, u) (i, j)) = fs[j := fst (full_push P (E i j) (fs ! i) (fs ! j))]"
    by (simp add: exchange_def case_prod_beta Let_def)
  have src: "arena_ok (arena (es ! i))" using ok(1) by (simp add: dag_ok_def engine_ok_def)
  have xs: "\<forall>(h, n)\<in>set ?xs. h = compute_hash (blake P) n" using arena.set_entries [OF src] ok(1) by (auto simp: dag_ok_def)
  note add = add_nodes_dag_ok [OF assms(1,2) ok(2) xs refl]
  have a: "arena_ok (arena ?e)" using arena.ok_add_all [OF assms(1), of "arena (es ! j)"] ok(2) by (simp add: dag_ok_def engine_ok_def)
  have d: "arena ?d = arena.add_all (vacant P) ?xs (arena (es ! j))"
    using recompute_heads_eq [of ?e "E i j"] a by simp
  have "dag_ok P ?d"
  proof (cases "0 < l")
    case True
    then show ?thesis using add(1) by simp
  next
    case False
    have "\<not> snd (snd (foldl (full_step P) (es ! j, t, False) ?xs))"
    proof -
      obtain e' l' c where s: "foldl (full_step P) (es ! j, t, False) ?xs = (e', l', c)" by (metis prod_cases3)
      then have "l' = l" using f missing_fold [of P "es ! j" t ?xs False] by simp
      then show ?thesis using full_fold_count [OF s] False s by simp
    qed
    from full_fold_idle [OF this] have "fst ` set ?xs \<subseteq> held (es ! j)" by simp
    then have "foldl (full_step P) (es ! j, 0, False) ?xs = (es ! j, 0, False)"
      by (rule full_fold_held)
    then have "?e = es ! j" using full_fold [of P "(es ! j, 0, False)" ?xs] by simp
    then show ?thesis using ok(2) False by simp
  qed
  moreover have "arena (fst (full_push P (E i j) (fs ! i) (fs ! j))) = arena ?d"
    unfolding d full_push_arena [OF ok(3,4) assms(1)] same [OF assms(6)] same [OF assms(7)] by (rule refl)
  moreover have "dag_ok P (fst (full_push P (E i j) (fs ! i) (fs ! j)))" by (rule full_push_correct(1) [OF assms(1,2) ok(3,4)])
  ultimately show ?thesis unfolding m x map_update assms(5)
    using assms(3,4) by (auto dest!: set_update_subset_insert [THEN subsetD])
qed

lemma merge_round_like:
  assumes "vacant_key (vacant P)" "\<forall>i j. iter_ok (E i j)" "\<forall>e\<in>set es. dag_ok P e" "\<forall>e\<in>set fs. dag_ok P e"
    and "map arena es = map arena fs" "\<forall>(i, j)\<in>set ps. i < length es \<and> j < length es"
  shows "(\<forall>e\<in>set (fst (foldl (merge_exchange P E) (es, t) ps)). dag_ok P e)
    \<and> map arena (fst (foldl (merge_exchange P E) (es, t) ps)) = map arena (fst (foldl (exchange (full_push P) E) (fs, u) ps))"
  using assms(3-6)
proof (induction ps arbitrary: es fs t u)
  case (Cons p ps)
  obtain i j where p: "p = (i, j)" by fastforce
  have ij: "i < length es" "j < length es" using Cons.prems(4) p by auto
  have "iter_ok (E i j)" using assms(2) by simp
  note s = merge_exchange_like [where E = E and i = i and j = j, OF assms(1) this Cons.prems(1,2,3) ij, where t = t and u = u]
  obtain es' t' where m: "merge_exchange P E (es, t) (i, j) = (es', t')" by fastforce
  obtain fs' u' where x: "exchange (full_push P) E (fs, u) (i, j) = (fs', u')" by fastforce
  have "length es' = length es" using m by (auto simp: merge_exchange_def Let_def split: prod.splits)
  then show ?case using Cons.IH [of es' fs' t' u'] s Cons.prems(4) unfolding p foldl_Cons m x by simp
qed simp

section \<open>The baseline\<close>

lemma run_ops_append:
  "run_ops P W who A (xs @ ys) es =
     Option.bind (run_ops P W who (\<lambda>k. A (k + length ys)) xs es) (run_ops P W who A ys)"
proof (induction xs arbitrary: es)
  case (Cons x xs)
  show ?case unfolding append_Cons run_ops.simps length_append Cons.IH [abs_def] bind_assoc by (rule refl)
qed simp

lemma fresh_ops_append:
  "fresh_ops P W who A (xs @ ys) es \<Longrightarrow> fresh_ops P W who (\<lambda>k. A (k + length ys)) xs es"
  by (induction xs arbitrary: es) (auto split: option.splits)

text \<open>The mutations of one replica leave the others alone.\<close>

lemma mutations_local:
  assumes "run_ops P W who A (map (\<lambda>t. Mutate i (d t) (name t) (tick t)) ts) es = Some fs" "k \<noteq> i"
  shows "fs ! k = es ! k"
  using assms(1)
proof (induction ts arbitrary: es)
  case (Cons t ts)
  then obtain gs where g: "do_op P W who (A (length ts)) (Mutate i (d t) (name t) (tick t)) es = Some gs"
      "run_ops P W who A (map (\<lambda>t. Mutate i (d t) (name t) (tick t)) ts) gs = Some fs"
    by (auto simp: bind_eq_Some_conv)
  from g(1) have "gs ! k = es ! k" using assms(2) by (auto simp: do_op_def)
  then show ?case using Cons.IH [OF g(2)] by simp
qed simp

text \<open>A replica that holds everything is copied to the positions of a list.\<close>

lemma replicated:
  assumes "vacant_key (vacant P)" "\<forall>k. iter_ok (A k)" "run_ops P W who A (map (Replicate i) js) es = Some fs"
    and "i < length es" "set js \<subseteq> {..<length es}" "i \<notin> set js"
    and "\<forall>k<length es. dag_ok P (es ! k) \<and> get_by_hash (arena (es ! k)) \<subseteq>\<^sub>m get_by_hash (arena (es ! i))"
  shows "length fs = length es \<and> (\<forall>k<length es. dag_ok P (fs ! k)
    \<and> get_by_hash (arena (fs ! k)) = (if k \<in> set js then get_by_hash (arena (es ! i)) else get_by_hash (arena (es ! k))))"
  using assms(3-7)
proof (induction js arbitrary: es)
  case (Cons j js)
  let ?c = "copy_nodes P (A (length js)) (es ! i) (es ! j)"
  let ?gs = "es[j := ?c]"
  have run: "run_ops P W who A (map (Replicate i) js) ?gs = Some fs" using Cons.prems(1) by (simp add: do_op_def)
  have ij: "j < length es" "j \<noteq> i" using Cons.prems(3,4) by auto
  have ok: "dag_ok P (es ! i)" "dag_ok P (es ! j)" using Cons.prems(2,5) ij by simp_all
  note c = copy_nodes_correct [OF assms(1) assms(2) [rule_format] ok]
  have "get_by_hash (arena (es ! j)) \<subseteq>\<^sub>m get_by_hash (arena (es ! i))" using Cons.prems(5) ij by simp
  then have "get_by_hash (arena (es ! i)) ++ get_by_hash (arena (es ! j)) = get_by_hash (arena (es ! i))"
    by (auto simp: map_le_def map_add_def dom_def fun_eq_iff split: option.split)
  then have l: "get_by_hash (arena ?c) = get_by_hash (arena (es ! i))" using c(2) by simp
  have "\<forall>k<length ?gs. dag_ok P (?gs ! k) \<and> get_by_hash (arena (?gs ! k)) \<subseteq>\<^sub>m get_by_hash (arena (?gs ! i))"
    using Cons.prems(5) c(1) l ij by (simp add: nth_list_update)
  moreover have "i < length ?gs" "set js \<subseteq> {..<length ?gs}" "i \<notin> set js" using Cons.prems(2-4) by auto
  ultimately have IH: "length fs = length ?gs \<and> (\<forall>k<length ?gs. dag_ok P (fs ! k)
      \<and> get_by_hash (arena (fs ! k)) = (if k \<in> set js then get_by_hash (arena (?gs ! i)) else get_by_hash (arena (?gs ! k))))"
    using Cons.IH [OF run] by blast
  then show ?case using l ij by (simp add: nth_list_update)
qed simp

text \<open>
  The benchmark asserts that its baseline agrees, and panics otherwise: after any number of mutations
  of the first replica and its copies into the others the roots are one, and all replicas hold its nodes.
\<close>

theorem baseline_agrees:
  assumes "vacant_key (vacant P)" "\<forall>k. iter_ok (A k)" "conv_ops P W who A (shared_ops m) (new_engines 5) = Some es"
    and "fresh_ops P W who A (shared_ops m) (new_engines 5)"
  shows "fst (fst (check_convergence P es))" "length es = 5"
    and "\<forall>e\<in>set es. dag_ok P e \<and> get_by_hash (arena e) = get_by_hash (arena (es ! 0))"
proof -
  let ?muts = "map (\<lambda>tick. Mutate 0 (''shared-'' @ decimal tick) ''n0'' (tick + 1)) [0..<m]"
  let ?A = "\<lambda>k. A (k + length (map (Replicate 0) [1..<5]))"
  have "run_ops P W who A (?muts @ map (Replicate 0) [1..<5]) (new_engines 5) = Some es"
    using assms(3) by (simp add: conv_ops_eq shared_ops_def)
  then obtain gs where g: "run_ops P W who ?A ?muts (new_engines 5) = Some gs"
      "run_ops P W who A (map (Replicate 0) [1..<5]) gs = Some es"
    unfolding run_ops_append by (auto simp: bind_eq_Some_conv)
  have new: "\<forall>e\<in>set (new_engines 5). dag_ok P e" by (auto simp: new_engines_def engine_new_def)
  have fresh: "fresh_ops P W who ?A ?muts (new_engines 5)"
    using assms(4) fresh_ops_append [of P W who A ?muts "map (Replicate 0) [1..<5]"] by (simp add: shared_ops_def)
  have gs: "length gs = 5" "\<forall>e\<in>set gs. dag_ok P e"
    using run_ops_dag_ok [OF assms(1) _ new _ g(1) fresh] assms(2) by (auto simp: new_engines_def)
  have "get_by_hash (arena (gs ! k)) = Map.empty" if "k < 5" "k \<noteq> 0" for k
    using mutations_local [OF g(1) that(2)] that(1) by (simp add: new_engines_def engine_new_def with_gc_threshold_def)
  then have "get_by_hash (arena (gs ! k)) \<subseteq>\<^sub>m get_by_hash (arena (gs ! 0))" if "k < 5" for k
    using that by (cases "k = 0") simp_all
  then have "\<forall>k<length gs. dag_ok P (gs ! k) \<and> get_by_hash (arena (gs ! k)) \<subseteq>\<^sub>m get_by_hash (arena (gs ! 0))" using gs by simp
  note rep = replicated [OF assms(1,2) g(2) _ _ _ this]
  have "0 < length gs" "set [1..<5] \<subseteq> {..<length gs}" "0 \<notin> set [1..<5]" unfolding gs(1) by auto
  from rep [OF this] have r: "length es = 5 \<and> (\<forall>k<5. dag_ok P (es ! k)
      \<and> get_by_hash (arena (es ! k)) = (if k \<in> set [1..<5] then get_by_hash (arena (gs ! 0)) else get_by_hash (arena (gs ! k))))"
    unfolding gs(1) .
  then have all: "get_by_hash (arena (es ! k)) = get_by_hash (arena (gs ! 0))" if "k < 5" for k
    using that by (cases "k = 0") auto
  show len: "length es = 5" using r by simp
  show "\<forall>e\<in>set es. dag_ok P e \<and> get_by_hash (arena e) = get_by_hash (arena (es ! 0))"
    using r all len by (auto simp: in_set_conv_nth)
  then have "\<forall>e\<in>set es. replica P (get_by_hash (arena (es ! 0))) e \<and> held e = held (es ! 0)"
    using assms(1) by (simp add: replica_def)
  moreover have "es \<noteq> []" using len by auto
  ultimately show "fst (fst (check_convergence P es))" using check_agreed(1) by blast
qed

text \<open>Reading the roots changes no store.\<close>

lemma roots_read:
  assumes "vacant_key (vacant P)" "es \<noteq> []" "\<forall>e\<in>set es. dag_ok P e"
  shows "snd (check_convergence P es) \<noteq> []" "\<forall>e\<in>set (snd (check_convergence P es)). dag_ok P e"
    and "mesh_nodes (snd (check_convergence P es)) = mesh_nodes es" "length (snd (check_convergence P es)) = length es"
proof -
  have hs: "snd (check_convergence P es) = map (\<lambda>e. snd (get_merkle_root P e)) es" by (simp add: check_convergence_def Let_def)
  have root: "dag_ok P (snd (get_merkle_root P e)) \<and> arena (snd (get_merkle_root P e)) = arena e" if "e \<in> set es" for e
    using replica_after_root [of P "get_by_hash (arena e)" e] assms(1,3) that by (simp add: replica_def)
  then show "\<forall>e\<in>set (snd (check_convergence P es)). dag_ok P e" "mesh_nodes (snd (check_convergence P es)) = mesh_nodes es"
    unfolding hs by (simp_all add: mesh_nodes_def)
  show "snd (check_convergence P es) \<noteq> []" "length (snd (check_convergence P es)) = length es" using assms(2) by (simp_all add: hs)
qed

section \<open>The outcomes\<close>

text \<open>Both loops end after their first round, with replicas that agree and hold everything.\<close>

definition everyone_agrees :: "platform \<Rightarrow> MerkleCrdtEngine list \<Rightarrow> MerkleCrdtEngine list \<Rightarrow> bool" where
  "everyone_agrees P es fs \<longleftrightarrow> length fs = length es
     \<and> (\<forall>e\<in>set fs. dag_ok P e \<and> ran (get_by_hash (arena e)) = mesh_nodes es)
     \<and> (\<forall>e\<in>set fs. \<forall>f\<in>set fs. fst (get_merkle_root P e) = fst (get_merkle_root P f))"

lemma checked_agrees:
  assumes "gs \<noteq> []" "length gs = length es" "\<forall>e\<in>set gs. replica P (universe es) e \<and> held e = dom (universe es)"
    and "ran (universe es) = mesh_nodes es"
  shows "everyone_agrees P es (snd (check_convergence P gs))"
proof -
  have "length (snd (check_convergence P gs)) = length es" unfolding check_agreed(2) [OF assms(1,3)] by (rule assms(2))
  then show ?thesis using agreed_result [OF check_agreed(3) [OF assms(1,3)] assms(4)] unfolding everyone_agrees_def by (rule conjI)
qed

theorem conv_loop_converges:
  assumes "vacant_key (vacant P)" "\<forall>r i j. iter_ok (E r i j)" "es \<noteq> []" "\<forall>e\<in>set es. dag_ok P e"
    and "inj_on (compute_hash (blake P)) (mesh_nodes es)" "conv_loop P E 0 0 es = (r, fs)"
  shows "(\<exists>moved. r = CONVERGED 1 moved) \<and> everyone_agrees P es fs"
proof -
  have E: "\<forall>i j. iter_ok (E 1 i j)" using assms(2) by blast
  have sync: "full_sync P = full_push P" by (intro ext) (rule full_sync_eq)
  note g = full_round_agrees [OF assms(1) E assms(3-5) refl]
  note c = check_agreed(1) [OF g(1,3)] checked_agrees [OF g]
  show ?thesis using assms(6) c by (subst (asm) conv_loop.simps) (auto simp: Let_def case_prod_beta sync)
qed

theorem merge_loop_converges:
  assumes "vacant_key (vacant P)" "\<forall>r i j. iter_ok (E r i j)" "es \<noteq> []" "\<forall>e\<in>set es. dag_ok P e"
    and "inj_on (compute_hash (blake P)) (mesh_nodes es)" "merge_loop P E 0 es = (r, fs)"
  shows "(\<exists>moved. r = CONVERGED 1 moved) \<and> everyone_agrees P es fs"
proof -
  have E: "\<forall>i j. iter_ok (E 1 i j)" using assms(2) by blast
  let ?gs = "fst (sync_round (full_push P) (E 1) (all_pairs (length es)) es)"
  let ?hs = "fst (foldl (merge_exchange P (E 1)) (es, 0) (all_pairs (length es)))"
  note g = full_round_agrees [OF assms(1) E assms(3-5) refl]
  note m = merge_round_like [OF assms(1) E assms(4,4) refl all_pairs_bound, of 0 0]
  have same: "map arena ?hs = map arena ?gs" using m by (simp add: sync_round_def)
  then have len: "length ?hs = length ?gs" by (rule map_eq_imp_length_eq)
  have h: "replica P (universe es) e \<and> held e = dom (universe es)" if e: "e \<in> set ?hs" for e
  proof -
    have "arena e \<in> set (map arena ?gs)" using e unfolding same [symmetric] by simp
    then obtain f where "f \<in> set ?gs" "arena e = arena f" by auto
    then show ?thesis using g(3) m e by (simp add: replica_def)
  qed
  have ne: "?hs \<noteq> []" "length ?hs = length es" using len g(1,2) by auto
  note c = check_agreed(1) [OF ne(1)] checked_agrees [OF ne _ g(4)]
  have "\<forall>e\<in>set ?hs. replica P (universe es) e \<and> held e = dom (universe es)" using h by blast
  from c(1) [OF this] c(2) [OF this] show ?thesis
    using assms(6) by (subst (asm) merge_loop.simps) (auto simp: Let_def case_prod_beta)
qed

lemma all_mutate_bounds: "\<forall>op\<in>set (all_mutate prefix n m). op_bound n op"
  by (auto simp: all_mutate_def)

text \<open>The convergence benchmark as a whole never reports that it stalled.\<close>

theorem convergence_benchmark:
  assumes "vacant_key (vacant P)" "\<forall>k. iter_ok (A k)" "\<forall>r i j. iter_ok (E r i j)"
    and "conv_ops P W (new_identities W seeds) A (all_mutate ''conv-'' 5 50) (new_engines 5) = Some es"
    and "fresh_ops P W (new_identities W seeds) A (all_mutate ''conv-'' 5 50) (new_engines 5)"
    and "inj_on (compute_hash (blake P)) (mesh_nodes es)"
  shows "\<exists>moved gs. run_convergence P W seeds A E = Some (CONVERGED 1 moved, gs) \<and> everyone_agrees P es gs"
proof -
  have new: "\<forall>e\<in>set (new_engines 5). dag_ok P e" "length (new_engines 5) = 5" by (auto simp: new_engines_def engine_new_def)
  have es: "length es = 5" "\<forall>e\<in>set es. dag_ok P e"
    using run_ops_dag_ok [OF assms(1,2) new(1) _ assms(4) [unfolded conv_ops_eq] assms(5)] all_mutate_bounds unfolding new(2) by simp_all
  then have "es \<noteq> []" by auto
  note h = roots_read [OF assms(1) this es(2)]
  have inj: "inj_on (compute_hash (blake P)) (mesh_nodes (snd (check_convergence P es)))" unfolding h(3) by (rule assms(6))
  obtain r gs where m: "conv_loop P E 0 0 (snd (check_convergence P es)) = (r, gs)" by fastforce
  note res = conv_loop_converges [OF assms(1,3) h(1,2) inj m]
  obtain moved where r: "r = CONVERGED 1 moved" using conjunct1 [OF res] by (rule exE)
  have "everyone_agrees P es gs" using conjunct2 [OF res] unfolding everyone_agrees_def h(3,4) .
  moreover have "run_convergence P W seeds A E = Some (CONVERGED 1 moved, gs)"
    unfolding r [symmetric] run_convergence_def assms(4) option.map m by (rule refl)
  ultimately show ?thesis by (intro exI conjI)
qed

text \<open>
  The partition benchmark as a whole: when its mutations are fresh, no two nodes collide and every
  mutation is signed, it does not panic, and reports a merge after one round in which all replicas
  got the nodes of both groups.
\<close>

lemma split_bounds: "\<forall>op\<in>set (split_ops m). op_bound 5 op"
  by (auto simp: split_ops_def)

theorem merge_benchmark:
  assumes "vacant_key (vacant P)" "\<forall>k. iter_ok (A k) \<and> iter_ok (A' k)" "\<forall>r i j. iter_ok (E r i j)"
    and "conv_ops P W (new_identities W seeds) A (shared_ops 10) (new_engines 5) = Some es"
    and "fresh_ops P W (new_identities W seeds) A (shared_ops 10) (new_engines 5)"
    and "conv_ops P W (new_identities W seeds) A' (split_ops 30) (snd (check_convergence P es)) = Some fs"
    and "fresh_ops P W (new_identities W seeds) A' (split_ops 30) (snd (check_convergence P es))"
    and "inj_on (compute_hash (blake P)) (mesh_nodes fs)"
  shows "\<exists>moved gs. run_merge P W seeds A A' E = Some (CONVERGED 1 moved, gs) \<and> everyone_agrees P fs gs"
proof -
  have A: "\<forall>k. iter_ok (A k)" "\<forall>k. iter_ok (A' k)" using assms(2) by blast+
  note b = baseline_agrees [OF assms(1) A(1) assms(4,5)]
  have rep: "\<forall>e\<in>set es. replica P (get_by_hash (arena (es ! 0))) e \<and> held e = held (es ! 0)"
    using b(3) assms(1) by (simp add: replica_def)
  have "es \<noteq> []" using b(2) by auto
  note c = check_agreed [OF this rep]
  have es: "\<forall>e\<in>set (snd (check_convergence P es)). dag_ok P e" "length (snd (check_convergence P es)) = 5"
    using c(2,3) b(2) by (simp_all add: replica_def)
  have run: "run_ops P W (new_identities W seeds) A' (split_ops 30) (snd (check_convergence P es)) = Some fs"
    using assms(6) unfolding conv_ops_eq .
  have fs: "length fs = 5" "\<forall>e\<in>set fs. dag_ok P e"
    using run_ops_dag_ok [OF assms(1) A(2) es(1) _ run assms(7)] split_bounds unfolding es(2) by simp_all
  obtain k v where cc: "check_convergence P es = ((True, k), v)" using c(1) by (metis prod.collapse)
  let ?hs = "snd (check_convergence P fs)"
  have "fs \<noteq> []" using fs(1) by auto
  note h = roots_read [OF assms(1) this fs(2)]
  have inj: "inj_on (compute_hash (blake P)) (mesh_nodes ?hs)" unfolding h(3) by (rule assms(8))
  obtain r gs where m: "merge_loop P E 0 ?hs = (r, gs)" by fastforce
  note res = merge_loop_converges [OF assms(1,3) h(1,2) inj m]
  obtain moved where r: "r = CONVERGED 1 moved" using conjunct1 [OF res] by (rule exE)
  have "everyone_agrees P fs gs" using conjunct2 [OF res] unfolding everyone_agrees_def h(3,4) .
  moreover have "run_merge P W seeds A A' E = Some (CONVERGED 1 moved, gs)" unfolding r [symmetric]
    unfolding run_merge_def assms(4) option.case cc prod.case not_True_eq_False if_False assms(6) [unfolded cc snd_conv] option.map m
    by (rule refl)
  ultimately show ?thesis by (intro exI conjI)
qed

end
