(* ===== verification/Belief_Scale.thy ===== *)
theory Belief_Scale
  imports Revocation
begin

text \<open>
  The inputs of the scalability benchmark (\<open>aimp_node/examples/bench_belief_scale.rs\<close>): claims of as many
  authors, a tracker in which one anchor delegates to all of them, and the base trust and the
  propagation that are timed, and the graphs with their cycles.
\<close>

section \<open>The code\<close>

definition scale_claim :: "blake3 \<Rightarrow> u32 \<Rightarrow> Claim" where
  "scale_claim B i =
     (let fp = \<lparr>fp_primary = take 16 (B (le_bytes32 i)), fp_secondary = ucast i\<rparr>
      in \<lparr>claim_id = B (fp_primary fp @ le_bytes64 (ucast i)), fingerprint = fp,
          claim_origin = le_bytes32 i @ replicate 28 0, kind = Observation 1 (le_bytes32 i), confidence = lo_new 2000,
          evidence_source = le_bytes32 i @ replicate 28 0, claim_tick = ucast i, correlation_cell = None,
          embedding = None, embedding_version = 0\<rparr>)"

definition setup_tracker :: "Claim list \<Rightarrow> InMemoryReputationTracker" where
  "setup_tracker claims =
     (let t = tracker_new;
          t = update_reputation t mesh_anchor ClaimConfirmed;
          t = update_reputation t mesh_anchor ClaimConfirmed;
          t = update_reputation t mesh_anchor ClaimConfirmed
      in foldl (\<lambda>t c. delegate t mesh_anchor (claim_origin c) (from_bps 5000)) t claims)"

definition scale_base_trust :: "Claim list \<Rightarrow> InMemoryReputationTracker \<Rightarrow> trust_map" where
  "scale_base_trust claims t =
     foldl (\<lambda>bt (i, c). AList.update (of_nat i) (weight_evidence (reputation t (claim_origin c)) (confidence c)) bt) []
       (enumerate 0 claims)"

definition timed_propagation ::
  "blake3 \<Rightarrow> KnowledgeGraph \<Rightarrow> Claim list \<Rightarrow> InMemoryReputationTracker \<Rightarrow> trust_map option" where
  "timed_propagation B g claims t = propagate_trust_full B g (scale_base_trust claims t) 5 5000 claims (reputation t)"

definition timed_belief ::
  "blake3 \<Rightarrow> KnowledgeGraph \<Rightarrow> Claim list \<Rightarrow> InMemoryReputationTracker \<Rightarrow> BeliefState option" where
  "timed_belief B g claims t = compute_beliefs B default_engine claims g (reputation t)"

text \<open>The claims and graphs that \<open>main\<close> builds: a chain, all pairs, a ring, and a chain with contradictions.\<close>

definition below :: "u32 \<Rightarrow> u32 list" where
  "below n = map of_nat [0..<unat n]"

definition scale_claims :: "blake3 \<Rightarrow> u32 \<Rightarrow> Claim list" where
  "scale_claims B n = map (scale_claim B) (below n)"

definition from_one :: "u32 \<Rightarrow> u32 list" where
  "from_one n = map of_nat [1..<unat n]"

definition sparse_graph :: "u32 \<Rightarrow> KnowledgeGraph" where
  "sparse_graph n =
     foldl (\<lambda>g i. add_edge g \<lparr>edge_from = i - 1, edge_to = i, relation = Supports, strength = from_bps 8000\<rparr>) kg_new
       (from_one n)"

definition dense_graph :: "u32 \<Rightarrow> KnowledgeGraph" where
  "dense_graph n =
     foldl (\<lambda>g i. foldl (\<lambda>g j. add_edge g
         \<lparr>edge_from = j, edge_to = i, relation = Supports, strength = from_bps 7000\<rparr>) g (below i)) kg_new (below n)"

definition ring_graph :: "u32 \<Rightarrow> KnowledgeGraph" where
  "ring_graph n =
     foldl (\<lambda>g i. add_edge g
       \<lparr>edge_from = i, edge_to = (i + 1) mod n, relation = Supports, strength = from_bps 8000\<rparr>) kg_new (below n)"

definition mixed_graph :: "u32 \<Rightarrow> KnowledgeGraph" where
  "mixed_graph n =
     foldl (\<lambda>g i. add_edge g
       \<lparr>edge_from = i - 1, edge_to = i, relation = (if i mod 7 = 0 then Contradicts else Supports),
        strength = from_bps 8000\<rparr>) kg_new (from_one n)"

section \<open>Delegations\<close>

text \<open>A delegation costs the anchor half of what it grants, and never all it has.\<close>

lemma delegation_costs:
  assumes "bps (reputation t x) \<le> 10000" "0 < bps (reputation t x)" "y \<noteq> x" "bps r \<le> 10000"
  shows "unat (bps (reputation (delegate t x y r) x)) =
      unat (bps (reputation t x)) - min (unat (bps r)) (unat (bps (reputation t x))) div 2"
    and "unat (bps (reputation (delegate t x y r) y)) = min (unat (bps r)) (unat (bps (reputation t x)))"
proof -
  let ?b = "bps (reputation t x)"
  let ?c = "min (min (bps r) ?b) 10000"
  have b: "unat ?b \<le> 10000" "0 < unat ?b" using assms(1,2) by (simp_all add: word_le_nat_alt word_less_nat_alt)
  have r: "unat (bps r) \<le> 10000" using assms(4) by (simp add: word_le_nat_alt)
  have c: "unat ?c = min (unat (bps r)) (unat ?b)" "unat (?c div 2) = min (unat (bps r)) (unat ?b) div 2"
    using b r by (auto simp: min_def word_le_nat_alt unat_div)
  have t: "reputation (delegate t x y r) x = from_bps (usub_sat ?b (?c div 2))" "reputation (delegate t x y r) y = from_bps (min (bps r) ?b)"
    using assms(2,3) by (simp_all add: reputation_delegate Let_def bps_from_bps)
  have "min (unat (bps r)) (unat ?b) div 2 \<le> unat ?b" by linarith
  then have le: "?c div 2 \<le> ?b" unfolding word_le_nat_alt c(2) .
  then have "unat (usub_sat ?b (?c div 2)) = unat ?b - unat (?c div 2)"
    by (simp add: usub_sat_def unat_sub not_less [symmetric])
  moreover from this have "usub_sat ?b (?c div 2) \<le> 10000" using b by (simp add: word_le_nat_alt)
  ultimately show "unat (bps (reputation (delegate t x y r) x)) = unat ?b - min (unat (bps r)) (unat ?b) div 2"
    unfolding t(1) bps_from_bps c(2) by (simp add: min_def)
  show "unat (bps (reputation (delegate t x y r) y)) = min (unat (bps r)) (unat ?b)"
    using c(1) unfolding t(2) bps_from_bps .
qed

text \<open>The halving, in terms of what exceeds one basis point.\<close>

lemma halved_excess:
  fixes b :: nat
  assumes "b \<le> 1 + m div 2 ^ k" "0 < b"
  shows "b - b div 2 \<le> 1 + m div 2 ^ Suc k" "0 < b - b div 2"
proof -
  have "b - b div 2 \<le> 1 + (b - 1) div 2" using assms(2) by linarith
  also have "\<dots> \<le> 1 + m div 2 ^ k div 2" using assms(1) by (intro add_left_mono div_le_mono) simp
  also have "\<dots> = 1 + m div 2 ^ Suc k" unfolding power_Suc2 div_mult2_eq by (rule refl)
  finally show "b - b div 2 \<le> 1 + m div 2 ^ Suc k" .
  show "0 < b - b div 2" using assms(2) by linarith
qed

lemma anchor_three_events:
  "bps (reputation (setup_tracker []) mesh_anchor) = 600"
  by (simp add: setup_tracker_def update_reputation_def reputation_def tracker_new_def event_score_def u16_sat_add_def
      rep_ZERO_def from_bps_def)

lemma setup_tracker_snoc:
  "setup_tracker (claims @ [c]) = delegate (setup_tracker claims) mesh_anchor (claim_origin c) (from_bps 5000)"
  by (simp add: setup_tracker_def Let_def)

lemma setup_anchor:
  assumes "\<forall>c\<in>set claims. claim_origin c \<noteq> mesh_anchor"
  shows "0 < unat (bps (reputation (setup_tracker claims) mesh_anchor))
    \<and> unat (bps (reputation (setup_tracker claims) mesh_anchor)) \<le> 1 + 599 div 2 ^ length claims"
  using assms
proof (induction claims rule: rev_induct)
  case Nil
  show ?case unfolding anchor_three_events by simp
next
  case (snoc c claims)
  let ?b = "bps (reputation (setup_tracker claims) mesh_anchor)"
  have IH: "0 < unat ?b" "unat ?b \<le> 1 + 599 div 2 ^ length claims" using snoc by simp_all
  then have "unat ?b \<le> 600" using div_le_dividend [of 599 "2 ^ length claims"] by linarith
  then have b: "?b \<le> 10000" "0 < ?b" "min 5000 (unat ?b) = unat ?b" using IH(1) by (simp_all add: word_le_nat_alt word_less_nat_alt)
  have five: "bps (from_bps 5000) \<le> 10000" "unat (bps (from_bps 5000)) = 5000" by (simp_all add: bps_from_bps)
  have ne: "claim_origin c \<noteq> mesh_anchor" using snoc.prems by simp
  have "unat (bps (reputation (setup_tracker (claims @ [c])) mesh_anchor)) = unat ?b - unat ?b div 2"
    unfolding setup_tracker_snoc delegation_costs(1) [OF b(1,2) ne five(1)] five(2) b(3) by (rule refl)
  then show ?case using halved_excess [OF IH(2,1)] by simp
qed

text \<open>What an author has is what the anchor had before.\<close>

lemma setup_author:
  assumes "\<forall>c\<in>set claims. claim_origin c \<noteq> mesh_anchor" "distinct (map claim_origin claims)" "k < length claims"
  shows "unat (bps (reputation (setup_tracker claims) (claim_origin (claims ! k)))) \<le> 1 + 599 div 2 ^ k"
  using assms
proof (induction claims rule: rev_induct)
  case (snoc c claims)
  let ?t = "setup_tracker claims"
  have a: "0 < unat (bps (reputation ?t mesh_anchor))" "unat (bps (reputation ?t mesh_anchor)) \<le> 1 + 599 div 2 ^ length claims"
    using setup_anchor [of claims] snoc.prems(1) by simp_all
  then have "unat (bps (reputation ?t mesh_anchor)) \<le> 600" using div_le_dividend [of 599 "2 ^ length claims"] by linarith
  then have b: "bps (reputation ?t mesh_anchor) \<le> 10000" "0 < bps (reputation ?t mesh_anchor)"
    using a(1) by (simp_all add: word_le_nat_alt word_less_nat_alt)
  have ne: "claim_origin c \<noteq> mesh_anchor" using snoc.prems(1) by simp
  show ?case
  proof (cases "k = length claims")
    case True
    have "bps (from_bps 5000) \<le> 10000" by (simp add: bps_from_bps)
    from delegation_costs(2) [OF b ne this] show ?thesis using a(2) True by (simp add: setup_tracker_snoc)
  next
    case False
    then have k: "k < length claims" using snoc.prems(3) by simp
    then have "claims ! k \<in> set claims" by (rule nth_mem)
    then have "claim_origin (claims ! k) \<noteq> claim_origin c" "claim_origin (claims ! k) \<noteq> mesh_anchor"
      using snoc.prems(1,2) by (auto simp del: image_eqI) (metis image_eqI)
    then have "reputation (setup_tracker (claims @ [c])) (claim_origin (claims ! k)) = reputation ?t (claim_origin (claims ! k))"
      unfolding setup_tracker_snoc by (intro delegate_other) simp_all
    then show ?thesis using snoc.IH snoc.prems k by (simp add: nth_append)
  qed
qed simp

lemma scale_base_lookup:
  assumes "length claims \<le> 4294967296"
  shows "map_of (scale_base_trust claims t) k =
    (if unat k < length claims
     then Some (weight_evidence (reputation t (claim_origin (claims ! unat k))) (confidence (claims ! unat k))) else None)"
  using assms
proof (induction claims rule: rev_induct)
  case Nil
  then show ?case by (simp add: scale_base_trust_def)
next
  case (snoc c claims)
  have u: "unat (of_nat (length claims) :: u32) = length claims" using snoc.prems by (simp add: unat_of_nat)
  have "scale_base_trust (claims @ [c]) t =
      AList.update (of_nat (length claims)) (weight_evidence (reputation t (claim_origin c)) (confidence c)) (scale_base_trust claims t)"
    by (simp add: scale_base_trust_def enumerate_append_eq)
  moreover have "k = of_nat (length claims) \<longleftrightarrow> unat k = length claims" using u by (metis unat_inject)
  ultimately show ?case using snoc by (auto simp: update_conv nth_append)
qed

lemma weightless_below:
  assumes "uint (bps r) \<le> 3"
  shows "weight_evidence r (lo_new 2000) = NEUTRAL"
proof -
  have "0 \<le> uint (bps r)" by simp
  then have "uint (bps r) = 0 \<or> uint (bps r) = 1 \<or> uint (bps r) = 2 \<or> uint (bps r) = 3" using assms by linarith
  then have "lo_val (weight_evidence r (lo_new 2000)) = 0"
    by (auto simp: weight_evidence_val signed_divide_int_def clampi_def i32_min_def i32_max_def)
  then show ?thesis by (simp add: lo_val_inject [symmetric])
qed

section \<open>The graphs\<close>

text \<open>A loop that adds the edge of each index, and the nested one.\<close>

lemma grow_edges:
  assumes "kg_valid g"
  shows "kg_valid (foldl (\<lambda>g i. add_edge g (mk i)) g is) \<and> kg_edges (foldl (\<lambda>g i. add_edge g (mk i)) g is) = kg_edges g @ map mk is"
  using assms by (induction "is" rule: rev_induct) (simp_all add: kg.ok_add kg.edges_add)

lemma grow_rows:
  "kg_valid (foldl (\<lambda>g i. foldl (\<lambda>g j. add_edge g (mk i j)) g (row i)) kg_new is)
   \<and> kg_edges (foldl (\<lambda>g i. foldl (\<lambda>g j. add_edge g (mk i j)) g (row i)) kg_new is) = concat (map (\<lambda>i. map (mk i) (row i)) is)"
  by (induction "is" rule: rev_induct) (simp_all add: grow_edges kg.ok_empty kg.edges_empty)

lemma sparse_graph: "kg_valid (sparse_graph n)"
    "kg_edges (sparse_graph n) = map (\<lambda>i. \<lparr>edge_from = i - 1, edge_to = i, relation = Supports, strength = from_bps 8000\<rparr>) (from_one n)"
  unfolding sparse_graph_def by (simp_all add: grow_edges kg.ok_empty kg.edges_empty)

lemma dense_graph: "kg_valid (dense_graph n)"
    "kg_edges (dense_graph n) = concat (map (\<lambda>i. map (\<lambda>j.
       \<lparr>edge_from = j, edge_to = i, relation = Supports, strength = from_bps 7000\<rparr>) (below i)) (below n))"
  unfolding dense_graph_def by (simp_all add: grow_rows)

lemma ring_graph: "kg_valid (ring_graph n)"
    "kg_edges (ring_graph n) = map (\<lambda>i. \<lparr>edge_from = i, edge_to = (i + 1) mod n, relation = Supports, strength = from_bps 8000\<rparr>) (below n)"
  unfolding ring_graph_def by (simp_all add: grow_edges kg.ok_empty kg.edges_empty)

lemma mixed_graph: "kg_valid (mixed_graph n)"
    "kg_edges (mixed_graph n) = map (\<lambda>i. \<lparr>edge_from = i - 1, edge_to = i,
       relation = (if i mod 7 = 0 then Contradicts else Supports), strength = from_bps 8000\<rparr>) (from_one n)"
  unfolding mixed_graph_def by (simp_all add: grow_edges kg.ok_empty kg.edges_empty)

lemma unat_of_nat_below:
  fixes n :: u32
  assumes "k < unat n"
  shows "unat (of_nat k :: u32) = k"
proof -
  have "k < 2 ^ LENGTH(32)" using assms unsigned_less [where 'b = 32, of n] by (rule order.strict_trans)
  then show ?thesis by (simp add: unat_of_nat)
qed

lemma in_below: "i \<in> set (below n) \<longleftrightarrow> i < n"
proof
  assume "i \<in> set (below n)"
  then obtain k where "k < unat n" "i = of_nat k" by (auto simp: below_def)
  then show "i < n" by (simp add: word_less_nat_alt unat_of_nat_below)
next
  assume "i < n"
  then have "unat i \<in> {0..<unat n}" by (simp add: word_less_nat_alt)
  then have "of_nat (unat i) \<in> (of_nat :: nat \<Rightarrow> u32) ` {0..<unat n}" by (rule imageI)
  then show "i \<in> set (below n)" by (simp add: below_def)
qed

lemma in_from_one:
  assumes "i \<in> set (from_one n)"
  shows "i - 1 < i" "i < n"
proof -
  obtain k where k: "1 \<le> k" "k < unat n" "i = of_nat k" using assms by (auto simp: from_one_def)
  then have u: "unat i = k" by (simp add: unat_of_nat_below)
  then show "i < n" using k by (simp add: word_less_nat_alt)
  have "i \<noteq> 0" using u k(1) by auto
  then show "i - 1 < i" by (simp add: measure_unat word_less_nat_alt)
qed

text \<open>Edges that lead upwards make no cycle.\<close>

lemma upward_acyclic:
  assumes "\<forall>e\<in>set es. supportive e \<longrightarrow> edge_from e < edge_to e"
  shows "acyclic (support_rel es)"
proof -
  have "support_rel es \<subseteq> {(x, y). x < y}" using assms by (auto simp: support_rel_def)
  moreover have "acyclic {(x, y). x < (y :: u32)}"
    by (rule acyclicI_order [where f = "\<lambda>x. - uint x"]) (simp add: word_less_def)
  ultimately show ?thesis by (rule acyclic_subset [rotated])
qed

lemma ring_edge: "i < n \<Longrightarrow> (i, (i + 1) mod n) \<in> support_rel (kg_edges (ring_graph n))"
  unfolding support_rel_def ring_graph(2) by (force simp: in_below supportive_def)

lemma ring_reaches: "k < unat n \<Longrightarrow> (0, of_nat k) \<in> (support_rel (kg_edges (ring_graph n)))\<^sup>*"
proof (induction k)
  case (Suc k)
  then have k: "k < unat n" by simp
  have "(of_nat k :: u32) < n" using k by (simp add: word_less_nat_alt unat_of_nat_below)
  moreover have "(of_nat k + 1) mod n = (of_nat (Suc k) :: u32)"
  proof -
    have u: "unat (of_nat (Suc k) :: u32) = Suc k" using Suc.prems by (rule unat_of_nat_below)
    then have "unat (of_nat (Suc k) mod n) = unat (of_nat (Suc k) :: u32)" unfolding unat_mod u using Suc.prems by simp
    then show ?thesis unfolding word_unat_eq_iff by (simp add: add.commute)
  qed
  ultimately have "(of_nat k, of_nat (Suc k)) \<in> support_rel (kg_edges (ring_graph n))"
    using ring_edge by metis
  with Suc.IH [OF k] show ?case by (rule rtrancl_into_rtrancl)
qed simp

lemma weightless_after_eight:
  assumes "\<forall>c\<in>set claims. claim_origin c \<noteq> mesh_anchor \<and> confidence c = lo_new 2000" "distinct (map claim_origin claims)"
    and "length claims \<le> 4294967296" "8 \<le> k" "k < length claims"
  shows "trust_of (scale_base_trust claims (setup_tracker claims)) (of_nat k) = NEUTRAL"
proof -
  let ?r = "reputation (setup_tracker claims) (claim_origin (claims ! k))"
  have u: "unat (of_nat k :: u32) = k" using assms(3,5) by (simp add: unat_of_nat)
  have "unat (bps ?r) \<le> 1 + 599 div 2 ^ k" by (rule setup_author) (use assms in simp_all)
  moreover have "(599 :: nat) div 2 ^ k \<le> 2"
  proof -
    have "(2 :: nat) ^ 8 \<le> 2 ^ k" by (rule power_increasing [OF assms(4)]) simp
    then have "(599 :: nat) div 2 ^ k \<le> 599 div 2 ^ 8" by (rule div_le_mono2 [rotated]) simp
    also have "(599 :: nat) div 2 ^ 8 = 2" by simp
    finally show ?thesis .
  qed
  ultimately have "unat (bps ?r) \<le> 3" by linarith
  then have "uint (bps ?r) \<le> 3" unfolding uint_nat by linarith
  from weightless_below [OF this] have "weight_evidence ?r (lo_new 2000) = NEUTRAL" .
  then have "weight_evidence ?r (confidence (claims ! k)) = NEUTRAL" using assms(1) nth_mem [OF assms(5)] by simp
  then show ?thesis unfolding trust_of_def scale_base_lookup [OF assms(3)] u using assms(5) by simp
qed

lemma le_bytes32_inject: "le_bytes32 a = le_bytes32 b \<longleftrightarrow> a = b"
proof
  assume "le_bytes32 a = le_bytes32 b"
  then have byte: "i < 4 \<Longrightarrow> (ucast (drop_bit (8 * i) a) :: u8) = ucast (drop_bit (8 * i) b)" for i
    by (simp add: le_bytes32_def)
  show "a = b"
  proof (rule bit_word_eqI)
    fix n assume "n < LENGTH(32)"
    then have "n div 8 < 4" by simp
    from arg_cong [OF byte [OF this], of "\<lambda>w. bit w (n mod 8)"] show "bit a n = bit b n"
      by (simp add: bit_unsigned_iff bit_drop_bit_eq)
  qed
qed simp

lemma scale_claims_origins:
  "\<forall>c\<in>set (scale_claims B n). claim_origin c \<noteq> mesh_anchor \<and> confidence c = lo_new 2000"
  "distinct (map claim_origin (scale_claims B n))" "length (scale_claims B n) = unat n"
proof -
  have "le_bytes32 i @ replicate 28 0 \<noteq> mesh_anchor" for i
  proof
    assume "le_bytes32 i @ replicate 28 0 = mesh_anchor"
    then have "last (le_bytes32 i @ replicate 28 0) = last mesh_anchor" by simp
    then show False by (simp add: mesh_anchor_def)
  qed
  then show "\<forall>c\<in>set (scale_claims B n). claim_origin c \<noteq> mesh_anchor \<and> confidence c = lo_new 2000"
    by (auto simp: scale_claims_def scale_claim_def Let_def)
  have "inj_on (\<lambda>k. claim_origin (scale_claim B (of_nat k))) {0..<unat n}"
  proof (rule inj_onI)
    fix x y assume xy: "x \<in> {0..<unat n}" "y \<in> {0..<unat n}"
      and "claim_origin (scale_claim B (of_nat x)) = claim_origin (scale_claim B (of_nat y))"
    then have "(of_nat x :: u32) = of_nat y" by (simp add: scale_claim_def Let_def le_bytes32_inject)
    from arg_cong [OF this, of unat] show "x = y" using xy by (simp add: unat_of_nat_below)
  qed
  then show "distinct (map claim_origin (scale_claims B n))"
    by (simp add: scale_claims_def below_def distinct_map comp_def)
  show "length (scale_claims B n) = unat n" by (simp add: scale_claims_def below_def)
qed

text \<open>
  The benchmark scales what carries no weight: of any number of claims only the first eight start
  with trust, because each delegation halves what the anchor has left of its 600 basis points.
\<close>

theorem scale_claims_weightless:
  assumes "8 \<le> k" "k < n"
  shows "trust_of (scale_base_trust (scale_claims B n) (setup_tracker (scale_claims B n))) k = NEUTRAL"
proof -
  note c = scale_claims_origins [of B n]
  have "unat n \<le> 4294967296" using unsigned_less [where 'b = 32 and 'a = nat, of n] by simp
  then have "trust_of (scale_base_trust (scale_claims B n) (setup_tracker (scale_claims B n))) (of_nat (unat k)) = NEUTRAL"
    using assms by (intro weightless_after_eight [OF c(1,2)]) (simp_all add: c(3) word_le_nat_alt word_less_nat_alt)
  then show ?thesis by simp
qed

text \<open>
  The graphs are what their labels say. The sparse, dense and mixed ones have no cycle, so their
  propagation suppresses no edge; the ring of any size has one, and both searches see it.
\<close>

theorem scale_graphs_cycles:
  "cyclic_edge_indices (sparse_graph n) = {}" "cyclic_edge_indices (dense_graph n) = {}"
  "cyclic_edge_indices (mixed_graph n) = {}" "cyclic_edge_indices (ring_graph n) = {} \<longleftrightarrow> n = 0"
proof -
  show "cyclic_edge_indices (sparse_graph n) = {}"
    unfolding cyclic_empty_iff [OF sparse_graph(1)]
    by (rule upward_acyclic) (auto simp: sparse_graph(2) dest: in_from_one)
  show "cyclic_edge_indices (dense_graph n) = {}"
    unfolding cyclic_empty_iff [OF dense_graph(1)]
    by (rule upward_acyclic) (auto simp: dense_graph(2) in_below)
  show "cyclic_edge_indices (mixed_graph n) = {}"
    unfolding cyclic_empty_iff [OF mixed_graph(1)]
    by (rule upward_acyclic) (auto simp: mixed_graph(2) dest: in_from_one)
  have "\<not> acyclic (support_rel (kg_edges (ring_graph n)))" if n: "n \<noteq> 0"
  proof -
    let ?l = "of_nat (unat n - 1) :: u32"
    have u: "unat n - 1 < unat n" using n by (simp add: unat_gt_0)
    have l: "?l = n - 1" unfolding unat_minus_one [OF n, symmetric] by simp
    have "(?l, 0) \<in> support_rel (kg_edges (ring_graph n))"
      using ring_edge [of "n - 1" n] measure_unat [OF n] unfolding l by (simp add: word_less_nat_alt)
    with ring_reaches [OF u] have "(0, 0) \<in> (support_rel (kg_edges (ring_graph n)))\<^sup>+" by (rule rtrancl_into_trancl1)
    then show ?thesis by (auto simp: acyclic_def)
  qed
  moreover have "kg_edges (ring_graph 0) = []" by (simp add: ring_graph(2) below_def)
  ultimately show "cyclic_edge_indices (ring_graph n) = {} \<longleftrightarrow> n = 0"
    unfolding cyclic_empty_iff [OF ring_graph(1)] by (cases "n = 0") (simp_all add: support_rel_def acyclic_def)
qed

end
