(* ===== verification/Spec2Isabelle.thy ===== *)
theory Spec2Isabelle
  imports Topology Node_Tasks Node_Shell Ring_Identity Mesh_Scenarios Convergence Belief_Scale
begin

text \<open>
  AIMP, the AI mesh protocol: a node of a peer-to-peer mesh that replicates a Merkle DAG of signed
  mutations (\<open>aimp_node/src/crdt\<close>), talks to its peers over UDP (\<open>protocol\<close>, \<open>crypto\<close>, \<open>network\<close>),
  decides prompts by rules (\<open>decision_engine.rs\<close>, \<open>main.rs\<close>), and the epistemic layer that turns
  claims about the world into beliefs (\<open>epistemic.rs\<close>, \<open>semantic_topology.rs\<close>). All paths below are
  relative to \<open>src/aimp_node/src\<close>, those of examples to \<open>src/aimp_node\<close>.

  \<^bold>\<open>The epistemic layer\<close> (\<open>epistemic.rs\<close> unless said otherwise). \<open>Log_Odds\<close> has the confidence type
  \<open>LogOdds\<close> (a 32-bit integer with its tables and clamps), intervals, basis points, reputation and
  the discount of correlated evidence; \<open>Aggregation\<close> the two aggregations, flat by cell and
  hierarchical by assessed group and content; \<open>Embedding\<close> the quantized embeddings
  (\<open>semantic_topology.rs\<close>); \<open>Claims\<close> the claim with its cells; \<open>Union_Find\<close> and \<open>Correlation\<close> the
  grouping of claims, whose reference is the connectivity of the similarity graph;
  \<open>Reputation_Tracking\<close> the reputation tracker, with the trait as a locale; \<open>Knowledge_Graph\<close> the
  graph arena with endpoint resolution; \<open>Cycles\<close> both depth-first searches; \<open>Trust\<close> the three passes
  of trust propagation and its entry points; \<open>Reducer\<close> the reducers; \<open>Belief\<close> the belief states and
  the two resolvers; \<open>Topology\<close> the edges generated from embeddings (\<open>semantic_topology.rs\<close>). A
  propagation round reads the previous values and writes new ones, so the model computes the new
  table from the old one; hash maps whose order the code does not use are functions or lists in key
  order.

  \<^bold>\<open>The replication layer\<close>. \<open>Node_Config\<close> has the configuration, the error types and the events
  (\<open>config.rs\<close>, \<open>error.rs\<close>, \<open>event.rs\<close>); \<open>Dag_Node\<close> the node and the bytes its hash covers and
  \<open>Merkle_Engine\<close> the engine and the epochs (\<open>crdt/merkle_dag.rs\<close>, \<open>crdt/gc.rs\<close>); \<open>Arena\<close> the slab with
  its hash index (\<open>crdt/arena.rs\<close>), an instance of the locale \<open>node_store\<close>; \<open>Store\<close> the encrypted
  table on disk (\<open>crdt/store.rs\<close>); \<open>Quorum\<close> votes and equivocation (\<open>crdt/consensus.rs\<close>), an instance
  of the locale \<open>vote_book\<close>; \<open>Actor\<close> the actor that owns them (\<open>crdt/actor.rs\<close>), one handler per
  message, and its recovery at the start.

  \<^bold>\<open>The network and the node\<close>. \<open>Protocol\<close> has messages, payloads, the parser and the identities
  (\<open>protocol/envelope.rs\<close>, \<open>protocol/de_ser.rs\<close>, \<open>crypto/identity.rs\<close>, \<open>crypto/verifier.rs\<close>), and
  \<open>Ring_Identity\<close> the other signature backend (feature \<open>fast-crypto\<close>); \<open>Sessions\<close> the table of Noise
  sessions (\<open>network/security.rs\<close>); \<open>Gossip\<close> the duplicate filter, the token buckets, the circuit
  breaker, the listener and the broadcast (\<open>network/mod.rs\<close>); \<open>Decision\<close> the rule engine and the hot
  reload (\<open>decision_engine.rs\<close>); \<open>Node\<close> the start and the handlers of delivered envelopes
  (\<open>main.rs\<close>), which call the actor, the dispatcher and the identity, each run to its end;
  \<open>Node_Tasks\<close> the same handlers as tasks that are cut at every access to shared state, and the
  node that steps them in any order; \<open>Node_Shell\<close> the start with its configuration, panics and waits,
  the health endpoint and the dashboard (\<open>main.rs\<close>, \<open>dashboard/mod.rs\<close>). \<open>Prelude\<close> holds the
  collections of facts, the word lemmas and the ordered maps that all share.

  \<^bold>\<open>Meshes\<close>: the simulations in \<open>examples\<close>, which put the library's parts together. \<open>Mesh_Sync\<close> has the
  exchanges of nodes between replicas and their rounds (\<open>bench_delta_sync.rs\<close>, \<open>bench_netem.rs\<close>) over
  the locale \<open>push_mesh\<close>, whose instances are the transfer of a store and the delta; \<open>Batch_Signing\<close>
  the batch signer with its Merkle proofs (\<open>bench_batch_signing.rs\<close>); \<open>Mesh_Scenarios\<close> the histories
  of the network benchmark, its partition, and replicas signed in batches; \<open>Convergence\<close> the loops of
  \<open>bench_convergence.rs\<close>; \<open>Revocation\<close> credentials as claims (\<open>bench_revocation.rs\<close>); \<open>L3_Mesh\<close> nodes
  of both layers (\<open>bench_l3_netem.rs\<close>); \<open>Belief_Scale\<close> the inputs of \<open>bench_belief_scale.rs\<close>.

  \<^bold>\<open>What the lemmas show\<close>. The grouping and the duplicate filter refine abstract specifications, the
  hot reload refines the sequence of valid files, the arena refines a map from hashes to nodes.
  Aggregation, reduction and edge generation do not depend on the order of their input; confidence,
  reputation and the effect of contradictions are bounded; identities without reputation gain no
  weight. Runs of the actor keep the invariant \<open>dag_ok\<close> (content addressing, heads equal to the
  frontier, a correct cached root), merging converges, pruning keeps and deltas deliver every node that
  no path from a head reaches beyond the history depth, a store that was written without errors is
  read back, votes decide each prompt once, and equivocation is detected exactly. Trust is divided over
  the edges that leave a claim, and propagation ends at a fixed point within as many iterations as the
  longest path without cycle-closing edges has edges.
  Messages survive encoding, signing and parsing, by either backend; the rate limiter is bounded and
  starves nobody. \<open>process\<close> is the task that no other interrupts; whatever the interleaving the actor
  is in the state of a sequential run and every tick is given once. A round of exchanges between all
  pairs makes a mesh agree (with deltas, when parents are held and no path exceeds the history depth),
  loss only delays it, equal roots mean equal stores, and the runs of the benchmarks end as they are
  meant to. A batch signature authenticates exactly its mutations. A start panics or waits for ever on
  capacities of the log channel that nothing validates.

  Several theorems show what the code does and its comments do not say: a restart forgets, required
  noise isolates the node, authors can be framed, one author can make a quorum, ticks can swap and
  a reload can be lost when tasks interleave, a delta that the depth limit cuts is final, a
  revocation neither rejects nor cascades, the nodes of the epistemic mesh agree because their anchor
  is exhausted, and the claims of the scalability benchmark carry no weight beyond the eighth.

  \<^bold>\<open>Third-party code\<close> enters as parameters: BLAKE3, the slot choice of the slab, hexadecimal text,
  HKDF, the AEAD cipher and the node codec (record \<open>platform\<close>), the other codecs, Ed25519 and X25519
  (record \<open>wire\<close>), ring, snow (record \<open>noise\<close>), the size a channel admits, the JSON parser and the
  Unicode tables of the standard library (record \<open>text_lib\<close>). What a theorem needs of them is a named
  hypothesis (\<open>vacant_key\<close>, \<open>cipher_ok\<close>, \<open>codec_ok\<close>, \<open>wire_ok\<close>, \<open>unforgeable\<close>, \<open>responder_must_write\<close>,
  \<open>lower_ok\<close>, \<open>key_bound\<close>, \<open>ring_ok\<close>; that a hash does not collide on the nodes at hand is an
  \<open>inj_on\<close>, and that a mutation makes a node that no replica has or refers to is \<open>fresh_hash\<close> and
  \<open>fresh_ops\<close>), and every listed theorem with one is applied at a concrete instance after it. The
  iteration order of a hash set and the errors of a transaction are the parameters of a call
  (\<open>call_env\<close>); which exchanges are lost, the jitter and the seeds are parameters of a run.

  \<^bold>\<open>Bounds and fuel\<close>. Loops are functions with termination proofs: the worklists of the DAG
  traversals by the nodes that are not yet visited and their remaining links, the union-find walks
  by the length of the path, the propagation rounds by the rounds that are left, the eviction by the
  number of sessions, the rounds of a mesh by the limit of the code. Depths are \<open>u32\<close> values with the
  bound 100 of \<open>DAG_HISTORY_DEPTH\<close>, so they never wrap. Fixed-width integers are words; the theorem
  that needs a sum not to wrap says so (\<open>rate_bound\<close>, \<open>own_ticks_increase\<close>). No function has fuel.

  \<^bold>\<open>Not modelled\<close>: the registry of the metrics and the HTTP server, the layout and colours of the
  terminal, the parsing of the command line and the signals, which are I/O around the state; the
  semaphore that bounds delivery tasks; times and sizes that benchmarks measure. The stress and
  multinode benchmarks repeat what \<open>Batch_Signing\<close> and \<open>Mesh_Sync\<close> model, the profiles time library
  calls, \<open>compare_subjective_logic.rs\<close> computes other calculi in floating point, and
  \<open>compare_automerge.rs\<close> drives another library; tests state expectations over the library.
\<close>

end
